(* ===== verification/Redis_Prelude.thy ===== *)
theory Redis_Prelude
  imports Main "HOL-Library.Word" "HOL-Library.Monad_Syntax"
begin

text \<open>
  Shared vocabulary of the development: bytes and byte buffers, the C integer types the
  sources use, and little-endian integer encodings.

  A C buffer is a list of bytes (\<open>mem\<close>). Every access goes through one of four operations
  that return \<open>None\<close> when it leaves the buffer, so "the routine returns \<open>Some\<close>" is memory
  safety. C integers are \<open>int\<close> or \<open>nat\<close> with the conversion written out
  (\<open>to_i32\<close>, \<open>to_u32\<close>, \<dots>) wherever the source converts or may wrap, and
  \<open>w word\<close> where the code works on bits.
\<close>

section \<open>Bytes, characters and buffers\<close>

type_synonym byte = "8 word"
type_synonym mem = "byte list"

text \<open>A character constant of the source as a byte, and a string literal as a buffer.\<close>

definition ch :: "char \<Rightarrow> byte" where
  [simp]: "ch c = of_char c"

definition str :: "string \<Rightarrow> mem" where
  "str s = map ch s"

lemma str_simps [simp]:
  "str [] = []"
  "str (c # s) = of_char c # str s"
  "length (str s) = length s"
  by (simp_all add: str_def)

named_theorems mem_simps "what a buffer access returns when it is in range"

definition mem_get :: "nat \<Rightarrow> mem \<Rightarrow> byte option" where
  "mem_get i m = (if i < length m then Some (m ! i) else None)"

definition mem_put :: "nat \<Rightarrow> byte \<Rightarrow> mem \<Rightarrow> mem option" where
  "mem_put i b m = (if i < length m then Some (m[i := b]) else None)"

definition mem_read :: "nat \<Rightarrow> nat \<Rightarrow> mem \<Rightarrow> mem option" where
  "mem_read off n m = (if off + n \<le> length m then Some (take n (drop off m)) else None)"

definition mem_write :: "nat \<Rightarrow> mem \<Rightarrow> mem \<Rightarrow> mem option" where
  "mem_write off bs m =
     (if off + length bs \<le> length m then Some (take off m @ bs @ drop (off + length bs) m)
      else None)"

text \<open>\<open>memmove(dst, src, n)\<close> inside one buffer: the bytes are read before any is written.\<close>

definition mem_move :: "nat \<Rightarrow> nat \<Rightarrow> nat \<Rightarrow> mem \<Rightarrow> mem option" where
  "mem_move dst src n m = do { bs \<leftarrow> mem_read src n m; mem_write dst bs m }"

text \<open>
  \<open>zrealloc\<close> to \<open>n\<close> bytes keeps the common prefix; the bytes it adds have no defined value,
  so the model takes them from a parameter \<open>junk\<close>.
\<close>

definition mem_resize :: "byte \<Rightarrow> nat \<Rightarrow> mem \<Rightarrow> mem" where
  "mem_resize junk n m = take n m @ replicate (n - length m) junk"

lemma mem_get_Some [mem_simps]: "i < length m \<Longrightarrow> mem_get i m = Some (m ! i)"
  by (simp add: mem_get_def)

lemma mem_put_Some [mem_simps]: "i < length m \<Longrightarrow> mem_put i b m = Some (m[i := b])"
  by (simp add: mem_put_def)

lemma mem_read_Some [mem_simps]:
  "off + n \<le> length m \<Longrightarrow> mem_read off n m = Some (take n (drop off m))"
  by (simp add: mem_read_def)

lemma mem_write_Some [mem_simps]:
  "off + length bs \<le> length m \<Longrightarrow>
     mem_write off bs m = Some (take off m @ bs @ drop (off + length bs) m)"
  by (simp add: mem_write_def)

lemma mem_move_Some [mem_simps]:
  assumes "src + n \<le> length m" and "dst + n \<le> length m"
  shows "mem_move dst src n m = Some (take dst m @ take n (drop src m) @ drop (dst + n) m)"
  using assms by (simp add: mem_move_def mem_read_def mem_write_def)

lemma mem_get_length: "mem_get i m = Some b \<Longrightarrow> i < length m"
  by (simp add: mem_get_def split: if_splits)

lemma mem_write_length: "mem_write off bs m = Some m' \<Longrightarrow> length m' = length m"
  by (auto simp: mem_write_def split: if_splits)

lemma mem_put_length: "mem_put i b m = Some m' \<Longrightarrow> length m' = length m"
  by (auto simp: mem_put_def split: if_splits)

lemma length_mem_resize [simp]: "length (mem_resize junk n m) = n"
  by (simp add: mem_resize_def)

lemma mem_resize_append: "length m = n \<Longrightarrow> mem_resize junk n (m @ t) = m"
  by (simp add: mem_resize_def)

lemma take_mem_resize: "k \<le> n \<Longrightarrow> k \<le> length m \<Longrightarrow> take k (mem_resize junk n m) = take k m"
  by (simp add: mem_resize_def min_def)

section \<open>Arrays\<close>

text \<open>An array access of the source; \<open>None\<close> is an index out of range.\<close>

definition nth_opt :: "'a list \<Rightarrow> nat \<Rightarrow> 'a option" where
  "nth_opt xs i = (if i < length xs then Some (xs ! i) else None)"

lemma nth_opt_Some [simp]: "i < length xs \<Longrightarrow> nth_opt xs i = Some (xs ! i)"
  by (simp add: nth_opt_def)

lemma nth_opt_eq_Some: "nth_opt xs i = Some x \<longleftrightarrow> i < length xs \<and> xs ! i = x"
  by (simp add: nth_opt_def)

section \<open>C integer types\<close>

definition in_int64 :: "int \<Rightarrow> bool" where
  "in_int64 v \<longleftrightarrow> - (2 ^ 63) \<le> v \<and> v < 2 ^ 63"

definition in_int32 :: "int \<Rightarrow> bool" where
  "in_int32 v \<longleftrightarrow> - (2 ^ 31) \<le> v \<and> v < 2 ^ 31"

definition in_int16 :: "int \<Rightarrow> bool" where
  "in_int16 v \<longleftrightarrow> - (2 ^ 15) \<le> v \<and> v < 2 ^ 15"

text \<open>Conversion to \<open>uint32_t\<close> and to \<open>int\<close> (two's complement, as every supported compiler).\<close>

definition to_u32 :: "int \<Rightarrow> nat" where
  "to_u32 v = nat (v mod 2 ^ 32)"

text \<open>The value a sum or product of \<open>uint32_t\<close>s has in that type.\<close>

definition u32 :: "nat \<Rightarrow> nat" where
  "u32 n = n mod 2 ^ 32"

text \<open>Subtraction on \<open>uint32_t\<close>, which wraps around below zero.\<close>

definition u32_sub :: "nat \<Rightarrow> nat \<Rightarrow> nat" where
  "u32_sub a b = to_u32 (int a - int b)"

definition to_i32 :: "int \<Rightarrow> int" where
  "to_i32 v = (v + 2 ^ 31) mod 2 ^ 32 - 2 ^ 31"

lemma to_u32_id [simp]: "0 \<le> v \<Longrightarrow> v < 2 ^ 32 \<Longrightarrow> to_u32 v = nat v"
  by (simp add: to_u32_def)

lemma u32_id [simp]: "n < 2 ^ 32 \<Longrightarrow> u32 n = n"
  by (simp add: u32_def)

lemma u32_sub_id [simp]: "b \<le> a \<Longrightarrow> a < 2 ^ 32 \<Longrightarrow> u32_sub a b = a - b"
  by (simp add: u32_sub_def to_u32_def nat_diff_distrib)

lemma to_i32_id [simp]: "in_int32 v \<Longrightarrow> to_i32 v = v"
  by (simp add: to_i32_def in_int32_def)

section \<open>Little-endian integers\<close>

text \<open>
  \<open>le_bytes n v\<close> is the \<open>n\<close>-byte little-endian two's complement representation of \<open>v\<close>;
  \<open>le_uint\<close> and \<open>le_sint\<close> read a buffer back as unsigned and as signed.
\<close>

primrec le_bytes :: "nat \<Rightarrow> int \<Rightarrow> mem" where
  "le_bytes 0 v = []"
| "le_bytes (Suc n) v = word_of_int v # le_bytes n (v div 256)"

primrec le_uint :: "mem \<Rightarrow> int" where
  "le_uint [] = 0"
| "le_uint (b # bs) = uint b + 256 * le_uint bs"

definition le_sint :: "mem \<Rightarrow> int" where
  "le_sint bs =
     (let u = le_uint bs in
      if 2 * u < 256 ^ length bs then u else u - 256 ^ length bs)"

lemma length_le_bytes [simp]: "length (le_bytes n v) = n"
  by (induction n arbitrary: v) simp_all

lemma le_uint_ge0 [simp]: "0 \<le> le_uint bs"
  by (induction bs) simp_all

lemma le_uint_less: "le_uint bs < 256 ^ length bs"
proof (induction bs)
  case (Cons b bs)
  have "uint b < 256" using uint_bounded [of b] by simp
  moreover have "256 * (le_uint bs + 1) \<le> 256 * 256 ^ length bs"
    using Cons.IH by (intro mult_left_mono) auto
  ultimately have "uint b + 256 * le_uint bs < 256 * 256 ^ length bs"
    by (simp only: distrib_left)
  then show ?case by simp
qed simp

lemma le_uint_le_bytes: "le_uint (le_bytes n v) = v mod 256 ^ n"
proof (induction n arbitrary: v)
  case (Suc n)
  have "uint (word_of_int v :: byte) = v mod 256"
    by (simp add: uint_word_of_int)
  then have "le_uint (le_bytes (Suc n) v) = v mod 256 + 256 * (v div 256 mod 256 ^ n)"
    by (simp add: Suc.IH)
  also have "\<dots> = v mod (256 * 256 ^ n)"
    by (subst zmod_zmult2_eq) simp_all
  finally show ?case by simp
qed simp

lemma le_bytes_le_uint: "le_bytes (length bs) (le_uint bs) = bs"
proof (induction bs)
  case (Cons b bs)
  have "uint b < 256" using uint_bounded [of b] by simp
  then have d: "(uint b + 256 * le_uint bs) div 256 = le_uint bs" by simp
  have "(256 :: byte) = 0" by simp
  then have "(word_of_int (uint b + 256 * le_uint bs) :: byte) = b"
    by (simp only: wi_hom_syms word_of_int_uint of_int_mult of_int_numeral) simp
  with d Cons.IH show ?case by simp
qed simp

lemma le_sint_le_bytes:
  assumes "- (256 ^ n) \<le> 2 * v" and "2 * v < 256 ^ n"
  shows "le_sint (le_bytes n v) = v"
proof (cases "0 \<le> v")
  case True
  with assms have "v mod 256 ^ n = v" by simp
  with assms show ?thesis by (simp add: le_sint_def le_uint_le_bytes)
next
  case False
  have "v mod 256 ^ n = (v + 256 ^ n) mod 256 ^ n" by simp
  also have "\<dots> = v + 256 ^ n" using assms False by (intro mod_pos_pos_trivial) auto
  finally show ?thesis using assms by (simp add: le_sint_def le_uint_le_bytes)
qed

lemma le_sint_bounds:
  assumes "bs \<noteq> []"
  shows "- (256 ^ length bs) \<le> 2 * le_sint bs" and "2 * le_sint bs < 256 ^ length bs"
  using le_uint_less [of bs] by (auto simp: le_sint_def Let_def intro: order_trans [of _ 0])

lemma le_bytes_mod: "le_bytes n (v mod 256 ^ n) = le_bytes n v"
  using le_bytes_le_uint [of "le_bytes n v"] by (simp add: le_uint_le_bytes)

lemma le_bytes_le_sint: "le_bytes (length bs) (le_sint bs) = bs"
proof -
  have "(le_uint bs - 256 ^ length bs) mod 256 ^ length bs = le_uint bs mod 256 ^ length bs" by simp
  then have "le_bytes (length bs) (le_uint bs - 256 ^ length bs) = le_bytes (length bs) (le_uint bs)"
    by (metis le_bytes_mod)
  then show ?thesis by (simp add: le_sint_def Let_def le_bytes_le_uint)
qed

section \<open>Arrays of fixed-width records\<close>

text \<open>A buffer that holds one \<open>w\<close>-byte record \<open>f x\<close> per element of a list.\<close>

definition chunks :: "('a \<Rightarrow> mem) \<Rightarrow> 'a list \<Rightarrow> mem" where
  "chunks f xs = concat (map f xs)"

lemma chunks_simps [simp]:
  "chunks f [] = []"
  "chunks f (x # xs) = f x @ chunks f xs"
  "chunks f (xs @ ys) = chunks f xs @ chunks f ys"
  by (simp_all add: chunks_def)

lemma length_chunks [simp]: "(\<And>x. length (f x) = w) \<Longrightarrow> length (chunks f xs) = length xs * w"
  by (induction xs) simp_all

lemma take_chunks:
  assumes w: "\<And>x. length (f x) = w" and "i \<le> length xs"
  shows "take (i * w) (chunks f xs) = chunks f (take i xs)"
proof -
  have "chunks f xs = chunks f (take i xs) @ chunks f (drop i xs)"
    by (metis append_take_drop_id chunks_simps(3))
  with assms show ?thesis by (simp add: length_chunks [OF w])
qed

lemma drop_chunks:
  assumes w: "\<And>x. length (f x) = w" and "i \<le> length xs"
  shows "drop (i * w) (chunks f xs) = chunks f (drop i xs)"
proof -
  have "chunks f xs = chunks f (take i xs) @ chunks f (drop i xs)"
    by (metis append_take_drop_id chunks_simps(3))
  with assms show ?thesis by (simp add: length_chunks [OF w])
qed

lemma nth_chunk:
  assumes w: "\<And>x. length (f x) = w" and i: "i < length xs"
  shows "take w (drop (i * w) (chunks f xs)) = f (xs ! i)"
  using drop_chunks [OF w, of i xs] i by (simp add: Cons_nth_drop_Suc [symmetric] w)

lemma split_chunks:
  "length m = n * w \<Longrightarrow> concat (map (\<lambda>i. take w (drop (i * w) m)) [0..<n]) = m"
proof (induction n arbitrary: m)
  case (Suc n)
  have "map (\<lambda>i. take w (drop (i * w) m)) [0..<Suc n]
      = take w m # map (\<lambda>i. take w (drop (i * w) (drop w m))) [0..<n]"
    by (simp add: upt_conv_Cons map_Suc_upt [symmetric] comp_def add.commute del: upt_Suc)
  with Suc.IH [of "drop w m"] Suc.prems show ?case by simp
qed simp

section \<open>Bits of natural numbers\<close>

unbundle bit_operations_syntax

lemma nat_push_or: "(y :: nat) < 2 ^ n \<Longrightarrow> push_bit n x OR y = x * 2 ^ n + y"
proof -
  assume y: "y < 2 ^ n"
  have "push_bit n x AND take_bit n y = 0"
    by (rule bit_eqI) (auto simp: bit_simps)
  then have "push_bit n x AND y = 0" using y by (simp add: take_bit_nat_eq_self)
  then have "push_bit n x + y = push_bit n x OR y" by (rule disjunctive_add_eq_or)
  then show ?thesis by (simp add: push_bit_eq_mult)
qed

lemma nat_and_mask: "(n :: nat) AND (2 ^ k - 1) = n mod 2 ^ k"
  using take_bit_eq_mask [of k n] by (simp add: take_bit_eq_mod mask_eq_exp_minus_1)

lemma unat_of_nat_byte: "n < 256 \<Longrightarrow> unat (of_nat n :: byte) = n"
  by (simp add: unat_of_nat take_bit_eq_mod)

lemma unat_of_nat_mod: "unat (of_nat n :: byte) = n mod 256"
  by (simp add: unat_of_nat take_bit_eq_mod)

lemma unat_byte_less: "unat (b :: byte) < 256"
  using unsigned_less [of b] by simp

end
