(* ===== verification/Util.thy ===== *)
theory Util
  imports Redis_Prelude
begin

text \<open>
  The number conversions of \<open>util.c\<close>: \<open>digits10\<close>, \<open>sdigits10\<close>, \<open>ll2string\<close>,
  \<open>string2ll\<close>, \<open>string2ull\<close>, \<open>string2l\<close>, and the buffer helpers \<open>mempbrk\<close> and
  \<open>memmapchars\<close>.

  The reference is \<open>dec_int\<close>, the canonical decimal form. \<open>ll2string\<close> writes exactly it
  and stays inside the buffer, and \<open>string2ll\<close> accepts exactly it: the pair is what lets the
  server store strings that look like integers as integers and give the same bytes back.
\<close>

section \<open>Printing\<close>

fun digits10 :: "nat \<Rightarrow> nat" where
  "digits10 v =
     (if v < 10 then 1
      else if v < 100 then 2
      else if v < 1000 then 3
      else if v < 1000000000000 then
        (if v < 100000000 then
           (if v < 1000000 then
              (if v < 10000 then 4 else 5 + of_bool (v \<ge> 100000))
            else 7 + of_bool (v \<ge> 10000000))
         else if v < 10000000000 then 9 + of_bool (v \<ge> 1000000000)
         else 11 + of_bool (v \<ge> 100000000000))
      else 12 + digits10 (v div 1000000000000))"

declare digits10.simps [simp del]

definition LLONG_MIN :: int where "LLONG_MIN = - (2 ^ 63)"
definition LLONG_MAX :: int where "LLONG_MAX = 2 ^ 63 - 1"

definition sdigits10 :: "int \<Rightarrow> nat" where
  "sdigits10 v =
     (if v < 0 then
        (let uv = (if v \<noteq> LLONG_MIN then nat (- v) else nat LLONG_MAX + 1)
         in digits10 uv + 1)
      else digits10 (nat v))"

definition ll_digits :: mem where
  "ll_digits = str (''0001020304050607080910111213141516171819''
       @ ''2021222324252627282930313233343536373839''
       @ ''4041424344454647484950515253545556575859''
       @ ''6061626364656667686970717273747576777879''
       @ ''8081828384858687888990919293949596979899'')"

text \<open>
  The \<open>while\<close> loop over pairs of digits and the last one or two digits. \<open>value\<close> is the
  \<open>unsigned long long\<close>, \<open>nxt\<close> the \<open>uint32_t\<close> write position.
\<close>

function ll2string_loop :: "nat \<Rightarrow> nat \<Rightarrow> mem \<Rightarrow> mem option" where
  "ll2string_loop value nxt dst =
     (if value \<ge> 100 then do {
        let i = (value mod 100) * 2;
        d1 \<leftarrow> mem_get (i + 1) ll_digits;
        dst \<leftarrow> mem_put nxt d1 dst;
        d0 \<leftarrow> mem_get i ll_digits;
        dst \<leftarrow> mem_put (u32_sub nxt 1) d0 dst;
        ll2string_loop (value div 100) (u32_sub nxt 2) dst
      } else if value < 10 then
        mem_put nxt (48 + of_nat value) dst
      else do {
        let i = value * 2;
        d1 \<leftarrow> mem_get (i + 1) ll_digits;
        dst \<leftarrow> mem_put nxt d1 dst;
        d0 \<leftarrow> mem_get i ll_digits;
        mem_put (u32_sub nxt 1) d0 dst
      })"
  by pat_completeness auto
termination
  by (relation "measure (\<lambda>(value, nxt, dst). value)") auto

declare ll2string_loop.simps [simp del]

text \<open>The result is the returned length and the buffer; \<open>None\<close> is a write outside it.\<close>

definition ll2string :: "mem \<Rightarrow> nat \<Rightarrow> int \<Rightarrow> (nat \<times> mem) option" where
  "ll2string dst dstlen svalue =
     (let (value, negative) =
        (if svalue < 0 then
           ((if svalue \<noteq> LLONG_MIN then nat (- svalue) else nat LLONG_MAX + 1), True)
         else (nat svalue, False));
        len = digits10 value + of_bool negative
      in if len \<ge> dstlen then Some (0, dst)
         else do {
           dst \<leftarrow> mem_put len 0 dst;
           dst \<leftarrow> ll2string_loop value (u32_sub len 1) dst;
           dst \<leftarrow> (if negative then mem_put 0 (ch CHR ''-'') dst else Some dst);
           Some (len, dst)
         })"

section \<open>Parsing\<close>

text \<open>
  The loop of \<open>string2ll\<close> over the digits after the first one, on an
  \<open>unsigned long long\<close>. \<open>None\<close> is an overflow; otherwise the value and the bytes left.
\<close>

fun string2ll_digits :: "64 word \<Rightarrow> mem \<Rightarrow> (64 word \<times> mem) option" where
  "string2ll_digits v [] = Some (v, [])"
| "string2ll_digits v (c # p) =
     (if c \<ge> ch CHR ''0'' \<and> c \<le> ch CHR ''9'' then
        (if v > (- 1) div 10 then None
         else let v = v * 10; d = ucast (c - ch CHR ''0'') in
           if v > - 1 - d then None
           else string2ll_digits (v + d) p)
      else Some (v, c # p))"

definition string2ll :: "mem \<Rightarrow> int option" where
  "string2ll s =
     (if s = [] then None
      else if length s = 1 \<and> hd s = ch CHR ''0'' then Some 0
      else
        let negative = (hd s = ch CHR ''-'');
            p = (if negative then tl s else s)
        in if p = [] then None
        else if hd p \<ge> ch CHR ''1'' \<and> hd p \<le> ch CHR ''9'' then
          (case string2ll_digits (ucast (hd p - ch CHR ''0'')) (tl p) of
             None \<Rightarrow> None
           | Some (v, rest) \<Rightarrow>
               if rest \<noteq> [] then None
               else if negative then
                 (if v > 2 ^ 63 then None else Some (sint (- v)))
               else if v > 2 ^ 63 - 1 then None
               else Some (sint v))
        else None)"

text \<open>\<open>long\<close> has the width of \<open>long long\<close> on the supported 64-bit platforms.\<close>

definition string2l :: "mem \<Rightarrow> int option" where
  "string2l s =
     (case string2ll s of
        None \<Rightarrow> None
      | Some llval \<Rightarrow> if llval < LLONG_MIN \<or> llval > LLONG_MAX then None else Some llval)"

text \<open>
  \<open>strtoull\<close> in base 10, as the C standard defines it: leading white space, an optional
  sign, digits; no digits leave the end pointer at the start, an overflow sets \<open>ERANGE\<close>, and
  a minus sign negates the converted value in the unsigned type. The result is the value, the
  bytes from the end pointer on, and whether \<open>errno\<close> is \<open>ERANGE\<close>.
\<close>

abbreviation is_digit :: "byte \<Rightarrow> bool" where
  "is_digit c \<equiv> 48 \<le> c \<and> c \<le> 57"

definition is_space :: "byte \<Rightarrow> bool" where
  "is_space c \<longleftrightarrow> c = 32 \<or> 9 \<le> c \<and> c \<le> 13"

definition digit_val :: "byte \<Rightarrow> nat" where
  "digit_val c = unat (c - 48)"

definition dec_val :: "nat \<Rightarrow> mem \<Rightarrow> nat" where
  "dec_val = foldl (\<lambda>a c. 10 * a + digit_val c)"

definition strtoull10 :: "mem \<Rightarrow> nat \<times> mem \<times> bool" where
  "strtoull10 s =
     (let p = dropWhile is_space s;
          neg = (p \<noteq> [] \<and> hd p = ch CHR ''-'');
          p = (if p \<noteq> [] \<and> (hd p = ch CHR ''-'' \<or> hd p = ch CHR ''+'') then tl p else p);
          ds = takeWhile is_digit p;
          n = dec_val 0 ds
      in if ds = [] then (0, s, False)
         else if n \<ge> 2 ^ 64 then (2 ^ 64 - 1, dropWhile is_digit p, True)
         else ((if neg then (2 ^ 64 - n) mod 2 ^ 64 else n), dropWhile is_digit p, False))"

definition string2ull :: "mem \<Rightarrow> nat option" where
  "string2ull s =
     (case string2ll s of
        Some ll \<Rightarrow> if ll < 0 then None else Some (nat ll)
      | None \<Rightarrow>
          (let (v, rest, erange) = strtoull10 s
           in if erange \<or> \<not> (s \<noteq> [] \<and> rest = []) then None else Some v))"

section \<open>Buffer helpers\<close>

text \<open>The index of the first byte of \<open>s\<close> that is one of \<open>chars\<close>.\<close>

fun mempbrk :: "mem \<Rightarrow> mem \<Rightarrow> nat option" where
  "mempbrk [] chars = None"
| "mempbrk (c # s) chars =
     (if list_ex (\<lambda>x. c = x) chars then Some 0 else map_option Suc (mempbrk s chars))"

text \<open>\<open>from\<close> and \<open>to\<close> have the same length (the source's \<open>setlen\<close>).\<close>

definition memmapchars :: "mem \<Rightarrow> mem \<Rightarrow> mem \<Rightarrow> mem" where
  "memmapchars s from to =
     map (\<lambda>c. case map_of (zip from to) c of None \<Rightarrow> c | Some t \<Rightarrow> t) s"

section \<open>The canonical decimal form\<close>

fun dec_nat :: "nat \<Rightarrow> mem" where
  "dec_nat n = (if n < 10 then [48 + of_nat n] else dec_nat (n div 10) @ [48 + of_nat (n mod 10)])"

declare dec_nat.simps [simp del]

definition dec_int :: "int \<Rightarrow> mem" where
  "dec_int v = (if v < 0 then ch CHR ''-'' # dec_nat (nat (- v)) else dec_nat (nat v))"


lemma dec_nat_small: "n < 10 \<Longrightarrow> dec_nat n = [48 + of_nat n]"
  by (subst dec_nat.simps) simp

lemma dec_nat_step: "10 \<le> n \<Longrightarrow> dec_nat n = dec_nat (n div 10) @ [48 + of_nat (n mod 10)]"
  by (subst dec_nat.simps) simp

lemma dec_nat_step2:
  assumes "100 \<le> n"
  shows "dec_nat n = dec_nat (n div 100) @ [48 + of_nat (n mod 100 div 10), 48 + of_nat (n mod 10)]"
proof -
  have "n div 10 mod 10 = n mod 100 div 10"
    by (simp add: mod_mult2_eq [of n 10 10, simplified])
  with assms show ?thesis
    by (simp add: dec_nat_step [of n] dec_nat_step [of "n div 10"] div_mult2_eq [symmetric])
qed

lemma length_dec_nat_pow: "n < 10 ^ Suc k \<Longrightarrow> 10 ^ k \<le> n \<or> k = 0 \<Longrightarrow> length (dec_nat n) = Suc k"
proof (induction k arbitrary: n)
  case 0
  then show ?case by (simp add: dec_nat_small)
next
  case (Suc k)
  then have "n div 10 < 10 ^ Suc k" "10 ^ k \<le> n div 10" by auto
  moreover have "10 \<le> n" using Suc.prems order_trans [of 10 "10 ^ Suc k" n] by simp
  ultimately show ?case by (simp add: dec_nat_step Suc.IH)
qed

lemma length_dec_nat_div:
  "10 ^ k \<le> n \<Longrightarrow> length (dec_nat n) = k + length (dec_nat (n div 10 ^ k))"
proof (induction k arbitrary: n)
  case (Suc k)
  then have "10 ^ k \<le> n div 10" and "10 \<le> n"
    using order_trans [of 10 "10 ^ Suc k" n] by auto
  with Suc.IH [of "n div 10"] show ?case
    by (simp add: dec_nat_step div_mult2_eq)
qed simp

lemma digits10_dec: "digits10 v = length (dec_nat v)"
proof (induction v rule: digits10.induct)
  case (1 v)
  show ?case
  proof (cases "v < 1000000000000")
    case True
    note p = length_dec_nat_pow [of v]
    show ?thesis using True
      by (subst digits10.simps)
         (use p [of 0] p [of 1] p [of 2] p [of 3] p [of 4] p [of 5] p [of 6] p [of 7] p [of 8]
            p [of 9] p [of 10] p [of 11] in \<open>auto simp: of_bool_def\<close>)
  next
    case False
    then show ?thesis
      using "1" length_dec_nat_div [of 12 v] by (subst digits10.simps) simp
  qed
qed

lemma length_concat_pairs [simp]: "length (concat (map (\<lambda>x. [f x, g x]) xs)) = length xs * 2"
  by (induction xs) auto

lemma concat_pairs:
  assumes "i < length xs"
  shows "concat (map (\<lambda>x. [f x, g x]) xs) ! (i * 2) = f (xs ! i)"
    and "concat (map (\<lambda>x. [f x, g x]) xs) ! Suc (i * 2) = g (xs ! i)"
  using assms by (induction xs arbitrary: i) (auto simp: nth_Cons split: nat.splits)

lemma ll_digits_pairs:
  "ll_digits = concat (map (\<lambda>i. [48 + of_nat (i div 10), 48 + of_nat (i mod 10)]) [0..<100])"
  by (simp add: ll_digits_def upt_rec)

lemma ll_digits_lookup [simp]:
  assumes "i < 100"
  shows "mem_get (i * 2) ll_digits = Some (48 + of_nat (i div 10))"
    and "mem_get (Suc (i * 2)) ll_digits = Some (48 + of_nat (i mod 10))"
  using concat_pairs [of i "[0..<100]"] assms
  by (simp_all only: ll_digits_pairs mem_get_def length_concat_pairs length_upt) simp_all

lemma two_puts:
  assumes "0 < k" and "k < length m"
  shows "m[k := b, k - Suc 0 := a] = take (k - Suc 0) m @ a # b # drop (Suc k) m"
  using assms
  by (cases k) (simp_all add: upd_conv_take_nth_drop [of k] take_Suc_conv_app_nth list_update_append
      upd_conv_take_nth_drop [of "Suc _"])

lemma length_dec_nat_pos [simp]: "0 < length (dec_nat n)"
  by (subst dec_nat.simps) simp

lemma ll2string_loop_correct:
  assumes "length (dec_nat v) \<le> Suc nxt" and "nxt < length m" and "nxt < 2 ^ 32"
  shows "ll2string_loop v nxt m
    = Some (take (Suc nxt - length (dec_nat v)) m @ dec_nat v @ drop (Suc nxt) m)"
  using assms
proof (induction v arbitrary: nxt m rule: less_induct)
  case (less v)
  consider "100 \<le> v" | "v < 10" | "10 \<le> v" "v < 100" by linarith
  then show ?case
  proof cases
    case 1
    let ?m = "m[nxt := 48 + of_nat (v mod 10), nxt - 1 := 48 + of_nat (v mod 100 div 10)]"
    have len: "length (dec_nat v) = length (dec_nat (v div 100)) + 2"
      using 1 by (simp add: dec_nat_step2)
    have k: "2 \<le> nxt" using len less.prems(1) length_dec_nat_pos [of "v div 100"] by linarith
    have "ll2string_loop v nxt m = ll2string_loop (v div 100) (nxt - 2) ?m"
      using 1 k less.prems by (subst ll2string_loop.simps) (simp add: mem_simps mod_mod_cancel)
    also have "\<dots> = Some (take (nxt - 1 - length (dec_nat (v div 100))) ?m
        @ dec_nat (v div 100) @ drop (nxt - 1) ?m)"
      using 1 k less.prems len less.IH [of "v div 100" "nxt - 2" ?m]
      by (simp add: Suc_diff_le [symmetric] Suc_diff_Suc numeral_2_eq_2)
    finally show ?thesis
      using 1 k less.prems len
      by (simp add: two_puts dec_nat_step2 [of v] numeral_2_eq_2)
  next
    case 2
    then show ?thesis using less.prems
      by (subst ll2string_loop.simps)
         (simp add: mem_simps dec_nat_small upd_conv_take_nth_drop)
  next
    case 3
    then have "dec_nat v = [48 + of_nat (v div 10), 48 + of_nat (v mod 10)]"
      by (simp add: dec_nat_step dec_nat_small)
    with 3 show ?thesis using less.prems 
      by (subst ll2string_loop.simps) (simp add: mem_simps two_puts)
  qed
qed

lemma dec_nat_not_Nil [simp]: "dec_nat n \<noteq> []"
  using length_dec_nat_pos [of n] by fastforce

lemma sdigits10_dec: "in_int64 v \<Longrightarrow> sdigits10 v = length (dec_int v)"
  by (auto simp: sdigits10_def dec_int_def digits10_dec LLONG_MIN_def LLONG_MAX_def)

lemma length_dec_nat_le: "n < 10 ^ Suc k \<Longrightarrow> length (dec_nat n) \<le> Suc k"
proof (induction k arbitrary: n)
  case 0
  then show ?case by (simp add: dec_nat_small)
next
  case (Suc k)
  show ?case
  proof (cases "n < 10")
    case False
    then show ?thesis using Suc.prems Suc.IH [of "n div 10"] by (simp add: dec_nat_step)
  qed (simp add: dec_nat_small)
qed

lemma drop_put: "k < length m \<Longrightarrow> drop k (m[k := b]) = b # drop (Suc k) m"
  by (simp add: upd_conv_take_nth_drop)

lemma ll2string_dec:
  assumes v: "in_int64 v" and d: "dstlen \<le> length dst"
  shows "ll2string dst dstlen v =
    (if dstlen \<le> length (dec_int v) then Some (0, dst)
     else Some (length (dec_int v), dec_int v @ 0 # drop (Suc (length (dec_int v))) dst))"
proof -
  define n where "n = (if v < 0 then nat (- v) else nat v)"
  define L where "L = length (dec_int v)"
  have mag: "(if v < 0 then (if v \<noteq> LLONG_MIN then nat (- v) else nat LLONG_MAX + 1, True)
      else (nat v, False)) = (n, v < 0)"
    by (auto simp: n_def LLONG_MIN_def LLONG_MAX_def)
  have dec: "dec_int v = (if v < 0 then [45] else []) @ dec_nat n"
    by (simp add: dec_int_def n_def)
  then have len: "digits10 n + of_bool (v < 0) = L" and Ln: "length (dec_nat n) \<le> L" "0 < L"
    by (auto simp: L_def digits10_dec)
  have "n < 10 ^ Suc 19" using v by (auto simp: n_def in_int64_def)
  then have "length (dec_nat n) \<le> 20" using length_dec_nat_le [of n 19] by simp
  then have small: "L < 2 ^ 32" by (auto simp: L_def dec)
  have sub: "u32_sub L 1 = L - 1" using Ln small by (intro u32_sub_id) auto
  show ?thesis
  proof (cases "dstlen \<le> L")
    case True
    then show ?thesis
      unfolding ll2string_def mag Let_def prod.case len L_def [symmetric] by simp
  next
    case False
    with d have Ld: "L < length dst" by simp
    have loop: "ll2string_loop n (L - 1) (dst[L := 0])
      = Some (take (L - length (dec_nat n)) dst @ dec_nat n @ 0 # drop (Suc L) dst)"
      using ll2string_loop_correct [of n "L - 1" "dst[L := 0]"] Ld Ln small
      by (simp add: drop_put)
    show ?thesis
    proof (cases "v < 0")
      case True
      with dec Ld Ln False small loop show ?thesis
        unfolding ll2string_def mag Let_def prod.case len sub L_def [symmetric]
        by (cases dst) (auto simp: mem_simps L_def)
    next
      case v0: False
      with dec Ld Ln False small loop show ?thesis
        unfolding ll2string_def mag Let_def prod.case len sub L_def [symmetric]
        by (simp add: mem_simps L_def)
    qed
  qed
qed


lemma unat_ucast_byte [simp]: "unat (ucast (b :: byte) :: 64 word) = unat b"
proof -
  have "unat b < 2 ^ 64" using unsigned_less [of b, where ?'a = nat] by simp
  then show ?thesis by (simp add: unsigned_ucast_eq take_bit_nat_eq_self)
qed

lemma dec_val_simps [simp]:
  "dec_val n [] = n"
  "dec_val n (c # p) = dec_val (10 * n + digit_val c) p"
  by (simp_all add: dec_val_def)

lemma dec_val_ge: "n \<le> dec_val n p"
proof (induction p arbitrary: n)
  case (Cons c p)
  from Cons.IH [of "10 * n + digit_val c"] show ?case by simp
qed simp

lemma digit_val_digit: "d < 10 \<Longrightarrow> digit_val (48 + of_nat d) = d"
  by (simp add: digit_val_def unat_of_nat)

lemma is_digit_digit: "d < 10 \<Longrightarrow> is_digit (48 + of_nat d)"
proof -
  assume "d < 10"
  then have "unat (48 + of_nat d :: byte) = 48 + d" by (simp add: unat_word_ariths unat_of_nat)
  with \<open>d < 10\<close> show ?thesis by (simp add: word_le_nat_alt)
qed

lemma digit_val_less: "is_digit c \<Longrightarrow> digit_val c < 10 \<and> c = 48 + of_nat (digit_val c)"
proof -
  assume c: "is_digit c"
  then have "unat (c - 48) = unat c - 48" by (simp add: unat_sub)
  with c have "digit_val c < 10" by (auto simp: digit_val_def word_le_nat_alt)
  then show ?thesis by (simp add: digit_val_def)
qed

lemma string2ll_digits_iff:
  "string2ll_digits v p = Some (w, []) \<longleftrightarrow>
     list_all is_digit p \<and> dec_val (unat v) p < 2 ^ 64 \<and> unat w = dec_val (unat v) p"
proof (induction p arbitrary: v)
  case Nil
  show ?case using unsigned_less [of v] by (auto simp: word_unat_eq_iff)
next
  case (Cons c p)
  let ?d = "ucast (c - 48) :: 64 word"
  have ud: "unat ?d = digit_val c"
    by (simp add: digit_val_def unat_ucast_byte)
  show ?case
  proof (cases "is_digit c")
    case False
    then show ?thesis by auto
  next
    case True
    note d10 = digit_val_less [OF True]
    have ge: "10 * unat v + digit_val c \<le> dec_val (10 * unat v + digit_val c) p"
      by (rule dec_val_ge)
    consider "v > (- 1) div 10" | "v \<le> (- 1) div 10" "v * 10 > - 1 - ?d"
      | "v \<le> (- 1) div 10" "v * 10 \<le> - 1 - ?d" by fastforce
    then show ?thesis
    proof cases
      case 1
      then have "1844674407370955161 < unat v" by (simp add: word_less_nat_alt)
      with ge have "\<not> dec_val (10 * unat v + digit_val c) p < 2 ^ 64" by simp
      with 1 True show ?thesis by simp
    next
      case 2
      then have "unat v \<le> 1844674407370955161" by (simp add: word_le_nat_alt)
      then have "unat (v * 10) = unat v * 10" by (simp add: unat_word_ariths)
      moreover have "unat (- 1 - ?d) = 2 ^ 64 - 1 - digit_val c"
        using ud by (simp add: unat_sub unsigned_minus_1_eq_mask mask_eq_exp_minus_1)
      ultimately have "\<not> dec_val (10 * unat v + digit_val c) p < 2 ^ 64"
        using 2(2) ge d10 by (simp add: word_less_nat_alt)
      with 2 True show ?thesis by (simp add: not_le Let_def)
    next
      case 3
      then have "unat v \<le> 1844674407370955161" by (simp add: word_le_nat_alt)
      then have "unat (v * 10) = unat v * 10" by (simp add: unat_word_ariths)
      moreover have "unat (- 1 - ?d) = 2 ^ 64 - 1 - digit_val c"
        using ud by (simp add: unat_sub unsigned_minus_1_eq_mask mask_eq_exp_minus_1)
      ultimately have "unat (v * 10 + ?d) = 10 * unat v + digit_val c"
        using 3(2) ud d10 by (auto simp: word_le_nat_alt unat_word_ariths intro!: mod_less)
      with 3 True show ?thesis by (simp add: Cons.IH leD Let_def)
    qed
  qed
qed

lemma dec_nat_append_digit:
  "0 < n \<Longrightarrow> is_digit c \<Longrightarrow> dec_nat (10 * n + digit_val c) = dec_nat n @ [c]"
  using digit_val_less [of c] by (subst dec_nat_step) auto

lemma dec_nat_dec_val: "0 < n \<Longrightarrow> list_all is_digit p \<Longrightarrow> dec_nat (dec_val n p) = dec_nat n @ p"
  by (induction p arbitrary: n) (auto simp: dec_nat_append_digit)

lemma dec_nat_leading:
  "0 < n \<Longrightarrow> \<exists>d p. dec_nat n = (48 + of_nat d) # p \<and> 1 \<le> d \<and> d < 10 \<and> list_all is_digit p
     \<and> dec_val d p = n"
proof (induction n rule: dec_nat.induct)
  case (1 n)
  show ?case
  proof (cases "n < 10")
    case True
    with 1 show ?thesis by (simp add: dec_nat_small exI [of _ n])
  next
    case False
    then have "0 < n div 10" by simp
    with False "1.IH" obtain d p where p: "dec_nat (n div 10) = (48 + of_nat d) # p" "1 \<le> d" "d < 10"
      "list_all is_digit p" "dec_val d p = n div 10" by blast
    have "dec_val d (p @ [48 + of_nat (n mod 10)]) = n"
      using p(5) by (simp add: dec_val_def digit_val_digit)
    with False p show ?thesis
      using is_digit_digit [of "n mod 10"] by (intro exI [of _ d]) (simp add: dec_nat_step)
  qed
qed

lemma magnitude_iff:
  "p \<noteq> [] \<and> 49 \<le> hd p \<and> hd p \<le> 57 \<and> string2ll_digits (ucast (hd p - 48)) (tl p) = Some (w, [])
    \<longleftrightarrow> 0 < unat w \<and> p = dec_nat (unat w)" (is "?L \<longleftrightarrow> ?R")
proof
  assume L: ?L
  then obtain c ps where p: "p = c # ps" by (cases p) auto
  have c: "is_digit c" using L p by (auto simp: word_le_nat_alt)
  have d0: "0 < digit_val c" using L p by (auto simp: digit_val_def word_le_nat_alt unat_sub)
  have "unat (ucast (c - 48) :: 64 word) = digit_val c"
    by (simp add: digit_val_def unat_ucast_byte)
  with L p have *: "list_all is_digit ps" "unat w = dec_val (digit_val c) ps"
    by (auto simp: string2ll_digits_iff)
  then have "dec_nat (unat w) = dec_nat (digit_val c) @ ps" using d0 by (simp add: dec_nat_dec_val)
  moreover have "dec_nat (digit_val c) = [c]"
    using digit_val_less [OF c] by (simp add: dec_nat_small)
  moreover have "0 < unat w" using * d0 dec_val_ge [of "digit_val c" ps] by simp
  ultimately show ?R using p by simp
next
  assume R: ?R
  then obtain d ps where p: "p = (48 + of_nat d) # ps" "1 \<le> d" "d < 10" "list_all is_digit ps"
    "dec_val d ps = unat w" using dec_nat_leading [of "unat w"] by auto
  have u: "unat (48 + of_nat d :: byte) = 48 + d" using p by (simp add: unat_word_ariths unat_of_nat)
  have "unat (ucast (48 + of_nat d - 48 :: byte) :: 64 word) = d"
    using digit_val_digit [OF p(3)] by (simp only: digit_val_def unat_ucast_byte)
  then show ?L using p u unsigned_less [of w] by (simp add: string2ll_digits_iff word_le_nat_alt)
qed

lemma sint_of_range: "in_int64 y \<Longrightarrow> sint (word_of_int y :: 64 word) = y"
  by (simp add: in_int64_def signed_of_int signed_take_bit_int_eq_self)

lemma sint_small:
  assumes "unat (w :: 64 word) < 2 ^ 63"
  shows "sint w = int (unat w)"
proof -
  have "uint w < 2 ^ 63" using assms of_nat_less_iff [of "unat w" "2 ^ 63", where 'a = int] by simp
  then have "in_int64 (uint w)" unfolding in_int64_def by simp (use uint_ge_0 [of w] in linarith)
  from sint_of_range [OF this] show ?thesis by simp
qed

lemma sint_neg_small:
  assumes "unat (w :: 64 word) \<le> 2 ^ 63"
  shows "sint (- w) = - int (unat w)"
proof -
  have "uint w \<le> 2 ^ 63" using assms of_nat_le_iff [of "unat w" "2 ^ 63", where 'a = int] by simp
  then have "in_int64 (- uint w)"
    unfolding in_int64_def by simp (use uint_ge_0 [of w] in linarith)
  from sint_of_range [OF this] show ?thesis by simp
qed

lemma dec_nat_hd: "hd (dec_nat n) \<noteq> 45 \<and> (0 < n \<longrightarrow> dec_nat n \<noteq> [48])"
proof (cases "n = 0")
  case False
  then obtain d p where p: "dec_nat n = (48 + of_nat d) # p" "1 \<le> d" "d < 10"
    using dec_nat_leading by blast
  have "unat (48 + of_nat d :: byte) = 48 + d" using p by (simp add: unat_word_ariths unat_of_nat)
  with p show ?thesis by (auto simp: word_unat_eq_iff)
qed (simp add: dec_nat_small)

lemma ex_word_nat: "k \<le> 2 ^ 63 \<Longrightarrow> (\<exists>w :: 64 word. unat w \<le> k \<and> P (unat w)) \<longleftrightarrow> (\<exists>n \<le> k. P n)"
proof
  assume k: "k \<le> 2 ^ 63" and "\<exists>n \<le> k. P n"
  then obtain n where n: "n \<le> k" "P n" by blast
  with k have "n < 2 ^ 64" by simp
  then have "unat (of_nat n :: 64 word) = n" by (subst unat_of_nat) simp
  with n show "\<exists>w :: 64 word. unat w \<le> k \<and> P (unat w)" by (intro exI [of _ "of_nat n"]) simp
qed blast

lemma string2ll_negative:
  "string2ll (45 # p) = Some v \<longleftrightarrow> (\<exists>n \<le> 2 ^ 63. 0 < n \<and> p = dec_nat n \<and> v = - int n)"
proof -
  have "string2ll (45 # p) = Some v \<longleftrightarrow> (\<exists>w. (p \<noteq> [] \<and> 49 \<le> hd p \<and> hd p \<le> 57
      \<and> string2ll_digits (ucast (hd p - 48)) (tl p) = Some (w, [])) \<and> w \<le> 2 ^ 63 \<and> v = sint (- w))"
    by (auto simp: string2ll_def not_less split: option.splits prod.splits if_splits)
  also have "\<dots> \<longleftrightarrow> (\<exists>w :: 64 word. unat w \<le> 2 ^ 63 \<and> 0 < unat w \<and> p = dec_nat (unat w) \<and> v = - int (unat w))"
    unfolding magnitude_iff by (auto simp: word_le_nat_alt sint_neg_small)
  also have "\<dots> \<longleftrightarrow> (\<exists>n \<le> 2 ^ 63. 0 < n \<and> p = dec_nat n \<and> v = - int n)"
    by (rule ex_word_nat [where P = "\<lambda>n. 0 < n \<and> p = dec_nat n \<and> v = - int n"]) simp
  finally show ?thesis .
qed

lemma string2ll_positive:
  assumes "s \<noteq> [48]" and "s = [] \<or> hd s \<noteq> 45"
  shows "string2ll s = Some v \<longleftrightarrow> (\<exists>n \<le> 2 ^ 63 - 1. 0 < n \<and> s = dec_nat n \<and> v = int n)"
proof -
  have "string2ll s = Some v \<longleftrightarrow> (\<exists>w. (s \<noteq> [] \<and> 49 \<le> hd s \<and> hd s \<le> 57
      \<and> string2ll_digits (ucast (hd s - 48)) (tl s) = Some (w, [])) \<and> w \<le> 2 ^ 63 - 1 \<and> v = sint w)"
    using assms
    by (auto simp: string2ll_def not_less length_Suc_conv split: option.splits prod.splits if_splits)
  also have "\<dots> \<longleftrightarrow> (\<exists>w :: 64 word. unat w \<le> 2 ^ 63 - 1 \<and> 0 < unat w \<and> s = dec_nat (unat w) \<and> v = int (unat w))"
    unfolding magnitude_iff by (auto simp: word_le_nat_alt sint_small)
  also have "\<dots> \<longleftrightarrow> (\<exists>n \<le> 2 ^ 63 - 1. 0 < n \<and> s = dec_nat n \<and> v = int n)"
    by (rule ex_word_nat [where P = "\<lambda>n. 0 < n \<and> s = dec_nat n \<and> v = int n"]) simp
  finally show ?thesis .
qed

lemma dec_nat_zero_iff: "dec_nat n = [48] \<longleftrightarrow> n = 0"
  using dec_nat_hd [of n] by (auto simp: dec_nat_small)

lemma dec_nat_no_sign [simp]: "dec_nat n \<noteq> 45 # p" "45 # p \<noteq> dec_nat n"
  using dec_nat_hd [of n] by (metis list.sel(1))+

lemma dec_int_cases:
  "45 # p = dec_int v \<longleftrightarrow> v < 0 \<and> p = dec_nat (nat (- v))"
  "s = [] \<or> hd s \<noteq> 45 \<Longrightarrow> s = dec_int v \<longleftrightarrow> 0 \<le> v \<and> s = dec_nat (nat v)"
  by (auto simp: dec_int_def)

lemma string2ll_iff: "string2ll s = Some v \<longleftrightarrow> in_int64 v \<and> s = dec_int v"
proof (cases "s = [48]")
  case True
  have "string2ll [48] = Some v \<longleftrightarrow> v = 0" by (auto simp: string2ll_def)
  with True show ?thesis
    using dec_int_cases(2) [of s v] dec_nat_zero_iff [of "nat v"] by (auto simp: in_int64_def)
next
  case F: False
  show ?thesis
  proof (cases "s = [] \<or> hd s \<noteq> 45")
    case True
    have "(\<exists>n \<le> 2 ^ 63 - 1. 0 < n \<and> s = dec_nat n \<and> v = int n) \<longleftrightarrow>
       0 < v \<and> nat v \<le> 2 ^ 63 - 1 \<and> s = dec_nat (nat v)"
      by (metis nat_int of_nat_0_less_iff zero_less_imp_eq_int)
    moreover have "s = dec_nat (nat v) \<Longrightarrow> nat v \<noteq> 0" using F dec_nat_zero_iff by metis
    ultimately show ?thesis
      unfolding string2ll_positive [OF F True] dec_int_cases(2) [OF True]
      by (auto simp: in_int64_def)
  next
    case False
    then obtain p where p: "s = 45 # p" by (cases s) auto
    have "(\<exists>n \<le> 2 ^ 63. 0 < n \<and> p = dec_nat n \<and> v = - int n) \<longleftrightarrow>
       v < 0 \<and> nat (- v) \<le> 2 ^ 63 \<and> p = dec_nat (nat (- v))"
      by (metis nat_int of_nat_0_less_iff zero_less_imp_eq_int minus_minus neg_0_less_iff_less)
    then show ?thesis 
      unfolding p string2ll_negative dec_int_cases(1) by (auto simp: in_int64_def)
  qed
qed

lemma list_all_digits_dec_nat: "list_all is_digit (dec_nat n)"
proof (induction n rule: dec_nat.induct)
  case (1 n)
  then show ?case
    using is_digit_digit [of n] is_digit_digit [of "n mod 10"]
    by (cases "n < 10") (auto simp: dec_nat_small dec_nat_step)
qed

lemma dec_val_append: "dec_val n (p @ q) = dec_val (dec_val n p) q"
  by (simp add: dec_val_def)

lemma dec_val_dec_nat: "dec_val 0 (dec_nat n) = n"
proof (induction n rule: dec_nat.induct)
  case (1 n)
  then show ?case
    by (cases "n < 10") (auto simp: dec_nat_small dec_nat_step dec_val_append digit_val_digit)
qed

lemma strtoull10_dec_nat:
  assumes "n < 2 ^ 64"
  shows "strtoull10 (dec_nat n) = (n, [], False)"
proof -
  have d: "list_all is_digit (dec_nat n)" by (rule list_all_digits_dec_nat)
  then obtain c p where p: "dec_nat n = c # p" and c: "is_digit c" by (cases "dec_nat n") auto
  from c have "48 \<le> unat c" by (simp add: word_le_nat_alt)
  then have "\<not> is_space c" "c \<noteq> 45" "c \<noteq> 43"
    by (auto simp: is_space_def word_le_nat_alt)
  moreover have "takeWhile is_digit (dec_nat n) = dec_nat n" "dropWhile is_digit (dec_nat n) = []"
    using d by (simp_all add: list_all_iff)
  ultimately show ?thesis
    using assms dec_val_dec_nat [of n] p by (simp add: strtoull10_def Let_def)
qed

section \<open>Properties\<close>

text \<open>
  C21: \<open>string2ll\<close> parses a byte string into a \<open>long long\<close> exactly when the string is the
  canonical decimal form of a value of that type, and then returns that value: no spaces, no
  plus sign, no leading zeroes, no \<open>-0\<close>, no overflow in either direction, and nothing in
  range is refused.
\<close>

theorem string2ll_canonical: "string2ll s = Some v \<longleftrightarrow> in_int64 v \<and> s = dec_int v"
  by (rule string2ll_iff)

text \<open>
  C22: for every \<open>long long\<close>, \<open>LLONG_MIN\<close> included, \<open>ll2string\<close> never writes outside a
  buffer of at least \<open>dstlen\<close> bytes. If the decimal form and its terminating zero byte do not
  fit it returns 0 and leaves the buffer as it was; otherwise it returns the length of the
  decimal form and stores it, with the zero byte, at the front of the buffer.
\<close>

theorem ll2string_correct:
  assumes "in_int64 v" and "dstlen \<le> length dst"
  shows "ll2string dst dstlen v =
    (if dstlen \<le> length (dec_int v) then Some (0, dst)
     else Some (length (dec_int v), dec_int v @ 0 # drop (Suc (length (dec_int v))) dst))"
  using assms by (rule ll2string_dec)

lemma dec_int_m120: "dec_int (- 120) = str ''-120''"
  by (simp add: dec_int_def dec_nat.simps)

theorem ll2string_correct_witness:
  "in_int64 (- 120) \<and> ll2string [1, 2, 3, 4, 5, 6] 6 (- 120) = Some (4, str ''-120'' @ [0, 6])"
proof -
  have h: "in_int64 (- 120)" "6 \<le> length [1, 2, 3, 4, 5, 6 :: byte]" by (simp_all add: in_int64_def)
  show ?thesis using ll2string_correct [OF h] h by (simp add: dec_int_m120)
qed

text \<open>
  C31: the branching digit counters agree with the length of the decimal form they are used to
  reserve room for, for every unsigned and every signed 64-bit value.
\<close>

theorem digits10_length:
  "digits10 n = length (dec_nat n) \<and> (in_int64 v \<longrightarrow> sdigits10 v = length (dec_int v))"
  by (simp add: digits10_dec sdigits10_dec)

theorem digits10_length_witness:
  "in_int64 (- 120) \<and> digits10 7 = length (dec_nat 7) \<and> sdigits10 (- 120) = 4"
  using digits10_length [of 7 "- 120"] by (simp add: in_int64_def dec_int_m120)

text \<open>
  C32: \<open>string2ull\<close> reads back the decimal form of every \<open>unsigned long long\<close>, also of the
  values beyond \<open>LLONG_MAX\<close>, where \<open>string2ll\<close> refuses and \<open>strtoull\<close> decides. The
  fallback is also where its documented rule, that negative values are out of range, fails:
  \<open>-01\<close> is not in \<open>string2ll\<close>'s form, and \<open>strtoull\<close> negates it modulo \<open>2^64\<close>.
\<close>

theorem string2ull_dec_nat:
  "(n < 2 ^ 64 \<longrightarrow> string2ull (dec_nat n) = Some n)
   \<and> string2ull (str ''-1'') = None \<and> string2ull (str ''-01'') = Some (2 ^ 64 - 1)"
proof (intro conjI impI)
  assume n: "n < 2 ^ 64"
  show "string2ull (dec_nat n) = Some n"
  proof (cases "string2ll (dec_nat n)")
    case None
    with n show ?thesis by (simp add: string2ull_def strtoull10_dec_nat)
  next
    case (Some v)
    then have "in_int64 v" "dec_nat n = dec_int v" by (simp_all add: string2ll_iff)
    then have "0 \<le> v" "dec_nat n = dec_nat (nat v)" by (auto simp: dec_int_def split: if_splits)
    then have "n = nat v" by (metis dec_val_dec_nat)
    with Some \<open>0 \<le> v\<close> show ?thesis by (simp add: string2ull_def)
  qed
qed (simp_all add: string2ull_def string2ll_def strtoull10_def is_space_def dec_val_def digit_val_def)

theorem string2ull_dec_nat_witness:
  "(7 :: nat) < 2 ^ 64 \<and> string2ull (dec_nat 7) = Some 7"
  using string2ull_dec_nat [of 7] by simp

end
