(* ===== verification/Glob.thy ===== *)
theory Glob
  imports Redis_Prelude
begin

text \<open>
  The glob matcher of \<open>util.c\<close> (\<open>stringmatchlen\<close>, \<open>stringmatch\<close>), which decides key
  patterns, pattern subscriptions and ACL key and channel permissions.

  A pointer into the pattern with its remaining length is the remaining list. The pattern is
  an SDS string or a C string, so a read at the end of it yields the terminating zero byte;
  every such read of the source compares with a non-zero character, hence behaves as "no".
\<close>

section \<open>The matcher\<close>

definition tolower :: "byte \<Rightarrow> byte" where
  "tolower c = (if ch CHR ''A'' \<le> c \<and> c \<le> ch CHR ''Z'' then c + 32 else c)"

definition char_eq :: "bool \<Rightarrow> byte \<Rightarrow> byte \<Rightarrow> bool" where
  "char_eq nocase a b = (if \<not> nocase then a = b else tolower a = tolower b)"

text \<open>
  A range \<open>a-b\<close> of a character class. The bounds are \<open>char\<close>s converted to \<open>int\<close> (signed on
  the supported compilers), swapped when out of order and only then folded to lower case.
\<close>

definition in_range :: "bool \<Rightarrow> byte \<Rightarrow> byte \<Rightarrow> byte \<Rightarrow> bool" where
  "in_range nocase p0 p2 c =
     (let (s, e) = (if sint p0 > sint p2 then (p2, p0) else (p0, p2));
          (s, e, c) = (if nocase then (tolower s, tolower e, tolower c) else (s, e, c))
      in sint c \<ge> sint s \<and> sint c \<le> sint e)"

text \<open>
  The loop over a character class. It returns whether the class matched and what remains of
  the pattern after the closing bracket (or nothing, when the class is not closed): the step
  over the last character of the class, which the source takes at the end of the outer loop,
  is included.
\<close>

fun class_loop :: "mem \<Rightarrow> byte \<Rightarrow> bool \<Rightarrow> bool \<Rightarrow> bool \<times> mem" where
  "class_loop [] c nocase m = (m, [])"
| "class_loop (p0 # p) c nocase m =
     (if p0 = ch (CHR 0x5C) \<and> length (p0 # p) \<ge> 2 then class_loop (tl p) c nocase (m \<or> hd p = c)
      else if p0 = ch CHR '']'' then (m, p)
      else if length (p0 # p) \<ge> 3 \<and> hd p = ch CHR ''-'' then
        class_loop (tl (tl p)) c nocase (m \<or> in_range nocase p0 (hd (tl p)) c)
      else class_loop p c nocase (m \<or> char_eq nocase p0 c))"

lemma class_loop_length: "length (snd (class_loop p c nocase m)) \<le> length p"
  by (induction p c nocase m rule: class_loop.induct) (auto split: prod.splits)

text \<open>
  One pattern element other than a star against the first character of the string: \<open>None\<close>
  is the source's \<open>return 0\<close>, \<open>Some\<close> what remains of the pattern after the element.
\<close>

definition glob_step :: "byte \<Rightarrow> mem \<Rightarrow> byte \<Rightarrow> bool \<Rightarrow> mem option" where
  "glob_step p0 p c nocase =
     (if p0 = ch CHR ''?'' then Some p
      else if p0 = ch CHR ''['' then
        (let neg = (p \<noteq> [] \<and> hd p = ch CHR ''^'');
             p = (if neg then tl p else p);
             (m, p) = class_loop p c nocase False;
             m = (if neg then \<not> m else m)
         in if \<not> m then None else Some p)
      else
        (let (p0, p) = (if p0 = ch (CHR 0x5C) \<and> length (p0 # p) \<ge> 2 then (hd p, tl p) else (p0, p))
         in if \<not> char_eq nocase p0 c then None else Some p))"

lemma glob_step_length: "glob_step p0 p c nocase = Some p' \<Longrightarrow> length p' \<le> length p"
  using class_loop_length [of "tl p" c nocase False] class_loop_length [of p c nocase False]
  by (auto simp: glob_step_def Let_def split: if_splits prod.splits)

abbreviation skip_stars :: "mem \<Rightarrow> mem" where
  "skip_stars \<equiv> dropWhile (\<lambda>x. x = ch CHR ''*'')"

function (sequential) stringmatchlen :: "mem \<Rightarrow> mem \<Rightarrow> bool \<Rightarrow> bool"
  and star_loop :: "mem \<Rightarrow> mem \<Rightarrow> bool \<Rightarrow> bool" where
  "stringmatchlen [] s nocase = (s = [])"
| "stringmatchlen (p0 # p) [] nocase = False"
| "stringmatchlen (p0 # p) (c # s) nocase =
     (if p0 = ch CHR ''*'' then
        (if skip_stars p = [] then True else star_loop (skip_stars p) (c # s) nocase)
      else case glob_step p0 p c nocase of
          None \<Rightarrow> False
        | Some p' \<Rightarrow> if s = [] then skip_stars p' = [] else stringmatchlen p' s nocase)"
| "star_loop p [] nocase = False"
| "star_loop p (c # s) nocase =
     (if stringmatchlen p (c # s) nocase then True else star_loop p s nocase)"
  by pat_completeness auto
termination
  by (relation "measures [\<lambda>x. case x of Inl (p, s, n) \<Rightarrow> length p | Inr (p, s, n) \<Rightarrow> length p,
       \<lambda>x. case x of Inl (p, s, n) \<Rightarrow> length s | Inr (p, s, n) \<Rightarrow> length s,
       \<lambda>x. case x of Inl _ \<Rightarrow> 0 | Inr _ \<Rightarrow> 1]")
     (auto simp: length_dropWhile_le le_imp_less_Suc dest: glob_step_length)

definition stringmatch :: "mem \<Rightarrow> mem \<Rightarrow> bool \<Rightarrow> bool" where
  "stringmatch pattern string nocase = stringmatchlen pattern string nocase"

section \<open>What a pattern means\<close>

text \<open>The pattern as a list of elements, and what a list of elements matches.\<close>

datatype class_item = Exact byte | Chr byte | Rng byte byte

datatype glob_tok = Star | AnyChar | Class bool "class_item list" | Lit byte

fun parse_class :: "mem \<Rightarrow> class_item list \<times> mem" where
  "parse_class [] = ([], [])"
| "parse_class (p0 # p) =
     (if p0 = 92 \<and> length (p0 # p) \<ge> 2 then let (is, r) = parse_class (tl p) in (Exact (hd p) # is, r)
      else if p0 = 93 then ([], p)
      else if length (p0 # p) \<ge> 3 \<and> hd p = 45 then
        let (is, r) = parse_class (tl (tl p)) in (Rng p0 (hd (tl p)) # is, r)
      else let (is, r) = parse_class p in (Chr p0 # is, r))"

lemma parse_class_length: "length (snd (parse_class p)) \<le> length p"
  by (induction p rule: parse_class.induct) (auto split: prod.splits)

definition parse_tok :: "byte \<Rightarrow> mem \<Rightarrow> glob_tok \<times> mem" where
  "parse_tok p0 p =
     (if p0 = 42 then (Star, p)
      else if p0 = 63 then (AnyChar, p)
      else if p0 = 91 then
        (let neg = (p \<noteq> [] \<and> hd p = 94); (is, r) = parse_class (if neg then tl p else p)
         in (Class neg is, r))
      else if p0 = 92 \<and> length (p0 # p) \<ge> 2 then (Lit (hd p), tl p)
      else (Lit p0, p))"

lemma parse_tok_length: "length (snd (parse_tok p0 p)) \<le> length p"
  using parse_class_length [of "tl p"] parse_class_length [of p]
  by (auto simp: parse_tok_def Let_def split: prod.splits)

function parse_glob :: "mem \<Rightarrow> glob_tok list" where
  "parse_glob [] = []"
| "parse_glob (p0 # p) = (let (t, r) = parse_tok p0 p in t # parse_glob r)"
  by pat_completeness auto
termination
proof (relation "measure length")
  fix p0 :: byte and p x t r
  assume "x = parse_tok p0 p" "(t, r) = x"
  with parse_tok_length [of p0 p] show "(r, p0 # p) \<in> measure length"
    by (metis in_measure le_imp_less_Suc length_Cons snd_conv)
qed simp

primrec item_ok :: "bool \<Rightarrow> byte \<Rightarrow> class_item \<Rightarrow> bool" where
  "item_ok nocase c (Exact x) = (x = c)"
| "item_ok nocase c (Chr x) = char_eq nocase x c"
| "item_ok nocase c (Rng a b) = in_range nocase a b c"

primrec tok_ok :: "bool \<Rightarrow> byte \<Rightarrow> glob_tok \<Rightarrow> bool" where
  "tok_ok nocase c Star = False"
| "tok_ok nocase c AnyChar = True"
| "tok_ok nocase c (Class neg is) = (list_ex (item_ok nocase c) is \<noteq> neg)"
| "tok_ok nocase c (Lit x) = char_eq nocase x c"

fun glob_match :: "bool \<Rightarrow> glob_tok list \<Rightarrow> mem \<Rightarrow> bool" where
  "glob_match nocase [] s = (s = [])"
| "glob_match nocase (Star # ts) s =
     (glob_match nocase ts s \<or> (case s of [] \<Rightarrow> False | _ # s' \<Rightarrow> glob_match nocase (Star # ts) s'))"
| "glob_match nocase (t # ts) s =
     (case s of [] \<Rightarrow> False | c # s' \<Rightarrow> tok_ok nocase c t \<and> glob_match nocase ts s')"

declare glob_match.simps(2) [simp del]

section \<open>The matcher decides the meaning of the pattern\<close>

lemma class_loop_parse:
  "class_loop p c nocase m = (m \<or> list_ex (item_ok nocase c) (fst (parse_class p)), snd (parse_class p))"
  by (induction p c nocase m rule: class_loop.induct) (auto split: prod.splits)

lemma glob_step_parse:
  assumes "p0 \<noteq> 42"
  shows "glob_step p0 p c nocase =
    (case parse_tok p0 p of (t, r) \<Rightarrow> if tok_ok nocase c t then Some r else None)"
  using assms
  by (auto simp: glob_step_def parse_tok_def class_loop_parse Let_def split: prod.splits)

lemma glob_star:
  "glob_match nocase (Star # ts) [] = glob_match nocase ts []"
  "glob_match nocase (Star # ts) (c # s) =
     (glob_match nocase ts (c # s) \<or> glob_match nocase (Star # ts) s)"
  by (simp_all add: glob_match.simps(2))

lemma glob_star_idem: "glob_match nocase (Star # Star # ts) s = glob_match nocase (Star # ts) s"
  by (induction s) (auto simp: glob_star)

lemma glob_star_all: "glob_match nocase [Star] s"
  by (induction s) (auto simp: glob_star)

lemma parse_tok_star [simp]: "parse_tok 42 p = (Star, p)"
  by (simp add: parse_tok_def)

lemma glob_skip_stars:
  "glob_match nocase (Star # parse_glob (skip_stars p)) s = glob_match nocase (Star # parse_glob p) s"
  by (induction p) (auto simp: glob_star_idem)

lemma parse_tok_not_star: "p0 \<noteq> 42 \<Longrightarrow> fst (parse_tok p0 p) \<noteq> Star"
  by (auto simp: parse_tok_def Let_def split: prod.splits)

lemma glob_cons: "t \<noteq> Star \<Longrightarrow> glob_match nocase (t # ts) s =
     (case s of [] \<Rightarrow> False | c # s' \<Rightarrow> tok_ok nocase c t \<and> glob_match nocase ts s')"
  by (cases t) auto

lemma glob_empty: "glob_match nocase (parse_glob p) [] \<longleftrightarrow> skip_stars p = []"
proof (induction p)
  case (Cons p0 p)
  show ?case
  proof (cases "p0 = 42")
    case True
    with Cons show ?thesis by (simp add: glob_star)
  next
    case False
    with parse_tok_not_star [of p0 p] show ?thesis by (auto simp: glob_cons split: prod.splits)
  qed
qed simp

lemma star_loop_glob_aux:
  "s \<noteq> [] \<Longrightarrow> stringmatchlen p s nocase = glob_match nocase (parse_glob p) s"
  "q \<noteq> [] \<Longrightarrow> hd q \<noteq> 42 \<Longrightarrow> star_loop q t nocase' = glob_match nocase' (Star # parse_glob q) t"
proof (induction p s nocase and q t nocase' rule: stringmatchlen_star_loop.induct)
  case (3 p0 p c s nocase)
  show ?case
  proof (cases "p0 = 42")
    case True
    have "skip_stars p = [] \<or> hd (skip_stars p) \<noteq> 42"
      using hd_dropWhile [of "\<lambda>x. x = ch CHR ''*''" p] by auto
    moreover have "glob_match nocase (Star # parse_glob (skip_stars p)) (c # s)" if "skip_stars p = []"
      using that by (simp only: parse_glob.simps(1) glob_star_all)
    ultimately show ?thesis
      using True 3(1) glob_skip_stars [of nocase p "c # s"] by (cases "skip_stars p = []") auto
  next
    case False
    obtain t r where t: "parse_tok p0 p = (t, r)" "t \<noteq> Star"
      using parse_tok_not_star [OF False, of p] by (cases "parse_tok p0 p") auto
    with False 3(2) show ?thesis
      by (cases "s = []") (auto simp: glob_step_parse glob_cons glob_empty)
  qed
next
  case (4 p nocase)
  then show ?case
    using glob_empty [of nocase p] by (cases p) (auto simp: glob_star simp del: parse_glob.simps)
qed (auto simp: glob_star)

text \<open>
  C5: the recursive matcher decides the meaning of the pattern. Reading the pattern as a list
  of elements (stars, single wildcards, character classes with escapes, ranges and negation,
  escaped and plain characters), \<open>stringmatchlen\<close> returns 1 on a non-empty string exactly
  when the elements match it, for every pattern, malformed ones included. On the empty string
  it accepts the empty pattern only: a lone star does not match it.
\<close>

theorem stringmatchlen_glob:
  "stringmatchlen p s nocase = (if s = [] then p = [] else glob_match nocase (parse_glob p) s)"
  using star_loop_glob_aux(1) [of s p nocase] by (cases p) auto

end
