(* ===== verification/Intset.thy ===== *)
theory Intset
  imports Redis_Prelude
begin

text \<open>
  The packed integer set of \<open>intset.c\<close>: a header (encoding, length) and one block of memory
  with the members in increasing order, each in \<open>encoding\<close> bytes, little endian. An \<open>int\<close>
  index of the source is an \<open>int\<close> here (a negative one is out of bounds), \<open>uint32_t\<close> sizes wrap
  through \<open>u32\<close>, and a block access outside the allocation is \<open>None\<close>.

  \<open>repr is vs\<close> ties the bytes to the list of values; \<open>intset_ok\<close> is the invariant (the block is
  the encoding of a strictly increasing list). The lemmas take each routine from bytes to lists,
  and the locale \<open>bounded_int_set\<close> from there to a mathematical set.
\<close>

section \<open>The set\<close>

record intset =
  encoding :: nat
  ilen :: nat
  contents :: mem

definition INTSET_ENC_INT16 :: nat where [simp]: "INTSET_ENC_INT16 = 2"
definition INTSET_ENC_INT32 :: nat where [simp]: "INTSET_ENC_INT32 = 4"
definition INTSET_ENC_INT64 :: nat where [simp]: "INTSET_ENC_INT64 = 8"

text \<open>\<open>_intsetValueEncoding\<close>, \<open>_intsetGetEncoded\<close>, \<open>_intsetGet\<close> and \<open>_intsetSet\<close>.\<close>

definition intsetValueEncoding :: "int \<Rightarrow> nat" where
  "intsetValueEncoding v =
     (if v < - (2 ^ 31) \<or> v > 2 ^ 31 - 1 then INTSET_ENC_INT64
      else if v < - (2 ^ 15) \<or> v > 2 ^ 15 - 1 then INTSET_ENC_INT32
      else INTSET_ENC_INT16)"

definition intsetGetEncoded :: "intset \<Rightarrow> int \<Rightarrow> nat \<Rightarrow> int option" where
  "intsetGetEncoded is pos enc =
     (if pos < 0 then None
      else if enc = INTSET_ENC_INT64 then map_option le_sint (mem_read (nat pos * 8) 8 (contents is))
      else if enc = INTSET_ENC_INT32 then map_option le_sint (mem_read (nat pos * 4) 4 (contents is))
      else map_option le_sint (mem_read (nat pos * 2) 2 (contents is)))"

definition intsetGetAt :: "intset \<Rightarrow> int \<Rightarrow> int option" where
  "intsetGetAt is pos = intsetGetEncoded is pos (encoding is)"

definition intsetSet :: "intset \<Rightarrow> int \<Rightarrow> int \<Rightarrow> intset option" where
  "intsetSet is pos v =
     (if pos < 0 then None
      else do {
        c \<leftarrow> (if encoding is = INTSET_ENC_INT64 then mem_write (nat pos * 8) (le_bytes 8 v) (contents is)
             else if encoding is = INTSET_ENC_INT32 then mem_write (nat pos * 4) (le_bytes 4 v) (contents is)
             else mem_write (nat pos * 2) (le_bytes 2 v) (contents is));
        Some (is\<lparr>contents := c\<rparr>) })"

definition intsetNew :: intset where
  "intsetNew = \<lparr>encoding = INTSET_ENC_INT16, ilen = 0, contents = []\<rparr>"

definition intsetResize :: "byte \<Rightarrow> intset \<Rightarrow> nat \<Rightarrow> intset" where
  "intsetResize junk is len =
     (let size = u32 (len * encoding is)
      in is\<lparr>contents := mem_resize junk size (contents is)\<rparr>)"

text \<open>
  The binary search of \<open>intsetSearch\<close>; \<open>lo\<close>, \<open>hi\<close>, \<open>mid\<close> and \<open>cur\<close> are the source's \<open>min\<close>, \<open>max\<close>,
  \<open>mid\<close> and \<open>cur\<close>. It may read out of bounds on an arbitrary block, and
  \<open>intsetSearch_loop_correct\<close> shows that it returns on a well-formed one.
\<close>

partial_function (option) intsetSearch_loop ::
  "intset \<Rightarrow> int \<Rightarrow> int \<Rightarrow> int \<Rightarrow> int \<Rightarrow> int \<Rightarrow> (int \<times> int \<times> int) option" where
  "intsetSearch_loop is v lo hi mid cur =
     (if hi \<ge> lo then do {
        let mid = int (((to_u32 lo + to_u32 hi) mod 2 ^ 32) div 2);
        cur \<leftarrow> intsetGetAt is mid;
        if v > cur then intsetSearch_loop is v (mid + 1) hi mid cur
        else if v < cur then intsetSearch_loop is v lo (mid - 1) mid cur
        else Some (lo, mid, cur)
      } else Some (lo, mid, cur))"

definition intsetSearch :: "intset \<Rightarrow> int \<Rightarrow> (bool \<times> nat) option" where
  "intsetSearch is v =
     (let hi = to_i32 (int (ilen is) - 1) in
      if ilen is = 0 then Some (False, 0)
      else do {
        last \<leftarrow> intsetGetAt is hi;
        if v > last then Some (False, ilen is)
        else do {
          first \<leftarrow> intsetGetAt is 0;
          if v < first then Some (False, 0)
          else do {
            (lo, mid, cur) \<leftarrow> intsetSearch_loop is v 0 hi (- 1) (- 1);
            if v = cur then Some (True, to_u32 mid) else Some (False, to_u32 lo)
          }
        }
      })"

primrec intsetUpgrade_loop :: "nat \<Rightarrow> nat \<Rightarrow> nat \<Rightarrow> intset \<Rightarrow> intset option" where
  "intsetUpgrade_loop curenc prepend 0 is = Some is"
| "intsetUpgrade_loop curenc prepend (Suc len) is = do {
     v \<leftarrow> intsetGetEncoded is (int len) curenc;
     is \<leftarrow> intsetSet is (int (len + prepend)) v;
     intsetUpgrade_loop curenc prepend len is
   }"

definition intsetUpgradeAndAdd :: "byte \<Rightarrow> intset \<Rightarrow> int \<Rightarrow> intset option" where
  "intsetUpgradeAndAdd junk is v =
     (let curenc = encoding is;
          newenc = intsetValueEncoding v;
          len = ilen is;
          prepend = (if v < 0 then 1 else 0);
          is = is\<lparr>encoding := newenc\<rparr>;
          is = intsetResize junk is (u32 (ilen is + 1))
      in do {
        is \<leftarrow> intsetUpgrade_loop curenc prepend len is;
        is \<leftarrow> (if prepend \<noteq> 0 then intsetSet is 0 v else intsetSet is (int (ilen is)) v);
        Some (is\<lparr>ilen := u32 (ilen is + 1)\<rparr>)
      })"

definition intsetMoveTail :: "intset \<Rightarrow> nat \<Rightarrow> nat \<Rightarrow> intset option" where
  "intsetMoveTail is from to =
     (let bytes = u32_sub (ilen is) from;
          size = (if encoding is = INTSET_ENC_INT64 then 8
                  else if encoding is = INTSET_ENC_INT32 then 4 else 2);
          bytes = u32 (bytes * size)
      in do {
        c \<leftarrow> mem_move (to * size) (from * size) bytes (contents is);
        Some (is\<lparr>contents := c\<rparr>)
      })"

definition intsetAdd :: "byte \<Rightarrow> intset \<Rightarrow> int \<Rightarrow> (intset \<times> bool) option" where
  "intsetAdd junk is v =
     (let valenc = intsetValueEncoding v in
      if valenc > encoding is then do {
        is \<leftarrow> intsetUpgradeAndAdd junk is v;
        Some (is, True)
      } else do {
        (found, pos) \<leftarrow> intsetSearch is v;
        if found then Some (is, False)
        else do {
          is \<leftarrow> Some (intsetResize junk is (u32 (ilen is + 1)));
          is \<leftarrow> (if pos < ilen is then intsetMoveTail is pos (u32 (pos + 1)) else Some is);
          is \<leftarrow> intsetSet is (int pos) v;
          Some (is\<lparr>ilen := u32 (ilen is + 1)\<rparr>, True)
        }
      })"

definition intsetRemove :: "byte \<Rightarrow> intset \<Rightarrow> int \<Rightarrow> (intset \<times> bool) option" where
  "intsetRemove junk is v =
     (let valenc = intsetValueEncoding v in
      if valenc \<le> encoding is then do {
        (found, pos) \<leftarrow> intsetSearch is v;
        if found then do {
          let len = ilen is;
          is \<leftarrow> (if pos < u32_sub len 1 then intsetMoveTail is (u32 (pos + 1)) pos else Some is);
          let is = intsetResize junk is (u32_sub len 1);
          Some (is\<lparr>ilen := u32_sub len 1\<rparr>, True)
        } else Some (is, False)
      } else Some (is, False))"

definition intsetFind :: "intset \<Rightarrow> int \<Rightarrow> bool option" where
  "intsetFind is v =
     (let valenc = intsetValueEncoding v in
      if valenc \<le> encoding is then map_option fst (intsetSearch is v) else Some False)"

definition intsetRandom :: "nat \<Rightarrow> intset \<Rightarrow> int option" where
  "intsetRandom rand is =
     (let len = ilen is in if len = 0 then None else intsetGetAt is (int (rand mod len)))"

definition intsetGet :: "intset \<Rightarrow> nat \<Rightarrow> int option option" where
  "intsetGet is pos =
     (if pos < ilen is then map_option Some (intsetGetAt is (int pos)) else Some None)"

definition intsetLen :: "intset \<Rightarrow> nat" where
  "intsetLen is = ilen is"

definition intsetBlobLen :: "intset \<Rightarrow> nat" where
  "intsetBlobLen is = 8 + u32 (ilen is * encoding is)"

text \<open>The header and contents at the start of a serialized set.\<close>

definition intset_of_blob :: "mem \<Rightarrow> intset" where
  "intset_of_blob p =
     \<lparr>encoding = nat (le_uint (take 4 p)), ilen = nat (le_uint (take 4 (drop 4 p))),
      contents = drop 8 p\<rparr>"

primrec intsetValidate_loop :: "intset \<Rightarrow> nat \<Rightarrow> nat \<Rightarrow> int \<Rightarrow> bool option" where
  "intsetValidate_loop is i 0 prev = Some True"
| "intsetValidate_loop is i (Suc n) prev = do {
     cur \<leftarrow> intsetGetAt is (int i);
     if cur \<le> prev then Some False else intsetValidate_loop is (Suc i) n cur
   }"

definition intsetValidateIntegrity :: "mem \<Rightarrow> nat \<Rightarrow> bool \<Rightarrow> bool option" where
  "intsetValidateIntegrity p sz deep =
     (if sz < 8 then Some False
      else let is = intset_of_blob p in
      if encoding is \<noteq> INTSET_ENC_INT64 \<and> encoding is \<noteq> INTSET_ENC_INT32
         \<and> encoding is \<noteq> INTSET_ENC_INT16 then Some False
      else let record_size = encoding is; count = ilen is in
      if 8 + count * record_size \<noteq> sz then Some False
      else if count = 0 then Some False
      else if \<not> deep then Some True
      else do {
        prev \<leftarrow> intsetGetAt is 0;
        intsetValidate_loop is 1 (count - 1) prev
      })"

section \<open>Representation\<close>

definition enc_ok :: "nat \<Rightarrow> bool" where
  "enc_ok w \<longleftrightarrow> w = 2 \<or> w = 4 \<or> w = 8"

definition fits :: "nat \<Rightarrow> int \<Rightarrow> bool" where
  "fits w v \<longleftrightarrow> - (256 ^ w) \<le> 2 * v \<and> 2 * v < 256 ^ w"

definition repr :: "intset \<Rightarrow> int list \<Rightarrow> bool" where
  "repr is vs \<longleftrightarrow> enc_ok (encoding is) \<and> ilen is = length vs
     \<and> contents is = chunks (le_bytes (encoding is)) vs
     \<and> (\<forall>v \<in> set vs. fits (encoding is) v) \<and> length vs * encoding is < 2 ^ 32"

lemma intsetGetEncoded_read:
  "enc_ok w \<Longrightarrow> intsetGetEncoded is (int i) w = map_option le_sint (mem_read (i * w) w (contents is))"
  by (auto simp: intsetGetEncoded_def enc_ok_def)

lemma intsetSet_write:
  "enc_ok (encoding is) \<Longrightarrow> intsetSet is (int i) v =
     map_option (\<lambda>c. is\<lparr>contents := c\<rparr>)
       (mem_write (i * encoding is) (le_bytes (encoding is) v) (contents is))"
  by (auto simp: intsetSet_def enc_ok_def map_conv_bind_option comp_def)

lemma read_chunk:
  assumes w: "enc_ok w" and p: "prefix_len \<le> length vs" and i: "i < prefix_len"
    and f: "fits w (vs ! i)" and m: "take (prefix_len * w) m = chunks (le_bytes w) (take prefix_len vs)"
  shows "map_option le_sint (mem_read (i * w) w m) = Some (vs ! i)"
proof -
  have l: "length (take (prefix_len * w) m) = prefix_len * w" using m p by simp
  have "Suc i * w \<le> prefix_len * w" using i by (intro mult_right_mono) auto
  moreover from l have "prefix_len * w \<le> length m" by simp
  ultimately have le: "i * w + w \<le> length m" "i * w + w \<le> prefix_len * w" by simp_all
  have "min w (prefix_len * w - i * w) = w" using le by simp
  then have "take w (drop (i * w) m) = take w (drop (i * w) (take (prefix_len * w) m))"
    by (simp only: drop_take take_take)
  also have "\<dots> = le_bytes w (vs ! i)"
    using p i by (simp add: m nth_chunk)
  finally show ?thesis
    using le f by (simp add: mem_read_def le_sint_le_bytes fits_def)
qed

lemma intsetGetAt_repr:
  assumes "repr is vs" and "i < length vs"
  shows "intsetGetAt is (int i) = Some (vs ! i)"
  using read_chunk [of "encoding is" "length vs" vs i "contents is"] assms
  by (simp add: intsetGetAt_def repr_def intsetGetEncoded_read)

lemma fits_value_encoding: "in_int64 v \<Longrightarrow> fits (intsetValueEncoding v) v"
  by (auto simp: intsetValueEncoding_def fits_def in_int64_def)

lemma fits_iff_encoding: "in_int64 v \<Longrightarrow> enc_ok w \<Longrightarrow> fits w v \<longleftrightarrow> intsetValueEncoding v \<le> w"
  by (auto simp: intsetValueEncoding_def fits_def in_int64_def enc_ok_def)

lemma enc_ok_value: "enc_ok (intsetValueEncoding v)"
  by (simp add: intsetValueEncoding_def enc_ok_def)

section \<open>Searching\<close>

text \<open>\<open>p\<close> is where \<open>v\<close> belongs in a sorted list that does not hold it.\<close>

definition insert_pos :: "int list \<Rightarrow> int \<Rightarrow> nat \<Rightarrow> bool" where
  "insert_pos vs v p \<longleftrightarrow> p \<le> length vs \<and> (\<forall>i < p. vs ! i < v) \<and> (\<forall>i < length vs. p \<le> i \<longrightarrow> v < vs ! i)"

lemma insert_pos_not_in: "insert_pos vs v p \<Longrightarrow> v \<notin> set vs"
  by (metis in_set_conv_nth insert_pos_def less_irrefl not_less)

lemma intsetSearch_loop_correct:
  assumes r: "repr is vs" and srt: "sorted_wrt (<) vs"
    and "0 \<le> lo" "lo \<le> hi + 1" "hi < int (length vs)"
    and "\<forall>i < nat lo. vs ! i < v" "\<forall>i < length vs. hi < int i \<longrightarrow> v < vs ! i"
    and "lo \<le> hi \<or> cur \<noteq> v"
  shows "\<exists>lo' mid' cur'. intsetSearch_loop is v lo hi mid cur = Some (lo', mid', cur') \<and>
    (if cur' = v then 0 \<le> mid' \<and> mid' < int (length vs) \<and> vs ! nat mid' = v
     else 0 \<le> lo' \<and> insert_pos vs v (nat lo'))"
  using assms(3-)
proof (induction "nat (hi - lo + 1)" arbitrary: lo hi mid cur rule: less_induct)
  case less
  show ?case
  proof (cases "lo \<le> hi")
    case False
    with less.prems have "hi = lo - 1" "cur \<noteq> v" by auto
    with False less.prems show ?thesis
      by (subst intsetSearch_loop.simps) (auto simp: insert_pos_def)
  next
    case True
    have len: "int (length vs) < 2 ^ 31"
      using r by (auto simp: repr_def enc_ok_def)
    define m where "m = nat ((lo + hi) div 2)"
    have "((to_u32 lo + to_u32 hi) mod 2 ^ 32) div 2 = m"
      using True less.prems len by (simp add: m_def nat_add_distrib [symmetric] nat_div_distrib)
    moreover have m: "lo \<le> int m" "int m \<le> hi" using True less.prems by (auto simp: m_def)
    moreover have mlen: "m < length vs" using m less.prems by linarith
    ultimately have step: "intsetSearch_loop is v lo hi mid cur =
      (if v > vs ! m then intsetSearch_loop is v (int m + 1) hi (int m) (vs ! m)
       else if v < vs ! m then intsetSearch_loop is v lo (int m - 1) (int m) (vs ! m)
       else Some (lo, int m, vs ! m))"
      using True by (subst intsetSearch_loop.simps) (simp add: intsetGetAt_repr [OF r] Let_def)
    have nth: "i < j \<Longrightarrow> j < length vs \<Longrightarrow> vs ! i < vs ! j" for i j
      using srt by (simp add: sorted_wrt_nth_less)
    consider "v > vs ! m" | "v < vs ! m" | "v = vs ! m" by linarith
    then show ?thesis
    proof cases
      case 1
      have "\<forall>i < nat (int m + 1). vs ! i < v"
      proof (intro allI impI)
        fix i assume "i < nat (int m + 1)"
        then have "i = m \<or> i < m" by auto
        then show "vs ! i < v" using 1 nth [OF _ mlen, of i] by auto
      qed
      then have "\<exists>lo' mid' cur'. intsetSearch_loop is v (int m + 1) hi (int m) (vs ! m) = Some (lo', mid', cur') \<and>
        (if cur' = v then 0 \<le> mid' \<and> mid' < int (length vs) \<and> vs ! nat mid' = v
         else 0 \<le> lo' \<and> insert_pos vs v (nat lo'))"
        using m less.prems less_imp_neq [OF 1] by (intro less.hyps) auto
      with 1 show ?thesis unfolding step by simp
    next
      case 2
      have "\<forall>i < length vs. int m - 1 < int i \<longrightarrow> v < vs ! i"
      proof (intro allI impI)
        fix i assume "i < length vs" "int m - 1 < int i"
        then have "i = m \<or> m < i" by auto
        then show "v < vs ! i" using 2 nth [of m i] \<open>i < length vs\<close> by auto
      qed
      then have "\<exists>lo' mid' cur'. intsetSearch_loop is v lo (int m - 1) (int m) (vs ! m) = Some (lo', mid', cur') \<and>
        (if cur' = v then 0 \<le> mid' \<and> mid' < int (length vs) \<and> vs ! nat mid' = v
         else 0 \<le> lo' \<and> insert_pos vs v (nat lo'))"
        using m less.prems less_imp_neq [OF 2] by (intro less.hyps) auto
      with 2 show ?thesis unfolding step by simp
    next
      case 3
      then show ?thesis unfolding step using mlen by auto
    qed
  qed
qed

lemma intsetSearch_correct:
  assumes r: "repr is vs" and srt: "sorted_wrt (<) vs"
  shows "\<exists>found pos. intsetSearch is v = Some (found, pos) \<and>
    (if found then pos < length vs \<and> vs ! pos = v else insert_pos vs v pos)"
proof (cases "vs = []")
  case True
  with r show ?thesis by (auto simp: intsetSearch_def repr_def insert_pos_def)
next
  case False
  define n where "n = length vs"
  have n: "ilen is = n" "0 < n" "int n < 2 ^ 31" using r False by (auto simp: repr_def enc_ok_def n_def)
  then have hi: "to_i32 (int (ilen is) - 1) = int n - 1" by (simp add: in_int32_def)
  have last: "intsetGetAt is (int n - 1) = Some (vs ! (n - 1))"
    using intsetGetAt_repr [OF r, of "n - 1"] n by (simp add: n_def)
  have first: "intsetGetAt is 0 = Some (vs ! 0)"
    using intsetGetAt_repr [OF r, of 0] n by (simp add: n_def)
  have nth: "i \<le> j \<Longrightarrow> j < length vs \<Longrightarrow> vs ! i \<le> vs ! j" for i j
    using sorted_wrt_nth_less [OF srt, of i j] by (cases "i = j") auto
  consider "v > vs ! (n - 1)" | "v < vs ! 0" | "\<not> v > vs ! (n - 1)" "\<not> v < vs ! 0" by blast
  then show ?thesis
  proof cases
    case 1
    have "vs ! i \<le> vs ! (n - 1)" if "i < n" for i using nth [of i "n - 1"] that n by (simp add: n_def)
    with 1 have "insert_pos vs v n" by (auto simp: insert_pos_def n_def intro: order.strict_trans1)
    with 1 n last hi show ?thesis by (auto simp: intsetSearch_def)
  next
    case 2
    then have "insert_pos vs v 0"
      using nth [of 0] by (auto simp: insert_pos_def intro: order.strict_trans2)
    moreover have "\<not> v > vs ! (n - 1)" using 2 nth [of 0 "n - 1"] n by (simp add: n_def)
    ultimately show ?thesis using 2 n last first hi by (auto simp: intsetSearch_def)
  next
    case 3
    obtain lo' mid' cur' where l: "intsetSearch_loop is v 0 (int n - 1) (- 1) (- 1) = Some (lo', mid', cur')"
      "if cur' = v then 0 \<le> mid' \<and> mid' < int n \<and> vs ! nat mid' = v
       else 0 \<le> lo' \<and> insert_pos vs v (nat lo')"
      using intsetSearch_loop_correct [OF r srt, of 0 "int n - 1" v "- 1" "- 1"] n by (auto simp: n_def)
    show ?thesis
    proof (cases "cur' = v")
      case True
      with l n have "to_u32 mid' = nat mid'" by simp
      with True l 3 n last first hi show ?thesis by (auto simp: intsetSearch_def n_def nat_less_iff)
    next
      case False
      with l have lo: "0 \<le> lo'" "insert_pos vs v (nat lo')" by simp_all
      then have "lo' \<le> int n" by (simp add: insert_pos_def n_def nat_le_iff)
      with lo n have "to_u32 lo' = nat lo'" by simp
      with False lo l 3 n last first hi show ?thesis by (auto simp: intsetSearch_def)
    qed
  qed
qed

section \<open>Adding and removing\<close>

lemma mem_write_chunk:
  assumes w: "\<And>x. length (f x) = w" and p: "p \<le> length vs"
    and c: "length c = Suc (length vs) * w"
      "take (p * w) c = chunks f (take p vs)" "drop (Suc p * w) c = chunks f (drop p vs)"
  shows "mem_write (p * w) (f v) c = Some (chunks f (take p vs @ v # drop p vs))"
proof -
  have "Suc p * w \<le> Suc (length vs) * w" using p by (intro mult_right_mono) auto
  then have "p * w + w \<le> length c" using c(1) by simp
  moreover have "drop (p * w + w) c = chunks f (drop p vs)" using c(3) by (simp add: add.commute)
  ultimately show ?thesis using c(2) by (simp add: mem_write_def w)
qed

lemma intsetMoveTail_eq:
  assumes "enc_ok (encoding is)" and "from \<le> ilen is" and "ilen is * encoding is < 2 ^ 32"
  shows "intsetMoveTail is from to =
    map_option (\<lambda>c. is\<lparr>contents := c\<rparr>)
      (mem_move (to * encoding is) (from * encoding is) ((ilen is - from) * encoding is) (contents is))"
proof -
  have "ilen is < 2 ^ 32" "(ilen is - from) * encoding is < 2 ^ 32"
    using assms mult_le_mono1 [of "ilen is - from" "ilen is" "encoding is"] by (auto simp: enc_ok_def)
  then show ?thesis
    using assms by (auto simp: intsetMoveTail_def enc_ok_def map_conv_bind_option comp_def Let_def)
qed

lemma sorted_insert_pos:
  assumes "sorted_wrt (<) vs" and "insert_pos vs v p"
  shows "sorted_wrt (<) (take p vs @ v # drop p vs)"
proof -
  have "\<forall>x \<in> set (take p vs). x < v" "\<forall>x \<in> set (drop p vs). v < x"
    using assms(2) by (auto simp: insert_pos_def in_set_conv_nth)
  moreover have "sorted_wrt (<) (take p vs @ drop p vs)" using assms(1) by simp
  ultimately show ?thesis
    unfolding sorted_wrt_append by (auto intro: less_trans)
qed

lemma set_insert_at: "set (take p vs @ v # drop p vs) = insert v (set vs)"
proof -
  have "set vs = set (take p vs) \<union> set (drop p vs)" by (metis append_take_drop_id set_append)
  then show ?thesis by auto
qed

lemma insert_repr:
  assumes r: "repr is vs" and f: "fits (encoding is) v" and p: "p \<le> length vs"
    and room: "Suc (length vs) * encoding is < 2 ^ 32"
  shows "\<exists>is'. do {
      is \<leftarrow> Some (intsetResize junk is (u32 (ilen is + 1)));
      is \<leftarrow> (if p < ilen is then intsetMoveTail is p (u32 (p + 1)) else Some is);
      is \<leftarrow> intsetSet is (int p) v;
      Some (is\<lparr>ilen := u32 (ilen is + 1)\<rparr>, True) } = Some (is', True)
    \<and> repr is' (take p vs @ v # drop p vs)"
proof -
  let ?w = "encoding is" and ?f = "le_bytes (encoding is)" and ?n = "length vs"
  let ?c1 = "chunks ?f vs @ replicate ?w junk"
  have w: "\<And>x. length (?f x) = ?w" and enc: "enc_ok ?w" using r by (simp_all add: repr_def)
  have n32: "Suc ?n < 2 ^ 32" using room enc by (auto simp: enc_ok_def)
  have eqs: "ilen is = ?n" "contents is = chunks ?f vs" using r by (simp_all add: repr_def)
  have res: "intsetResize junk is (u32 (ilen is + 1)) = is\<lparr>contents := ?c1\<rparr>"
    using n32 room by (simp add: intsetResize_def eqs mem_resize_def w)
  define us where "us = take (Suc p) vs @ drop p vs"
  define c2 where "c2 = (if p < ?n then chunks ?f us else ?c1)"
  have mv: "(if p < ilen (is\<lparr>contents := ?c1\<rparr>) then intsetMoveTail (is\<lparr>contents := ?c1\<rparr>) p (u32 (p + 1))
      else Some (is\<lparr>contents := ?c1\<rparr>)) = Some (is\<lparr>contents := c2\<rparr>)"
  proof (cases "p < ?n")
    case True
    have n: "p * ?w + (?n - p) * ?w = ?n * ?w" "Suc p * ?w + (?n - p) * ?w = Suc ?n * ?w"
      using True by (simp_all add: add_mult_distrib [symmetric])
    have "Suc p * ?w \<le> ?n * ?w" using True by (intro mult_right_mono) auto
    then have "take (Suc p * ?w) ?c1 = chunks ?f (take (Suc p) vs)"
      using True take_chunks [OF w, of "Suc p" vs] by (simp add: w)
    moreover have "take ((?n - p) * ?w) (drop (p * ?w) ?c1) = chunks ?f (drop p vs)"
      using True drop_chunks [OF w p] n by (simp add: w)
    ultimately have "mem_move (Suc p * ?w) (p * ?w) ((?n - p) * ?w) ?c1 = Some c2"
      using n by (subst mem_move_Some) (simp_all add: w c2_def us_def True)
    with True n32 room enc show ?thesis by (simp add: intsetMoveTail_eq eqs)
  next
    case False
    then show ?thesis by (simp add: eqs c2_def)
  qed
  have "mem_write (p * ?w) (?f v) c2 = Some (chunks ?f (take p vs @ v # drop p vs))"
  proof (cases "p < ?n")
    case True
    then have us: "length us = Suc ?n" "take p us = take p vs" "drop (Suc p) us = drop p vs"
      by (simp_all add: us_def)
    then show ?thesis
      using True take_chunks [OF w, of p us] drop_chunks [OF w, of "Suc p" us]
      by (intro mem_write_chunk [OF w p]) (simp_all add: c2_def w)
  next
    case False
    with p have "p = ?n" by simp
    then show ?thesis by (intro mem_write_chunk [OF w p]) (simp_all add: c2_def w)
  qed
  then have st: "intsetSet (is\<lparr>contents := c2\<rparr>) (int p) v =
      Some (is\<lparr>contents := chunks ?f (take p vs @ v # drop p vs)\<rparr>)"
    using enc by (simp add: intsetSet_write)
  have "repr (is\<lparr>contents := chunks ?f (take p vs @ v # drop p vs), ilen := Suc ?n\<rparr>) (take p vs @ v # drop p vs)"
    using room enc r f p by (auto simp: repr_def dest: in_set_takeD in_set_dropD)
  then show ?thesis
    unfolding res Option.bind.bind_lunit mv st using n32 by (simp add: eqs)
qed

lemma remove_repr:
  assumes r: "repr is vs" and p: "p < length vs"
  shows "\<exists>is'. do {
      let len = ilen is;
      is \<leftarrow> (if p < u32_sub len 1 then intsetMoveTail is (u32 (p + 1)) p else Some is);
      let is = intsetResize junk is (u32_sub len 1);
      Some (is\<lparr>ilen := u32_sub len 1\<rparr>, True) } = Some (is', True)
    \<and> repr is' (take p vs @ drop (Suc p) vs)"
proof -
  let ?w = "encoding is" and ?f = "le_bytes (encoding is)" and ?n = "length vs"
  have w: "\<And>x. length (?f x) = ?w" and enc: "enc_ok ?w" using r by (simp_all add: repr_def)
  have eqs: "ilen is = ?n" "contents is = chunks ?f vs" "?n * ?w < 2 ^ 32" using r by (simp_all add: repr_def)
  have n32: "?n < 2 ^ 32" using eqs(3) enc by (auto simp: enc_ok_def)
  have sub: "u32_sub ?n 1 = ?n - 1" using p n32 by (intro u32_sub_id) auto
  have le: "(?n - 1) * ?w \<le> ?n * ?w" by (intro mult_right_mono) auto
  have mv: "\<exists>t. (if p < ?n - 1 then intsetMoveTail is (u32 (p + 1)) p else Some is)
      = Some (is\<lparr>contents := chunks ?f (take p vs @ drop (Suc p) vs) @ t\<rparr>)"
  proof (cases "p < ?n - 1")
    case True
    have "Suc p + (?n - Suc p) = ?n" "p + (?n - Suc p) = ?n - 1" using p by simp_all
    then have n: "Suc p * ?w + (?n - Suc p) * ?w = ?n * ?w" "p * ?w + (?n - Suc p) * ?w = (?n - 1) * ?w"
      by (simp_all only: add_mult_distrib [symmetric])
    have "take ((?n - Suc p) * ?w) (drop (Suc p * ?w) (chunks ?f vs)) = chunks ?f (drop (Suc p) vs)"
      using drop_chunks [OF w, of "Suc p" vs] p by (simp add: w)
    moreover have "take (p * ?w) (chunks ?f vs) = chunks ?f (take p vs)"
      using take_chunks [OF w, of p vs] p by simp
    ultimately have "mem_move (p * ?w) (Suc p * ?w) ((?n - Suc p) * ?w) (chunks ?f vs)
        = Some (chunks ?f (take p vs @ drop (Suc p) vs) @ drop ((?n - 1) * ?w) (chunks ?f vs))"
      using n le by (subst mem_move_Some) (simp_all add: w)
    with True n32 enc p eqs(3) show ?thesis by (auto simp: intsetMoveTail_eq eqs(1,2))
  next
    case False
    with p have "vs = take p vs @ [vs ! p]" "drop (Suc p) vs = []"
      by (simp_all add: take_Suc_conv_app_nth [symmetric])
    then have "chunks ?f vs = chunks ?f (take p vs @ drop (Suc p) vs) @ ?f (vs ! p)"
      by (metis append_Nil2 chunks_simps)
    with eqs(2) have "is = is\<lparr>contents := chunks ?f (take p vs @ drop (Suc p) vs) @ ?f (vs ! p)\<rparr>"
      by (metis intset.surjective intset.update_convs(3))
    then show ?thesis using False by (intro exI [of _ "?f (vs ! p)"]) (simp only: if_False)
  qed
  have lt: "(?n - 1) * ?w < 2 ^ 32" using le eqs(3) by linarith
  then have "repr (is\<lparr>contents := chunks ?f (take p vs @ drop (Suc p) vs), ilen := ?n - 1\<rparr>) (take p vs @ drop (Suc p) vs)"
    using enc r p by (auto simp: repr_def dest: in_set_takeD in_set_dropD)
  moreover have "mem_resize junk (u32 ((?n - 1) * ?w)) (chunks ?f (take p vs @ drop (Suc p) vs) @ t)
      = chunks ?f (take p vs @ drop (Suc p) vs)" for t
    using p lt by (subst mem_resize_append) (simp_all add: w add_mult_distrib [symmetric])
  moreover obtain t where "(if p < ?n - 1 then intsetMoveTail is (u32 (p + 1)) p else Some is)
      = Some (is\<lparr>contents := chunks ?f (take p vs @ drop (Suc p) vs) @ t\<rparr>)"
    using mv by blast
  ultimately show ?thesis
    by (simp only: Let_def eqs(1) sub Option.bind.bind_lunit intsetResize_def) simp
qed

lemma sorted_remove:
  assumes "sorted_wrt (<) (vs :: int list)" and "p < length vs"
  shows "sorted_wrt (<) (take p vs @ drop (Suc p) vs)"
    and "set (take p vs @ drop (Suc p) vs) = set vs - {vs ! p}"
proof -
  have vs: "vs = take p vs @ vs ! p # drop (Suc p) vs" using assms(2) by (rule id_take_nth_drop)
  with assms(1) have s: "sorted_wrt (<) (take p vs @ vs ! p # drop (Suc p) vs)" by simp
  then show "sorted_wrt (<) (take p vs @ drop (Suc p) vs)" by (simp add: sorted_wrt_append)
  have "set vs = insert (vs ! p) (set (take p vs @ drop (Suc p) vs))"
    by (subst vs) simp
  moreover have "vs ! p \<notin> set (take p vs @ drop (Suc p) vs)"
    using s by (auto simp: sorted_wrt_append)
  ultimately show "set (take p vs @ drop (Suc p) vs) = set vs - {vs ! p}" by blast
qed

lemma intsetUpgrade_loop_correct:
  assumes w: "enc_ok w" "enc_ok (encoding is)" "w < encoding is" and q: "q \<le> 1"
    and f: "\<forall>v \<in> set vs. fits w v" and k: "k \<le> length vs"
    and m: "length (contents is) = Suc (length vs) * encoding is"
      "take (k * w) (contents is) = chunks (le_bytes w) (take k vs)"
  shows "\<exists>c. intsetUpgrade_loop w q k is = Some (is\<lparr>contents := c\<rparr>)
    \<and> length c = length (contents is)
    \<and> drop (q * encoding is) c
       = chunks (le_bytes (encoding is)) (take k vs) @ drop ((k + q) * encoding is) (contents is)"
  using k m w(2,3)
proof (induction k arbitrary: "is")
  case 0
  then show ?case by (intro exI [of _ "contents is"]) simp
next
  case (Suc k)
  let ?W = "encoding is"
  have vk: "fits w (vs ! k)" using f Suc.prems(1) by simp
  have get: "intsetGetEncoded is (int k) w = Some (vs ! k)"
    using read_chunk [OF w(1) Suc.prems(1) _ vk Suc.prems(3)] w(1) by (simp add: intsetGetEncoded_read)
  have "Suc (k + q) * ?W \<le> Suc (length vs) * ?W"
    using Suc.prems(1) q by (intro mult_right_mono) auto
  then have wr_le: "(k + q) * ?W + ?W \<le> length (contents is)" using Suc.prems(2) by simp
  define c where "c = take ((k + q) * ?W) (contents is) @ le_bytes ?W (vs ! k) @ drop ((k + q) * ?W + ?W) (contents is)"
  have set: "intsetSet is (int (k + q)) (vs ! k) = Some (is\<lparr>contents := c\<rparr>)"
    using wr_le Suc.prems(4) by (subst intsetSet_write) (simp_all add: mem_write_def c_def)
  have lc: "length c = length (contents is)" using wr_le by (simp add: c_def)
  have "k * w \<le> (k + q) * ?W" using Suc.prems(5) by (intro mult_le_mono) auto
  then have "take (k * w) c = take (k * w) (contents is)" using wr_le by (simp add: c_def)
  also have "\<dots> = take (k * w) (take (Suc k * w) (contents is))" by simp
  also have "\<dots> = chunks (le_bytes w) (take k vs)"
    using Suc.prems(1,3) take_chunks [of "le_bytes w" w k "take (Suc k) vs"] by simp
  finally have "take (k * w) c = chunks (le_bytes w) (take k vs)" .
  then obtain c' where c': "intsetUpgrade_loop w q k (is\<lparr>contents := c\<rparr>) = Some (is\<lparr>contents := c'\<rparr>)"
    "length c' = length c"
    "drop (q * ?W) c' = chunks (le_bytes ?W) (take k vs) @ drop ((k + q) * ?W) c"
    using Suc.IH [of "is\<lparr>contents := c\<rparr>"] Suc.prems lc by auto
  have "drop ((k + q) * ?W) c = le_bytes ?W (vs ! k) @ drop ((Suc k + q) * ?W) (contents is)"
    using wr_le by (simp add: c_def add.commute)
  moreover have "chunks (le_bytes ?W) (take (Suc k) vs) = chunks (le_bytes ?W) (take k vs) @ le_bytes ?W (vs ! k)"
    using Suc.prems(1) by (simp add: take_Suc_conv_app_nth)
  ultimately show ?case using get set c' lc by (intro exI [of _ c']) simp
qed

lemma out_of_range:
  assumes "enc_ok w" "\<not> fits w v" "fits w x"
  shows "if v < 0 then v < x else x < v"
  using assms by (auto simp: fits_def)

lemma upgrade_repr:
  assumes r: "repr is vs" and v: "in_int64 v" and up: "encoding is < intsetValueEncoding v"
    and room: "Suc (length vs) * intsetValueEncoding v < 2 ^ 32"
  shows "\<exists>is'. intsetUpgradeAndAdd junk is v = Some is'
    \<and> repr is' (if v < 0 then v # vs else vs @ [v])"
proof -
  let ?w = "encoding is" and ?W = "intsetValueEncoding v" and ?n = "length vs"
  define q :: nat where "q = (if v < 0 then 1 else 0)"
  have enc: "enc_ok ?w" and W: "enc_ok ?W" using r by (simp_all add: repr_def enc_ok_value)
  have eqs: "ilen is = ?n" "contents is = chunks (le_bytes ?w) vs" using r by (simp_all add: repr_def)
  have n32: "Suc ?n < 2 ^ 32" using room W by (auto simp: enc_ok_def)
  define m where "m = mem_resize junk (Suc ?n * ?W) (contents is)"
  have lm: "length m = Suc ?n * ?W" by (simp add: m_def)
  define is1 where "is1 = is\<lparr>encoding := ?W, contents := m\<rparr>"
  have res: "intsetResize junk (is\<lparr>encoding := ?W\<rparr>) (u32 (ilen (is\<lparr>encoding := ?W\<rparr>) + 1)) = is1"
    using n32 room by (simp add: intsetResize_def eqs is1_def m_def)
  have le: "?n * ?w \<le> Suc ?n * ?W" using up by (intro mult_le_mono) auto
  then have "take (?n * ?w) m = chunks (le_bytes ?w) (take ?n vs)"
    using take_mem_resize [of "?n * ?w" "Suc ?n * ?W" "contents is" junk] by (simp add: eqs m_def)
  moreover have "encoding is1 = ?W" "contents is1 = m" by (simp_all add: is1_def)
  moreover have "q \<le> 1" by (simp add: q_def)
  ultimately obtain c where c: "intsetUpgrade_loop ?w q ?n is1 = Some (is1\<lparr>contents := c\<rparr>)"
    "length c = length m"
    "drop (q * ?W) c = chunks (le_bytes ?W) vs @ drop ((?n + q) * ?W) m"
    using intsetUpgrade_loop_correct [of ?w is1 q vs ?n] enc W up r lm by (auto simp: repr_def)
  let ?vs = "if v < 0 then v # vs else vs @ [v]"
  have st: "(if q \<noteq> 0 then intsetSet (is1\<lparr>contents := c\<rparr>) 0 v else intsetSet (is1\<lparr>contents := c\<rparr>) (int (ilen (is1\<lparr>contents := c\<rparr>))) v)
      = Some (is1\<lparr>contents := chunks (le_bytes ?W) ?vs\<rparr>)"
  proof (cases "v < 0")
    case True
    with c(3) lm have "drop ?W c = chunks (le_bytes ?W) vs" by (simp add: q_def)
    with True c(2) lm show ?thesis
      using intsetSet_write [of "is1\<lparr>contents := c\<rparr>" 0 v] W by (simp add: q_def is1_def mem_write_def)
  next
    case False
    with c(3) have c3: "c = chunks (le_bytes ?W) vs @ drop (?n * ?W) m" by (simp add: q_def)
    with False lm show ?thesis
      using intsetSet_write [of "is1\<lparr>contents := c\<rparr>" "?n" v] W
      by (simp add: q_def is1_def eqs mem_write_def)
  qed
  have "repr (is1\<lparr>contents := chunks (le_bytes ?W) ?vs, ilen := Suc ?n\<rparr>) ?vs"
  proof -
    have "\<forall>x \<in> set vs. fits ?W x"
    proof
      fix x assume "x \<in> set vs"
      then have x: "fits ?w x" using r by (simp add: repr_def)
      have "(256 :: int) ^ ?w \<le> 256 ^ ?W" using up by (intro power_increasing) auto
      with x show "fits ?W x" unfolding fits_def by (intro conjI; linarith)
    qed
    with W room fits_value_encoding [OF v] show ?thesis by (auto simp: repr_def is1_def)
  qed
  moreover have "is1\<lparr>contents := chunks (le_bytes ?W) ?vs, ilen := u32 (ilen (is1\<lparr>contents := chunks (le_bytes ?W) ?vs\<rparr>) + 1)\<rparr>
      = is1\<lparr>contents := chunks (le_bytes ?W) ?vs, ilen := Suc ?n\<rparr>"
    using n32 by (simp add: is1_def eqs)
  ultimately show ?thesis
    unfolding intsetUpgradeAndAdd_def Let_def q_def [symmetric] res
      c(1) [folded eqs(1)] Option.bind.bind_lunit st by simp
qed

section \<open>The operations on the values\<close>

definition intset_vals :: "intset \<Rightarrow> int list" where
  "intset_vals is =
     map (\<lambda>i. le_sint (take (encoding is) (drop (i * encoding is) (contents is)))) [0..<ilen is]"

definition intset_ok :: "intset \<Rightarrow> bool" where
  "intset_ok is \<longleftrightarrow> repr is (intset_vals is) \<and> sorted_wrt (<) (intset_vals is)"

lemma repr_vals:
  assumes "repr is vs"
  shows "intset_vals is = vs"
proof (rule nth_equalityI)
  show "length (intset_vals is) = length vs" using assms by (simp add: intset_vals_def repr_def)
  fix i assume "i < length (intset_vals is)"
  then have i: "i < length vs" using assms by (simp add: intset_vals_def repr_def)
  then have "intset_vals is ! i = le_sint (le_bytes (encoding is) (vs ! i))"
    using assms by (simp add: intset_vals_def repr_def nth_chunk)
  with i assms show "intset_vals is ! i = vs ! i" by (simp add: repr_def fits_def le_sint_le_bytes)
qed

lemma intset_okI: "repr is vs \<Longrightarrow> sorted_wrt (<) vs \<Longrightarrow> intset_ok is"
  by (simp add: intset_ok_def repr_vals)

lemma intset_result:
  "res = Some (is', b) \<Longrightarrow> repr is' vs' \<Longrightarrow> sorted_wrt (<) vs' \<Longrightarrow> set vs' = S
    \<Longrightarrow> \<exists>is'. res = Some (is', b) \<and> intset_ok is' \<and> set (intset_vals is') = S"
  by (simp add: intset_ok_def repr_vals)

lemma intsetNew_ok: "intset_ok intsetNew" "intset_vals intsetNew = []"
  by (simp_all add: intset_ok_def intset_vals_def intsetNew_def repr_def enc_ok_def)

text \<open>A value that needs a wider encoding than the set has is not in it, so the operations
may answer without searching.\<close>

lemma wider_not_in:
  assumes "repr is vs" "in_int64 v" "encoding is < intsetValueEncoding v"
  shows "v \<notin> set vs"
proof
  assume "v \<in> set vs"
  with assms(1) have "fits (encoding is) v" "enc_ok (encoding is)" by (auto simp: repr_def)
  with assms(2,3) show False by (simp add: fits_iff_encoding)
qed

lemma intsetAdd_ok:
  assumes ok: "intset_ok is" and v: "in_int64 v"
    and room: "Suc (ilen is) * max (encoding is) (intsetValueEncoding v) < 2 ^ 32"
  shows "\<exists>is'. intsetAdd junk is v = Some (is', v \<notin> set (intset_vals is)) \<and> intset_ok is'
    \<and> set (intset_vals is') = insert v (set (intset_vals is))"
proof -
  define vs where "vs = intset_vals is"
  have r: "repr is vs" and srt: "sorted_wrt (<) vs" and n: "ilen is = length vs"
    using ok by (simp_all add: intset_ok_def vs_def repr_def)
  show ?thesis
  proof (cases "encoding is < intsetValueEncoding v")
    case True
    let ?vs = "if v < 0 then v # vs else vs @ [v]"
    from True r v room n obtain is' where is': "intsetUpgradeAndAdd junk is v = Some is'" "repr is' ?vs"
      using upgrade_repr [of "is" vs v junk] by (auto simp: max_def)
    have nf: "\<not> fits (encoding is) v" using True v r by (simp add: fits_iff_encoding repr_def)
    then have "sorted_wrt (<) ?vs"
      using srt r out_of_range [of "encoding is" v] by (auto simp: repr_def sorted_wrt_append split: if_splits)
    moreover have "set ?vs = insert v (set vs)" by auto
    ultimately show ?thesis
      using is' True wider_not_in [OF r v] unfolding vs_def [symmetric]
      by (intro intset_result [of _ is' _ ?vs]) (simp_all add: intsetAdd_def)
  next
    case False
    then have room': "Suc (length vs) * encoding is < 2 ^ 32" using room n by (simp add: max_def)
    have f: "fits (encoding is) v" using False v r by (simp add: fits_iff_encoding repr_def)
    obtain found p where s: "intsetSearch is v = Some (found, p)"
      "if found then p < length vs \<and> vs ! p = v else insert_pos vs v p"
      using intsetSearch_correct [OF r srt, of v] by blast
    show ?thesis
    proof (cases found)
      case True
      with s have "v \<in> set vs" by auto
      with True s ok False show ?thesis by (auto simp: intsetAdd_def vs_def [symmetric])
    next
      case nfound: False
      with s have p: "insert_pos vs v p" by simp
      then obtain is' where "intsetAdd junk is v = Some (is', True)" "repr is' (take p vs @ v # drop p vs)"
        using insert_repr [OF r f _ room', of p junk] s(1) False nfound
        by (auto simp: intsetAdd_def insert_pos_def)
      then show ?thesis
        using sorted_insert_pos [OF srt p] set_insert_at [of p vs v] insert_pos_not_in [OF p]
        unfolding vs_def [symmetric]
        by (intro intset_result [of _ is' _ "take p vs @ v # drop p vs"]) simp_all
    qed
  qed
qed

lemma intsetFind_ok:
  assumes ok: "intset_ok is" and v: "in_int64 v"
  shows "intsetFind is v = Some (v \<in> set (intset_vals is))"
proof -
  define vs where "vs = intset_vals is"
  have r: "repr is vs" and srt: "sorted_wrt (<) vs" using ok by (simp_all add: intset_ok_def vs_def)
  obtain found p where s: "intsetSearch is v = Some (found, p)"
      "if found then p < length vs \<and> vs ! p = v else insert_pos vs v p"
      using intsetSearch_correct [OF r srt, of v] by blast
  then have "found \<longleftrightarrow> v \<in> set vs" using insert_pos_not_in by (auto split: if_splits)
  with s(1) wider_not_in [OF r v] show ?thesis
    by (auto simp: intsetFind_def vs_def [symmetric])
qed

lemma intsetRemove_ok:
  assumes ok: "intset_ok is" and v: "in_int64 v"
  shows "\<exists>is'. intsetRemove junk is v = Some (is', v \<in> set (intset_vals is)) \<and> intset_ok is'
    \<and> set (intset_vals is') = set (intset_vals is) - {v}"
proof -
  define vs where "vs = intset_vals is"
  have r: "repr is vs" and srt: "sorted_wrt (<) vs" using ok by (simp_all add: intset_ok_def vs_def)
  obtain found p where s: "intsetSearch is v = Some (found, p)"
      "if found then p < length vs \<and> vs ! p = v else insert_pos vs v p"
      using intsetSearch_correct [OF r srt, of v] by blast
  show ?thesis
  proof (cases "encoding is < intsetValueEncoding v \<or> \<not> found")
    case True
    then have "v \<notin> set vs" using wider_not_in [OF r v] s(2) insert_pos_not_in by auto
    with True s(1) ok show ?thesis by (auto simp: intsetRemove_def vs_def [symmetric])
  next
    case False
    with s have p: "p < length vs" "vs ! p = v" by simp_all
    then obtain is' where "intsetRemove junk is v = Some (is', True)" "repr is' (take p vs @ drop (Suc p) vs)"
      using remove_repr [OF r p(1), of junk] s(1) False by (auto simp: intsetRemove_def)
    moreover have "v \<in> set vs" using p by auto
    ultimately show ?thesis
      using sorted_remove [OF srt p(1)] p(2)
      unfolding vs_def [symmetric]
      by (intro intset_result [of _ is' _ "take p vs @ drop (Suc p) vs"]) simp_all
  qed
qed

section \<open>Reading and validating\<close>

lemma intsetGet_ok:
  assumes "intset_ok is"
  shows "intsetGet is pos = Some (if pos < length (intset_vals is) then Some (intset_vals is ! pos) else None)"
proof -
  have r: "repr is (intset_vals is)" using assms by (simp add: intset_ok_def)
  then have "ilen is = length (intset_vals is)" by (simp add: repr_def)
  then show ?thesis using intsetGetAt_repr [OF r, of pos] by (simp add: intsetGet_def)
qed

lemma intsetRandom_ok:
  assumes "intset_ok is" and "intset_vals is \<noteq> []"
  shows "\<exists>v \<in> set (intset_vals is). intsetRandom rand is = Some v"
proof -
  have r: "repr is (intset_vals is)" using assms by (simp add: intset_ok_def)
  then have n: "ilen is = length (intset_vals is)" by (simp add: repr_def)
  have m: "rand mod length (intset_vals is) < length (intset_vals is)"
    using assms(2) by (simp add: mod_less_divisor)
  from intsetGetAt_repr [OF r m] m assms(2) show ?thesis
    by (intro bexI [of _ "intset_vals is ! (rand mod length (intset_vals is))"])
      (simp_all add: intsetRandom_def n)
qed

lemma repr_iff:
  "repr is (intset_vals is) \<longleftrightarrow> enc_ok (encoding is)
     \<and> length (contents is) = ilen is * encoding is \<and> ilen is * encoding is < 2 ^ 32"
proof (cases "enc_ok (encoding is) \<and> length (contents is) = ilen is * encoding is")
  case True
  let ?w = "encoding is"
  have piece: "length (take ?w (drop (i * ?w) (contents is))) = ?w" if "i < ilen is" for i
  proof -
    have "Suc i * ?w \<le> ilen is * ?w" using that by (intro mult_right_mono) auto
    with True show ?thesis by simp
  qed
  have "chunks (le_bytes ?w) (intset_vals is) = contents is"
  proof -
    have "map (\<lambda>i. le_bytes ?w (le_sint (take ?w (drop (i * ?w) (contents is))))) [0..<ilen is]
        = map (\<lambda>i. take ?w (drop (i * ?w) (contents is))) [0..<ilen is]"
    proof (intro map_cong refl)
      fix i assume "i \<in> set [0..<ilen is]"
      then have "length (take ?w (drop (i * ?w) (contents is))) = ?w" by (intro piece) simp
      then show "le_bytes ?w (le_sint (take ?w (drop (i * ?w) (contents is)))) = take ?w (drop (i * ?w) (contents is))"
        by (metis le_bytes_le_sint)
    qed
    then show ?thesis using True split_chunks [of "contents is" "ilen is" ?w]
      unfolding chunks_def intset_vals_def map_map comp_def by (simp only:)
  qed
  moreover have "\<forall>v \<in> set (intset_vals is). fits ?w v"
  proof
    fix v assume "v \<in> set (intset_vals is)"
    then obtain i where i: "i < ilen is" "v = le_sint (take ?w (drop (i * ?w) (contents is)))"
      by (auto simp: intset_vals_def)
    have "take ?w (drop (i * ?w) (contents is)) \<noteq> []"
      using piece [OF i(1)] True by (auto simp: enc_ok_def)
    from le_sint_bounds [OF this] show "fits ?w v" unfolding piece [OF i(1)] by (simp add: fits_def i(2))
  qed
  ultimately show ?thesis using True by (auto simp: repr_def intset_vals_def)
next
  case False
  have "\<not> repr is (intset_vals is)"
  proof
    assume r: "repr is (intset_vals is)"
    then have "length (contents is) = length (chunks (le_bytes (encoding is)) (intset_vals is))"
      by (simp only: repr_def)
    with r False show False by (simp add: repr_def)
  qed
  with False show ?thesis by blast
qed

lemma intsetValidate_loop_correct:
  assumes "repr is vs" and "i + n = length vs"
  shows "intsetValidate_loop is i n prev = Some (sorted_wrt (<) (prev # drop i vs))"
  using assms(2)
proof (induction n arbitrary: i prev)
  case (Suc n)
  then have i: "i < length vs" by simp
  have "drop i vs = vs ! i # drop (Suc i) vs" using i by (simp add: Cons_nth_drop_Suc)
  then have "sorted_wrt (<) (prev # drop i vs) \<longleftrightarrow> prev < vs ! i \<and> sorted_wrt (<) (vs ! i # drop (Suc i) vs)"
    by (auto intro: less_trans)
  then show ?case
    using intsetGetAt_repr [OF assms(1) i] Suc by (auto simp: leD)
qed (simp add: assms)

lemma intsetValidateIntegrity_deep:
  assumes sz: "length p < 2 ^ 32"
  shows "intsetValidateIntegrity p (length p) True =
    Some (8 \<le> length p \<and> intset_ok (intset_of_blob p) \<and> intset_vals (intset_of_blob p) \<noteq> [])"
proof (cases "8 \<le> length p \<and> enc_ok (encoding (intset_of_blob p))
    \<and> 8 + ilen (intset_of_blob p) * encoding (intset_of_blob p) = length p")
  case True
  define S where "S = intset_of_blob p"
  have "length (contents S) = length p - 8" by (simp add: S_def intset_of_blob_def)
  with True sz have r: "repr S (intset_vals S)" by (auto simp: repr_iff S_def [symmetric])
  have n: "length (intset_vals S) = ilen S" by (simp add: intset_vals_def)
  show ?thesis
  proof (cases "ilen S = 0")
    case True
    with \<open>_ \<and> _ \<and> _\<close> n show ?thesis
      by (auto simp: intsetValidateIntegrity_def S_def [symmetric] enc_ok_def)
  next
    case False
    then have ne: "intset_vals S \<noteq> []" "1 + (ilen S - 1) = length (intset_vals S)" using n by auto
    then have "intset_vals S = hd (intset_vals S) # drop 1 (intset_vals S)"
      by (simp add: drop_Suc)
    then have "intsetValidate_loop S 1 (ilen S - 1) (hd (intset_vals S)) = Some (sorted_wrt (<) (intset_vals S))"
      using intsetValidate_loop_correct [OF r ne(2), of "hd (intset_vals S)"] by simp
    moreover have "intsetGetAt S 0 = Some (hd (intset_vals S))"
      using intsetGetAt_repr [OF r, of 0] ne by (simp add: hd_conv_nth)
    ultimately show ?thesis
      using True False r ne by (auto simp: intsetValidateIntegrity_def S_def [symmetric] enc_ok_def intset_ok_def)
  qed
next
  case False
  then have "intsetValidateIntegrity p (length p) True = Some False"
    by (auto simp: intsetValidateIntegrity_def enc_ok_def Let_def)
  moreover have "length (contents (intset_of_blob p)) = length p - 8" by (simp add: intset_of_blob_def)
  then have "\<not> (8 \<le> length p \<and> intset_ok (intset_of_blob p))"
    using False by (auto simp: intset_ok_def repr_iff)
  ultimately show ?thesis by auto
qed

section \<open>The set interface\<close>

text \<open>
  What the set commands of \<open>t_set.c\<close> rely on: the operations behave as on a mathematical set
  of 64-bit integers as long as it has fewer than \<open>cap\<close> members. A client is a sequence of
  operations; it sees only their answers.
\<close>

datatype set_op = SAdd int | SRem int | SHas int

primrec op_arg :: "set_op \<Rightarrow> int" where
  "op_arg (SAdd v) = v"
| "op_arg (SRem v) = v"
| "op_arg (SHas v) = v"

primrec set_op_run ::
  "('s \<Rightarrow> int \<Rightarrow> ('s \<times> bool) option) \<Rightarrow> ('s \<Rightarrow> int \<Rightarrow> ('s \<times> bool) option) \<Rightarrow> ('s \<Rightarrow> int \<Rightarrow> bool option)
    \<Rightarrow> 's \<Rightarrow> set_op \<Rightarrow> ('s \<times> bool) option" where
  "set_op_run add rm has s (SAdd v) = add s v"
| "set_op_run add rm has s (SRem v) = rm s v"
| "set_op_run add rm has s (SHas v) = map_option (Pair s) (has s v)"

fun set_run ::
  "('s \<Rightarrow> int \<Rightarrow> ('s \<times> bool) option) \<Rightarrow> ('s \<Rightarrow> int \<Rightarrow> ('s \<times> bool) option) \<Rightarrow> ('s \<Rightarrow> int \<Rightarrow> bool option)
    \<Rightarrow> 's \<Rightarrow> set_op list \<Rightarrow> ('s \<times> bool list) option" where
  "set_run add rm has s [] = Some (s, [])"
| "set_run add rm has s (x # ops) = do {
     (s, b) \<leftarrow> set_op_run add rm has s x;
     (s, bs) \<leftarrow> set_run add rm has s ops;
     Some (s, b # bs)
   }"

text \<open>The same client on a mathematical set.\<close>

primrec spec_op :: "int set \<Rightarrow> set_op \<Rightarrow> int set \<times> bool" where
  "spec_op S (SAdd v) = (insert v S, v \<notin> S)"
| "spec_op S (SRem v) = (S - {v}, v \<in> S)"
| "spec_op S (SHas v) = (S, v \<in> S)"

fun spec_run :: "int set \<Rightarrow> set_op list \<Rightarrow> int set \<times> bool list" where
  "spec_run S [] = (S, [])"
| "spec_run S (x # ops) =
     (let (S, b) = spec_op S x; (S, bs) = spec_run S ops in (S, b # bs))"

locale bounded_int_set =
  fixes ok :: "'s \<Rightarrow> bool" and elems :: "'s \<Rightarrow> int set" and cap :: nat and emp :: 's
    and add rm :: "'s \<Rightarrow> int \<Rightarrow> ('s \<times> bool) option" and has :: "'s \<Rightarrow> int \<Rightarrow> bool option"
  assumes emp_ok: "ok emp" and emp_elems: "elems emp = {}"
    and elems_finite: "ok s \<Longrightarrow> finite (elems s)"
    and add_law: "ok s \<Longrightarrow> in_int64 v \<Longrightarrow> card (elems s) < cap \<Longrightarrow>
      \<exists>s'. add s v = Some (s', v \<notin> elems s) \<and> ok s' \<and> elems s' = insert v (elems s)"
    and rm_law: "ok s \<Longrightarrow> in_int64 v \<Longrightarrow>
      \<exists>s'. rm s v = Some (s', v \<in> elems s) \<and> ok s' \<and> elems s' = elems s - {v}"
    and has_law: "ok s \<Longrightarrow> in_int64 v \<Longrightarrow> has s v = Some (v \<in> elems s)"
begin

lemma step_refines:
  assumes "ok s" and "in_int64 (op_arg x)" and "card (elems s) < cap"
  shows "\<exists>s'. set_op_run add rm has s x = Some (s', snd (spec_op (elems s) x))
    \<and> ok s' \<and> elems s' = fst (spec_op (elems s) x)"
  using assms by (cases x) (simp_all add: add_law rm_law has_law)

lemma step_card:
  assumes "ok s"
  shows "card (fst (spec_op (elems s) x)) \<le> Suc (card (elems s))"
  using elems_finite [OF assms] by (cases x) (auto simp: card_insert_if intro: le_SucI card_mono)

lemma run_refines:
  assumes "ok s" and "\<forall>x \<in> set ops. in_int64 (op_arg x)" and "card (elems s) + length ops \<le> cap"
  shows "\<exists>s'. set_run add rm has s ops = Some (s', snd (spec_run (elems s) ops))
    \<and> ok s' \<and> elems s' = fst (spec_run (elems s) ops)"
  using assms
proof (induction ops arbitrary: s)
  case (Cons x ops)
  obtain s1 where s1: "set_op_run add rm has s x = Some (s1, snd (spec_op (elems s) x))" "ok s1"
    "elems s1 = fst (spec_op (elems s) x)"
    using step_refines [of s x] Cons.prems by auto
  moreover have "card (elems s1) + length ops \<le> cap"
    using step_card [OF Cons.prems(1), of x] Cons.prems(3) s1(3) by simp
  ultimately show ?case
    using Cons.IH [of s1] Cons.prems(2) by (auto simp: case_prod_unfold Let_def)
qed simp

end

lemma card_vals: "intset_ok is \<Longrightarrow> card (set (intset_vals is)) = ilen is"
  by (simp add: intset_ok_def strict_sorted_iff distinct_card) (simp add: intset_vals_def)

lemma intset_ok_enc: "intset_ok is \<Longrightarrow> max (encoding is) (intsetValueEncoding v) \<le> 8"
  by (auto simp: intset_ok_def repr_def enc_ok_def intsetValueEncoding_def)

interpretation iset: bounded_int_set intset_ok "\<lambda>is. set (intset_vals is)" "2 ^ 29 - 1" intsetNew
  "intsetAdd junk" "intsetRemove junk" intsetFind for junk
proof
  fix s v
  assume s: "intset_ok s" "in_int64 v" "card (set (intset_vals s)) < 2 ^ 29 - 1"
  then have n: "Suc (ilen s) \<le> 2 ^ 29 - 1" by (simp add: card_vals)
  have "Suc (ilen s) * max (encoding s) (intsetValueEncoding v) \<le> (2 ^ 29 - 1) * 8"
    using mult_le_mono [OF n intset_ok_enc [OF s(1), of v]] .
  then have "Suc (ilen s) * max (encoding s) (intsetValueEncoding v) < 2 ^ 32" by simp
  then show "\<exists>s'. intsetAdd junk s v = Some (s', v \<notin> set (intset_vals s)) \<and> intset_ok s'
    \<and> set (intset_vals s') = insert v (set (intset_vals s))"
    using s by (intro intsetAdd_ok) auto
qed (simp_all add: intsetNew_ok intsetRemove_ok intsetFind_ok)

section \<open>Properties\<close>

text \<open> C4: A client that starts from \<open>intsetNew\<close> and runs any sequence of fewer than
\<open>2 ^ 29\<close> additions, removals and lookups of 64-bit integers gets exactly the answers a
mathematical set gives; no operation accesses memory outside the set, and the set it ends with is
well formed and has the expected members.\<close>

theorem intset_refines_set:
  assumes "\<forall>x \<in> set ops. in_int64 (op_arg x)" and "length ops < 2 ^ 29"
  shows "\<exists>is. set_run (intsetAdd junk) (intsetRemove junk) intsetFind intsetNew ops
      = Some (is, snd (spec_run {} ops))
    \<and> intset_ok is \<and> set (intset_vals is) = fst (spec_run {} ops)"
  using iset.run_refines [of intsetNew ops junk] assms by (simp add: intsetNew_ok)

theorem intset_refines_set_witness:
  "\<exists>is. set_run (intsetAdd 0) (intsetRemove 0) intsetFind intsetNew [SAdd 7, SAdd (- 70000), SAdd 7, SRem 7, SHas (- 70000)]
      = Some (is, [True, True, False, True, True]) \<and> intset_ok is \<and> set (intset_vals is) = {- 70000}"
  using intset_refines_set [of "[SAdd 7, SAdd (- 70000), SAdd 7, SRem 7, SHas (- 70000)]" 0]
  by (simp add: in_int64_def insert_Diff_if)

text \<open> C19: Adding a 64-bit integer to a well-formed set keeps it well formed, adds exactly that
value, reports whether it was new and stays inside the (re)allocated block, whether or not the
value forces an upgrade of the encoding, provided the new block is smaller than 4 GiB.\<close>

theorem intsetAdd_correct:
  assumes "intset_ok is" and "in_int64 v"
    and "Suc (ilen is) * max (encoding is) (intsetValueEncoding v) < 2 ^ 32"
  shows "\<exists>is'. intsetAdd junk is v = Some (is', v \<notin> set (intset_vals is)) \<and> intset_ok is'
    \<and> set (intset_vals is') = insert v (set (intset_vals is))"
  using assms by (rule intsetAdd_ok)

theorem intsetAdd_correct_witness:
  "\<exists>is'. intsetAdd 0 intsetNew 100000 = Some (is', True) \<and> intset_ok is' \<and> set (intset_vals is') = {100000}"
  using intsetAdd_correct [of intsetNew 100000 0] intsetNew_ok
  by (simp add: in_int64_def intsetNew_def intsetValueEncoding_def)



text \<open>The size computation of \<open>intsetResize\<close> is 32 bits wide.\<close>

lemma intsetAdd_wrap:
  assumes ok: "intset_ok is" and full: "encoding is = 8" "ilen is = 2 ^ 29 - 1"
    and v: "in_int64 v" "v \<notin> set (intset_vals is)"
  shows "intsetAdd junk is v = None"
proof -
  define vs where "vs = intset_vals is"
  have r: "repr is vs" and srt: "sorted_wrt (<) vs" using ok by (simp_all add: intset_ok_def vs_def)
  obtain p where s: "intsetSearch is v = Some (False, p)"
    using intsetSearch_correct [OF r srt, of v] v(2) by (auto simp: vs_def split: if_splits)
  have "intsetResize junk is (u32 (ilen is + 1)) = is\<lparr>contents := []\<rparr>"
    by (simp add: intsetResize_def full u32_def mem_resize_def)
  moreover have "intsetMoveTail (is\<lparr>contents := []\<rparr>) p (u32 (p + 1)) = None" if "p < ilen is"
  proof -
    have "(ilen is - p) * 8 \<noteq> 0" "ilen is * 8 < 2 ^ 32" using that full by simp_all
    with that full show ?thesis
      by (subst intsetMoveTail_eq) (auto simp: enc_ok_def mem_move_def mem_read_def)
  qed
  moreover have "intsetSet (is\<lparr>contents := []\<rparr>) (int p) v = None"
    by (simp add: intsetSet_def full mem_write_def)
  moreover have "\<not> encoding is < intsetValueEncoding v" by (simp add: full intsetValueEncoding_def)
  ultimately show ?thesis using s by (auto simp: intsetAdd_def)
qed

lemma full_intset:
  assumes "n * 8 < 2 ^ 32"
  shows "intset_ok \<lparr>encoding = 8, ilen = n, contents = chunks (le_bytes 8) (map int [0..<n])\<rparr>"
    and "intset_vals \<lparr>encoding = 8, ilen = n, contents = chunks (le_bytes 8) (map int [0..<n])\<rparr> = map int [0..<n]"
proof -
  have "repr \<lparr>encoding = 8, ilen = n, contents = chunks (le_bytes 8) (map int [0..<n])\<rparr> (map int [0..<n])"
    using assms by (auto simp: repr_def enc_ok_def fits_def)
  moreover have "sorted_wrt (<) (map int [0..<n])" by (simp add: sorted_wrt_map)
  ultimately show "intset_ok \<lparr>encoding = 8, ilen = n, contents = chunks (le_bytes 8) (map int [0..<n])\<rparr>"
    "intset_vals \<lparr>encoding = 8, ilen = n, contents = chunks (le_bytes 8) (map int [0..<n])\<rparr> = map int [0..<n]"
    by (blast intro: intset_okI repr_vals)+
qed

text \<open> C33: At the capacity bound the bound is needed: adding a new value to a well-formed set of
\<open>2 ^ 29 - 1\<close> eight-byte integers computes a block size of \<open>2 ^ 32\<close> bytes in a \<open>uint32_t\<close>,
reallocates the contents to zero bytes and then accesses memory outside of them.\<close>

theorem intsetAdd_overflow:
  assumes "intset_ok is" and "encoding is = 8" and "ilen is = 2 ^ 29 - 1"
    and "in_int64 v" and "v \<notin> set (intset_vals is)"
  shows "intsetAdd junk is v = None"
  using assms by (rule intsetAdd_wrap)

theorem intsetAdd_overflow_witness:
  "\<exists>is. intset_ok is \<and> encoding is = 8 \<and> ilen is = 2 ^ 29 - 1 \<and> intsetAdd 0 is (- 1) = None"
proof -
  obtain n :: nat where n: "n = 2 ^ 29 - 1" by blast
  define S where "S = \<lparr>encoding = 8, ilen = n, contents = chunks (le_bytes 8) (map int [0..<n])\<rparr>"
  have "n * 8 < 2 ^ 32" unfolding n by simp
  note ok = full_intset [OF this, folded S_def]
  have S: "encoding S = 8" "ilen S = 2 ^ 29 - 1" unfolding S_def by (simp, simp only: intset.simps n)
  have "- 1 \<notin> set (intset_vals S)" unfolding ok(2) by auto
  then have "intsetAdd 0 S (- 1) = None"
    using ok(1) S by (intro intsetAdd_overflow) (simp_all add: in_int64_def)
  with ok(1) S show ?thesis by blast
qed

end
