(* ===== verification/Dict.thy ===== *)
theory Dict
  imports Redis_Prelude "HOL-Library.Multiset"
begin

unbundle bit_operations_syntax

text \<open>
  The hash table of \<open>dict.c\<close>: chaining, power-of-two tables and incremental rehashing from
  \<open>ht[0]\<close> to \<open>ht[1]\<close>.

  A bucket is the list of its entries in chain order, and a table the list of its buckets; the
  \<open>NULL\<close> table of an unallocated \<open>dictht\<close> is the empty list. A pointer to an entry is the triple of
  its table, its bucket and its position in the chain. Keys are what the callbacks of the
  \<open>dictType\<close> get (the \<open>void *\<close> of the source), so \<open>key == he->key\<close> is equality. Destructors only
  release memory and are left out. An access to a bucket that does not exist and a failing
  \<open>assert\<close> are \<open>None\<close>.
\<close>

section \<open>Data\<close>

record ('k, 'v) dictType =
  hashFunction :: "'k \<Rightarrow> 64 word"
  keyDup :: "('k \<Rightarrow> 'k) option"
  valDup :: "('v \<Rightarrow> 'v) option"
  keyCompare :: "('k \<Rightarrow> 'k \<Rightarrow> bool) option"
  expandAllowed :: "(nat \<Rightarrow> nat \<times> nat \<Rightarrow> bool) option"

text \<open>The value of an entry is \<open>None\<close> until it is set.\<close>

record ('k, 'v) dictEntry =
  de_key :: 'k
  de_val :: "'v option"

type_synonym ('k, 'v) chain = "('k, 'v) dictEntry list"

record ('k, 'v) dictht =
  table :: "('k, 'v) chain list"
  ht_size :: nat
  sizemask :: "64 word"
  used :: nat

record ('k, 'v) dict =
  ht0 :: "('k, 'v) dictht"
  ht1 :: "('k, 'v) dictht"
  rehashidx :: int
  pauserehash :: int

type_synonym dref = "nat \<times> nat \<times> nat"

definition DICT_HT_INITIAL_SIZE :: nat where
  "DICT_HT_INITIAL_SIZE = 4"

text \<open>\<open>_dictReset\<close> and \<open>_dictInit\<close> (called by \<open>dictCreate\<close>).\<close>

definition dictReset :: "('k, 'v) dictht" where
  "dictReset = \<lparr>table = [], ht_size = 0, sizemask = 0, used = 0\<rparr>"

definition dictCreate :: "('k, 'v) dict" where
  "dictCreate = \<lparr>ht0 = dictReset, ht1 = dictReset, rehashidx = - 1, pauserehash = 0\<rparr>"

definition dictIsRehashing :: "('k, 'v) dict \<Rightarrow> bool" where
  "dictIsRehashing d \<longleftrightarrow> rehashidx d \<noteq> - 1"

definition dictSize :: "('k, 'v) dict \<Rightarrow> nat" where
  "dictSize d = used (ht0 d) + used (ht1 d)"

definition dictSlots :: "('k, 'v) dict \<Rightarrow> nat" where
  "dictSlots d = ht_size (ht0 d) + ht_size (ht1 d)"

definition dictPauseRehashing :: "('k, 'v) dict \<Rightarrow> ('k, 'v) dict" where
  "dictPauseRehashing d = d\<lparr>pauserehash := pauserehash d + 1\<rparr>"

definition dictResumeRehashing :: "('k, 'v) dict \<Rightarrow> ('k, 'v) dict" where
  "dictResumeRehashing d = d\<lparr>pauserehash := pauserehash d - 1\<rparr>"

definition dictCompareKeys :: "('k, 'v) dictType \<Rightarrow> 'k \<Rightarrow> 'k \<Rightarrow> bool" where
  "dictCompareKeys t k1 k2 = (case keyCompare t of Some c \<Rightarrow> c k1 k2 | None \<Rightarrow> k1 = k2)"

definition sameKey :: "('k, 'v) dictType \<Rightarrow> 'k \<Rightarrow> 'k \<Rightarrow> bool" where
  "sameKey t key ekey \<longleftrightarrow> key = ekey \<or> dictCompareKeys t key ekey"

section \<open>Sizes and expansion\<close>

text \<open>The loop of \<open>_dictNextPower\<close> starts from a positive \<open>i\<close>.\<close>

function dictNextPower_loop :: "nat \<Rightarrow> nat \<Rightarrow> nat" where
  "dictNextPower_loop i sz = (if i \<ge> sz \<or> i = 0 then i else dictNextPower_loop (i * 2) sz)"
  by auto
termination by (relation "measure (\<lambda>(i, sz). sz - i)") auto

definition dictNextPower :: "nat \<Rightarrow> nat" where
  "dictNextPower sz =
     (if sz \<ge> 2 ^ 63 - 1 then 2 ^ 63 else dictNextPower_loop DICT_HT_INITIAL_SIZE sz)"

text \<open>
  \<open>_dictExpand\<close>: \<open>alloc\<close> says whether \<open>ztrycalloc\<close> succeeds (\<open>zcalloc\<close> always does, or the server
  aborts). The result is the dictionary, whether \<open>DICT_OK\<close> is returned, and \<open>malloc_failed\<close>.
\<close>

definition dictExpandImpl :: "('k, 'v) dict \<Rightarrow> nat \<Rightarrow> bool \<Rightarrow> ('k, 'v) dict \<times> bool \<times> bool" where
  "dictExpandImpl d sz alloc =
     (if dictIsRehashing d \<or> used (ht0 d) > sz then (d, False, False)
      else let realsize = dictNextPower sz in
      if realsize = ht_size (ht0 d) then (d, False, False)
      else if \<not> alloc then (d, False, True)
      else let n = \<lparr>table = replicate realsize [], ht_size = realsize,
                    sizemask = of_nat realsize - 1, used = 0\<rparr> in
      if table (ht0 d) = [] then (d\<lparr>ht0 := n\<rparr>, True, False)
      else (d\<lparr>ht1 := n, rehashidx := 0\<rparr>, True, False))"

definition dictExpand :: "('k, 'v) dict \<Rightarrow> nat \<Rightarrow> ('k, 'v) dict \<times> bool" where
  "dictExpand d sz = (let (d, ok, _) = dictExpandImpl d sz True in (d, ok))"

definition dictTryExpand :: "bool \<Rightarrow> ('k, 'v) dict \<Rightarrow> nat \<Rightarrow> ('k, 'v) dict \<times> bool" where
  "dictTryExpand alloc d sz = (let (d, _, failed) = dictExpandImpl d sz alloc in (d, \<not> failed))"

text \<open>\<open>can\<close> is the global \<open>dict_can_resize\<close>.\<close>

definition dictResize :: "bool \<Rightarrow> ('k, 'v) dict \<Rightarrow> ('k, 'v) dict \<times> bool" where
  "dictResize can d =
     (if \<not> can \<or> dictIsRehashing d then (d, False)
      else let minimal = used (ht0 d);
               minimal = (if minimal < DICT_HT_INITIAL_SIZE then DICT_HT_INITIAL_SIZE else minimal)
           in dictExpand d minimal)"

definition dictTypeExpandAllowed :: "('k, 'v) dictType \<Rightarrow> ('k, 'v) dict \<Rightarrow> bool" where
  "dictTypeExpandAllowed t d =
     (case expandAllowed t of
        None \<Rightarrow> True
      | Some f \<Rightarrow> f (dictNextPower (used (ht0 d) + 1) * 8) (used (ht0 d), ht_size (ht0 d)))"

definition dict_force_resize_ratio :: nat where
  "dict_force_resize_ratio = 5"

definition dictExpandIfNeeded ::
  "('k, 'v) dictType \<Rightarrow> bool \<Rightarrow> ('k, 'v) dict \<Rightarrow> ('k, 'v) dict \<times> bool" where
  "dictExpandIfNeeded t can d =
     (if dictIsRehashing d then (d, True)
      else if ht_size (ht0 d) = 0 then dictExpand d DICT_HT_INITIAL_SIZE
      else if used (ht0 d) \<ge> ht_size (ht0 d)
              \<and> (can \<or> used (ht0 d) div ht_size (ht0 d) > dict_force_resize_ratio)
              \<and> dictTypeExpandAllowed t d
           then dictExpand d (used (ht0 d) + 1)
      else (d, True))"

section \<open>Incremental rehashing\<close>

text \<open>The inner loop of \<open>dictRehash\<close> that skips empty buckets: the index and \<open>empty_visits\<close> it
stops with, and whether it stops because the visits are used up.\<close>

function rehash_skip :: "('k, 'v) chain list \<Rightarrow> nat \<Rightarrow> int \<Rightarrow> (nat \<times> int \<times> bool) option" where
  "rehash_skip tbl idx ev =
     (if idx < length tbl then
        if tbl ! idx = [] then
          (let idx = idx + 1; ev = ev - 1 in
           if ev = 0 then Some (idx, ev, True) else rehash_skip tbl idx ev)
        else Some (idx, ev, False)
      else None)"
  by auto
termination by (relation "measure (\<lambda>(tbl, idx, ev). length tbl - idx)") auto

text \<open>Moving one chain to the new table, entry by entry.\<close>

primrec rehash_move ::
  "('k, 'v) dictType \<Rightarrow> ('k, 'v) chain \<Rightarrow> ('k, 'v) dict \<Rightarrow> ('k, 'v) dict option" where
  "rehash_move t [] d = Some d"
| "rehash_move t (de # rest) d = do {
     let h = unat (hashFunction t (de_key de) AND sizemask (ht1 d));
     c \<leftarrow> nth_opt (table (ht1 d)) h;
     let d = d\<lparr>ht1 := (ht1 d)\<lparr>table := (table (ht1 d))[h := de # c], used := used (ht1 d) + 1\<rparr>,
               ht0 := (ht0 d)\<lparr>used := used (ht0 d) - 1\<rparr>\<rparr>;
     rehash_move t rest d
   }"

text \<open>The outer loop; the flag is the early \<open>return 1\<close>.\<close>

primrec rehash_loop ::
  "('k, 'v) dictType \<Rightarrow> nat \<Rightarrow> int \<Rightarrow> ('k, 'v) dict \<Rightarrow> (('k, 'v) dict \<times> bool) option" where
  "rehash_loop t 0 ev d = Some (d, False)"
| "rehash_loop t (Suc n) ev d =
     (if used (ht0 d) = 0 then Some (d, False)
      else if \<not> int (ht_size (ht0 d)) > rehashidx d then None
      else do {
        (idx, ev, stop) \<leftarrow> rehash_skip (table (ht0 d)) (nat (rehashidx d)) ev;
        let d = d\<lparr>rehashidx := int idx\<rparr>;
        if stop then Some (d, True)
        else do {
          d \<leftarrow> rehash_move t (table (ht0 d) ! idx) d;
          let d = d\<lparr>ht0 := (ht0 d)\<lparr>table := (table (ht0 d))[idx := []]\<rparr>,
                    rehashidx := rehashidx d + 1\<rparr>;
          rehash_loop t n ev d
        }
      })"

definition dictRehash ::
  "('k, 'v) dictType \<Rightarrow> ('k, 'v) dict \<Rightarrow> nat \<Rightarrow> (('k, 'v) dict \<times> bool) option" where
  "dictRehash t d n =
     (if \<not> dictIsRehashing d then Some (d, False)
      else do {
        (d, stop) \<leftarrow> rehash_loop t n (int n * 10) d;
        if stop then Some (d, True)
        else if used (ht0 d) = 0
        then Some (d\<lparr>ht0 := ht1 d, ht1 := dictReset, rehashidx := - 1\<rparr>, False)
        else Some (d, True)
      })"

definition dictRehashStep :: "('k, 'v) dictType \<Rightarrow> ('k, 'v) dict \<Rightarrow> ('k, 'v) dict option" where
  "dictRehashStep t d =
     (if pauserehash d = 0 then map_option fst (dictRehash t d 1) else Some d)"

text \<open>\<open>dictRehashMilliseconds\<close>: \<open>expired\<close> gives, per round, whether the time is used up; the
loop takes one element of it per round.\<close>

primrec rehash_ms ::
  "('k, 'v) dictType \<Rightarrow> bool list \<Rightarrow> ('k, 'v) dict \<Rightarrow> nat \<Rightarrow> (('k, 'v) dict \<times> nat) option" where
  "rehash_ms t [] d rehashes = Some (d, rehashes)"
| "rehash_ms t (late # expired) d rehashes = do {
     (d, more) \<leftarrow> dictRehash t d 100;
     if \<not> more then Some (d, rehashes)
     else let rehashes = rehashes + 100 in
       if late then Some (d, rehashes) else rehash_ms t expired d rehashes
   }"

definition dictRehashMilliseconds ::
  "('k, 'v) dictType \<Rightarrow> bool list \<Rightarrow> ('k, 'v) dict \<Rightarrow> (('k, 'v) dict \<times> nat) option" where
  "dictRehashMilliseconds t expired d =
     (if pauserehash d > 0 then Some (d, 0) else rehash_ms t expired d 0)"

section \<open>Lookup\<close>

primrec find_pos :: "('k, 'v) dictType \<Rightarrow> 'k \<Rightarrow> ('k, 'v) chain \<Rightarrow> nat option" where
  "find_pos t key [] = None"
| "find_pos t key (he # rest) =
     (if sameKey t key (de_key he) then Some 0 else map_option Suc (find_pos t key rest))"

definition bucket_idx :: "('k, 'v) dictht \<Rightarrow> 64 word \<Rightarrow> nat" where
  "bucket_idx ht h = unat (h AND sizemask ht)"

text \<open>The loop over the tables that \<open>dictFind\<close>, \<open>_dictKeyIndex\<close> and \<open>dictGenericDelete\<close> share.\<close>

definition dictSearch ::
  "('k, 'v) dictType \<Rightarrow> ('k, 'v) dict \<Rightarrow> 'k \<Rightarrow> 64 word \<Rightarrow> dref option option" where
  "dictSearch t d key h = do {
     let idx = bucket_idx (ht0 d) h;
     c \<leftarrow> nth_opt (table (ht0 d)) idx;
     case find_pos t key c of
       Some p \<Rightarrow> Some (Some (0, idx, p))
     | None \<Rightarrow>
         if \<not> dictIsRehashing d then Some None
         else do {
           let idx = bucket_idx (ht1 d) h;
           c \<leftarrow> nth_opt (table (ht1 d)) idx;
           Some (map_option (\<lambda>p. (1, idx, p)) (find_pos t key c))
         }
   }"

definition sel_ht :: "('k, 'v) dict \<Rightarrow> nat \<Rightarrow> ('k, 'v) dictht" where
  "sel_ht d tab = (if tab = 0 then ht0 d else ht1 d)"

definition upd_ht ::
  "nat \<Rightarrow> (('k, 'v) dictht \<Rightarrow> ('k, 'v) dictht) \<Rightarrow> ('k, 'v) dict \<Rightarrow> ('k, 'v) dict" where
  "upd_ht tab f d = (if tab = 0 then d\<lparr>ht0 := f (ht0 d)\<rparr> else d\<lparr>ht1 := f (ht1 d)\<rparr>)"

fun deref :: "('k, 'v) dict \<Rightarrow> dref \<Rightarrow> ('k, 'v) dictEntry" where
  "deref d (tab, idx, p) = table (sel_ht d tab) ! idx ! p"

fun upd_entry ::
  "(('k, 'v) dictEntry \<Rightarrow> ('k, 'v) dictEntry) \<Rightarrow> dref \<Rightarrow> ('k, 'v) dict \<Rightarrow> ('k, 'v) dict" where
  "upd_entry f (tab, idx, p) d =
     upd_ht tab (\<lambda>ht. ht\<lparr>table := (table ht)[idx := (table ht ! idx)[p := f (table ht ! idx ! p)]]\<rparr>) d"

definition dictFind ::
  "('k, 'v) dictType \<Rightarrow> ('k, 'v) dict \<Rightarrow> 'k \<Rightarrow> (('k, 'v) dict \<times> dref option) option" where
  "dictFind t d key =
     (if dictSize d = 0 then Some (d, None)
      else do {
        d \<leftarrow> (if dictIsRehashing d then dictRehashStep t d else Some d);
        r \<leftarrow> dictSearch t d key (hashFunction t key);
        Some (d, r)
      })"

definition dictFetchValue ::
  "('k, 'v) dictType \<Rightarrow> ('k, 'v) dict \<Rightarrow> 'k \<Rightarrow> (('k, 'v) dict \<times> 'v option) option" where
  "dictFetchValue t d key = do {
     (d, he) \<leftarrow> dictFind t d key;
     Some (d, case he of Some r \<Rightarrow> de_val (deref d r) | None \<Rightarrow> None)
   }"

section \<open>Insertion\<close>

text \<open>\<open>_dictKeyIndex\<close>: \<open>Inl\<close> is the result -1 with what \<open>*existing\<close> is set to.\<close>

definition dictKeyIndex ::
  "('k, 'v) dictType \<Rightarrow> bool \<Rightarrow> ('k, 'v) dict \<Rightarrow> 'k \<Rightarrow> 64 word
    \<Rightarrow> (('k, 'v) dict \<times> (dref option + nat)) option" where
  "dictKeyIndex t can d key hash =
     (let (d, ok) = dictExpandIfNeeded t can d in
      if \<not> ok then Some (d, Inl None)
      else do {
        r \<leftarrow> dictSearch t d key hash;
        case r of
          Some he \<Rightarrow> Some (d, Inl (Some he))
        | None \<Rightarrow> Some (d, Inr (bucket_idx (sel_ht d (if dictIsRehashing d then 1 else 0)) hash))
      })"

definition dictSetKey :: "('k, 'v) dictType \<Rightarrow> 'k \<Rightarrow> 'k" where
  "dictSetKey t key = (case keyDup t of Some f \<Rightarrow> f key | None \<Rightarrow> key)"

definition stored_val :: "('k, 'v) dictType \<Rightarrow> 'v \<Rightarrow> 'v" where
  "stored_val t v = (case valDup t of Some f \<Rightarrow> f v | None \<Rightarrow> v)"

definition dictSetVal :: "('k, 'v) dictType \<Rightarrow> dref \<Rightarrow> 'v \<Rightarrow> ('k, 'v) dict \<Rightarrow> ('k, 'v) dict" where
  "dictSetVal t r v d = upd_entry (\<lambda>e. e\<lparr>de_val := Some (stored_val t v)\<rparr>) r d"

text \<open>\<open>dictAddRaw\<close> returns \<open>NULL\<close> (\<open>Inl\<close>, with \<open>*existing\<close>) or the new entry (\<open>Inr\<close>).\<close>

definition dictAddRaw ::
  "('k, 'v) dictType \<Rightarrow> bool \<Rightarrow> ('k, 'v) dict \<Rightarrow> 'k
    \<Rightarrow> (('k, 'v) dict \<times> (dref option + dref)) option" where
  "dictAddRaw t can d key = do {
     d \<leftarrow> (if dictIsRehashing d then dictRehashStep t d else Some d);
     (d, r) \<leftarrow> dictKeyIndex t can d key (hashFunction t key);
     case r of
       Inl existing \<Rightarrow> Some (d, Inl existing)
     | Inr index \<Rightarrow> do {
         let tab = (if dictIsRehashing d then 1 else 0);
         c \<leftarrow> nth_opt (table (sel_ht d tab)) index;
         let entry = \<lparr>de_key = dictSetKey t key, de_val = None\<rparr>;
         let d = upd_ht tab (\<lambda>ht. ht\<lparr>table := (table ht)[index := entry # c], used := used ht + 1\<rparr>) d;
         Some (d, Inr (tab, index, 0))
       }
   }"

definition dictAdd ::
  "('k, 'v) dictType \<Rightarrow> bool \<Rightarrow> ('k, 'v) dict \<Rightarrow> 'k \<Rightarrow> 'v \<Rightarrow> (('k, 'v) dict \<times> bool) option" where
  "dictAdd t can d key val = do {
     (d, entry) \<leftarrow> dictAddRaw t can d key;
     case entry of
       Inl _ \<Rightarrow> Some (d, False)
     | Inr r \<Rightarrow> Some (dictSetVal t r val d, True)
   }"

text \<open>In \<open>dictReplace\<close> an unset \<open>existing\<close> would be a null pointer dereference.\<close>

definition dictReplace ::
  "('k, 'v) dictType \<Rightarrow> bool \<Rightarrow> ('k, 'v) dict \<Rightarrow> 'k \<Rightarrow> 'v \<Rightarrow> (('k, 'v) dict \<times> bool) option" where
  "dictReplace t can d key val = do {
     (d, entry) \<leftarrow> dictAddRaw t can d key;
     case entry of
       Inr r \<Rightarrow> Some (dictSetVal t r val d, True)
     | Inl None \<Rightarrow> None
     | Inl (Some existing) \<Rightarrow> Some (dictSetVal t existing val d, False)
   }"

definition dictAddOrFind ::
  "('k, 'v) dictType \<Rightarrow> bool \<Rightarrow> ('k, 'v) dict \<Rightarrow> 'k \<Rightarrow> (('k, 'v) dict \<times> dref option) option" where
  "dictAddOrFind t can d key = do {
     (d, entry) \<leftarrow> dictAddRaw t can d key;
     Some (d, case entry of Inr r \<Rightarrow> Some r | Inl existing \<Rightarrow> existing)
   }"

section \<open>Deletion\<close>

definition dictGenericDelete ::
  "('k, 'v) dictType \<Rightarrow> ('k, 'v) dict \<Rightarrow> 'k
    \<Rightarrow> (('k, 'v) dict \<times> ('k, 'v) dictEntry option) option" where
  "dictGenericDelete t d key =
     (if used (ht0 d) = 0 \<and> used (ht1 d) = 0 then Some (d, None)
      else do {
        d \<leftarrow> (if dictIsRehashing d then dictRehashStep t d else Some d);
        r \<leftarrow> dictSearch t d key (hashFunction t key);
        case r of
          None \<Rightarrow> Some (d, None)
        | Some (tab, idx, p) \<Rightarrow>
            let c = table (sel_ht d tab) ! idx;
                d' = upd_ht tab (\<lambda>ht. ht\<lparr>table := (table ht)[idx := take p c @ drop (Suc p) c],
                                       used := used ht - 1\<rparr>) d
            in Some (d', Some (c ! p))
      })"

definition dictDelete ::
  "('k, 'v) dictType \<Rightarrow> ('k, 'v) dict \<Rightarrow> 'k \<Rightarrow> (('k, 'v) dict \<times> bool) option" where
  "dictDelete t d key = do {
     (d, he) \<leftarrow> dictGenericDelete t d key;
     Some (d, he \<noteq> None)
   }"

definition dictUnlink ::
  "('k, 'v) dictType \<Rightarrow> ('k, 'v) dict \<Rightarrow> 'k
    \<Rightarrow> (('k, 'v) dict \<times> ('k, 'v) dictEntry option) option" where
  "dictUnlink t d key = dictGenericDelete t d key"

text \<open>\<open>_dictClear\<close>: the entries it frees, in order, and the table it leaves. The loop stops at the
end of the table or when \<open>used\<close> reaches zero.\<close>

function clear_loop :: "('k, 'v) dictht \<Rightarrow> nat \<Rightarrow> nat \<Rightarrow> ('k, 'v) dictEntry list option" where
  "clear_loop ht i left =
     (if i < ht_size ht \<and> left > 0 then do {
        c \<leftarrow> nth_opt (table ht) i;
        freed \<leftarrow> clear_loop ht (i + 1) (left - length c);
        Some (c @ freed)
      } else Some [])"
  by auto
termination by (relation "measure (\<lambda>(ht, i, left). ht_size ht - i)") auto

definition dictClear :: "('k, 'v) dictht \<Rightarrow> (('k, 'v) dictht \<times> ('k, 'v) dictEntry list) option" where
  "dictClear ht = do {
     freed \<leftarrow> clear_loop ht 0 (used ht);
     Some (dictReset, freed)
   }"

definition dictEmpty :: "('k, 'v) dict \<Rightarrow> (('k, 'v) dict \<times> ('k, 'v) dictEntry list) option" where
  "dictEmpty d = do {
     (h0, f0) \<leftarrow> dictClear (ht0 d);
     (h1, f1) \<leftarrow> dictClear (ht1 d);
     Some (d\<lparr>ht0 := h0, ht1 := h1, rehashidx := - 1, pauserehash := 0\<rparr>, f0 @ f1)
   }"

definition dictRelease :: "('k, 'v) dict \<Rightarrow> ('k, 'v) dictEntry list option" where
  "dictRelease d = do {
     (h0, f0) \<leftarrow> dictClear (ht0 d);
     (h1, f1) \<leftarrow> dictClear (ht1 d);
     Some (f0 @ f1)
   }"

section \<open>Invariant and abstraction\<close>

definition ht_entries :: "('k, 'v) dictht \<Rightarrow> ('k, 'v) dictEntry list" where
  "ht_entries ht = concat (table ht)"

definition dict_entries :: "('k, 'v) dict \<Rightarrow> ('k, 'v) dictEntry list" where
  "dict_entries d = ht_entries (ht0 d) @ ht_entries (ht1 d)"

definition ht_shape :: "('k, 'v) dictht \<Rightarrow> bool" where
  "ht_shape ht \<longleftrightarrow> length (table ht) = ht_size ht \<and>
     (ht_size ht = 0 \<and> sizemask ht = 0 \<or>
      (\<exists>a. 2 \<le> a \<and> a < 64 \<and> ht_size ht = 2 ^ a \<and> sizemask ht = mask a))"

definition ht_inv :: "('k, 'v) dictType \<Rightarrow> ('k, 'v) dictht \<Rightarrow> bool" where
  "ht_inv t ht \<longleftrightarrow> ht_shape ht \<and> used ht = length (ht_entries ht)
     \<and> (\<forall>i < length (table ht). \<forall>e \<in> set (table ht ! i). bucket_idx ht (hashFunction t (de_key e)) = i)"

text \<open>Distinct keys are meant up to the comparison of the type: \<open>norm\<close> maps a key to what it
stands for (the characters of a string, say).\<close>

definition dict_inv :: "('k \<Rightarrow> 'n) \<Rightarrow> ('k, 'v) dictType \<Rightarrow> ('k, 'v) dict \<Rightarrow> bool" where
  "dict_inv norm t d \<longleftrightarrow> ht_inv t (ht0 d) \<and> ht_inv t (ht1 d)
     \<and> (if dictIsRehashing d
        then 0 \<le> rehashidx d \<and> rehashidx d \<le> int (ht_size (ht0 d)) \<and> table (ht0 d) \<noteq> [] \<and> table (ht1 d) \<noteq> []
             \<and> (\<forall>i < nat (rehashidx d). table (ht0 d) ! i = [])
        else table (ht1 d) = [])
     \<and> distinct (map (norm \<circ> de_key) (dict_entries d))"

definition dmap :: "('k \<Rightarrow> 'n) \<Rightarrow> ('k, 'v) dict \<Rightarrow> ('n \<rightharpoonup> 'v option)" where
  "dmap norm d = map_of (map (\<lambda>e. (norm (de_key e), de_val e)) (dict_entries d))"

declare dictNextPower_loop.simps [simp del] rehash_skip.simps [simp del] clear_loop.simps [simp del]

subsection \<open>Tables\<close>

lemma ht_shape_idx:
  "ht_shape ht \<Longrightarrow> table ht \<noteq> [] \<Longrightarrow> bucket_idx ht h < length (table ht)"
  by (auto simp: ht_shape_def bucket_idx_def unsigned_take_bit_eq simp flip: take_bit_eq_mask)

lemma ht_shapeI:
  "length (table ht) = 2 ^ a \<Longrightarrow> ht_size ht = 2 ^ a \<Longrightarrow> sizemask ht = mask a \<Longrightarrow> 2 \<le> a \<Longrightarrow> a < 64 \<Longrightarrow> ht_shape ht"
  by (auto simp: ht_shape_def)

lemma ht_shape_upd [simp]: "ht_shape (ht\<lparr>table := (table ht)[i := c]\<rparr>) = ht_shape ht"
  "ht_shape (ht\<lparr>used := n\<rparr>) = ht_shape ht"
  by (auto simp: ht_shape_def)

lemma ht_upd_order [simp]: "ht\<lparr>used := u, table := tb\<rparr> = ht\<lparr>table := tb, used := u\<rparr>"
  by simp

lemma bucket_idx_upd [simp]: "bucket_idx (ht\<lparr>table := tb\<rparr>) h = bucket_idx ht h"
  "bucket_idx (ht\<lparr>used := n\<rparr>) h = bucket_idx ht h"
  by (simp_all add: bucket_idx_def)

lemma mset_concat_update:
  "i < length xs \<Longrightarrow> mset (concat (xs[i := c])) + mset (xs ! i) = mset (concat xs) + mset c"
proof (induction xs arbitrary: i)
  case (Cons x xs)
  then show ?case by (cases i) (simp_all add: add.assoc)
qed simp

text \<open>Every operation replaces one chain of one table by entries that belong in that bucket.\<close>

lemma ht_chain_update:
  assumes inv: "ht_inv t ht" and i: "i < length (table ht)"
    and c: "\<forall>e \<in> set c. bucket_idx ht (hashFunction t (de_key e)) = i"
    and u: "u + length (table ht ! i) = used ht + length c"
  shows "ht_inv t (ht\<lparr>table := (table ht)[i := c], used := u\<rparr>)"
    and "mset (ht_entries (ht\<lparr>table := (table ht)[i := c], used := u\<rparr>)) + mset (table ht ! i)
      = mset (ht_entries ht) + mset c"
proof -
  show m: "mset (ht_entries (ht\<lparr>table := (table ht)[i := c], used := u\<rparr>)) + mset (table ht ! i)
      = mset (ht_entries ht) + mset c"
    using mset_concat_update [OF i] by (simp add: ht_entries_def)
  then have "length (ht_entries (ht\<lparr>table := (table ht)[i := c], used := u\<rparr>)) + length (table ht ! i)
      = length (ht_entries ht) + length c"
    by (metis size_mset size_union)
  with u inv have "length (ht_entries (ht\<lparr>table := (table ht)[i := c], used := u\<rparr>)) = u"
    by (simp add: ht_inv_def)
  with inv i c show "ht_inv t (ht\<lparr>table := (table ht)[i := c], used := u\<rparr>)"
    by (auto simp: ht_inv_def nth_list_update)
qed

lemma ht_inv_reset: "ht_inv t dictReset"
  by (simp add: ht_inv_def dictReset_def ht_shape_def ht_entries_def)

lemma ht_inv_nil: "ht_inv t ht \<Longrightarrow> table ht = [] \<Longrightarrow> ht = dictReset"
  by (cases ht) (auto simp: ht_inv_def ht_shape_def dictReset_def ht_entries_def)

subsection \<open>Powers of two\<close>

lemma dictNextPower_loop_pow:
  assumes "i = 2 ^ a" and "a \<le> b" and "sz \<le> 2 ^ b"
  shows "\<exists>c. a \<le> c \<and> c \<le> b \<and> dictNextPower_loop i sz = 2 ^ c \<and> sz \<le> 2 ^ c"
  using assms
proof (induction i sz arbitrary: a rule: dictNextPower_loop.induct)
  case (1 i sz)
  show ?case
  proof (cases "sz \<le> i")
    case True
    with 1 show ?thesis by (intro exI [of _ a]) (auto simp: dictNextPower_loop.simps)
  next
    case False
    have "a \<noteq> b" using False 1 by auto
    with 1 have "Suc a \<le> b" by simp
    with 1 False obtain c where "Suc a \<le> c" "c \<le> b" "dictNextPower_loop (i * 2) sz = 2 ^ c" "sz \<le> 2 ^ c"
      using 1(1) [of "Suc a"] by auto
    moreover have "dictNextPower_loop i sz = dictNextPower_loop (i * 2) sz"
      using False 1(2) by (subst dictNextPower_loop.simps) simp
    ultimately show ?thesis by (intro exI [of _ c]) simp
  qed
qed

lemma dictNextPower_pow:
  "\<exists>a. 2 \<le> a \<and> a < 64 \<and> dictNextPower sz = 2 ^ a \<and> (sz \<le> 2 ^ 63 \<longrightarrow> sz \<le> 2 ^ a)"
proof (cases "sz \<ge> 2 ^ 63 - 1")
  case True
  then show ?thesis by (intro exI [of _ 63]) (simp add: dictNextPower_def)
next
  case False
  obtain c where "2 \<le> c" "c \<le> 63" "dictNextPower_loop 4 sz = 2 ^ c" "sz \<le> 2 ^ c"
    using dictNextPower_loop_pow [of 4 2 63 sz] False by auto
  with False show ?thesis by (intro exI [of _ c]) (auto simp: dictNextPower_def DICT_HT_INITIAL_SIZE_def)
qed

subsection \<open>Rehashing\<close>

lemma ht_insert:
  assumes "ht_inv t ht" and "table ht \<noteq> []" and "i = bucket_idx ht (hashFunction t (de_key e))"
  defines "ht' \<equiv> ht\<lparr>table := (table ht)[i := e # table ht ! i], used := used ht + 1\<rparr>"
  shows "i < length (table ht)" and "ht_inv t ht'"
    and "mset (ht_entries ht') = add_mset e (mset (ht_entries ht))"
proof -
  show i: "i < length (table ht)" using assms by (auto simp: ht_inv_def ht_shape_idx)
  have c: "\<forall>e' \<in> set (e # table ht ! i). bucket_idx ht (hashFunction t (de_key e')) = i"
    using assms i by (auto simp: ht_inv_def)
  have u: "used ht + 1 + length (table ht ! i) = used ht + length (e # table ht ! i)" by simp
  show "ht_inv t ht'" unfolding ht'_def by (rule ht_chain_update(1) [OF assms(1) i c u])
  show "mset (ht_entries ht') = add_mset e (mset (ht_entries ht))"
    using ht_chain_update(2) [OF assms(1) i c u] unfolding ht'_def by simp
qed

lemma rehash_move_inv:
  assumes "ht_inv t (ht1 d)" and "table (ht1 d) \<noteq> []"
  shows "\<exists>h1. rehash_move t es d = Some (d\<lparr>ht1 := h1, ht0 := (ht0 d)\<lparr>used := used (ht0 d) - length es\<rparr>\<rparr>)
    \<and> ht_inv t h1 \<and> table h1 \<noteq> [] \<and> mset (ht_entries h1) = mset es + mset (ht_entries (ht1 d))"
  using assms
proof (induction es arbitrary: d)
  case Nil
  then show ?case by (intro exI [of _ "ht1 d"]) simp
next
  case (Cons e es)
  let ?i = "bucket_idx (ht1 d) (hashFunction t (de_key e))"
  let ?h1 = "(ht1 d)\<lparr>table := (table (ht1 d))[?i := e # table (ht1 d) ! ?i], used := used (ht1 d) + 1\<rparr>"
  let ?d = "d\<lparr>ht1 := ?h1, ht0 := (ht0 d)\<lparr>used := used (ht0 d) - 1\<rparr>\<rparr>"
  note ins = ht_insert [OF Cons.prems refl]
  obtain h1 where "rehash_move t es ?d = Some (?d\<lparr>ht1 := h1, ht0 := (ht0 ?d)\<lparr>used := used (ht0 ?d) - length es\<rparr>\<rparr>)"
    "ht_inv t h1" "table h1 \<noteq> []" "mset (ht_entries h1) = mset es + mset (ht_entries (ht1 ?d))"
    using Cons.IH [of ?d] ins Cons.prems by auto
  then show ?case
    using ins by (intro exI [of _ h1]) (simp add: bucket_idx_def [symmetric])
qed

lemma rehash_skip_inv:
  assumes "\<exists>i. idx \<le> i \<and> i < length tbl \<and> tbl ! i \<noteq> []" and "\<forall>i < idx. tbl ! i = []"
  shows "\<exists>idx' ev' stop. rehash_skip tbl idx ev = Some (idx', ev', stop)
    \<and> idx \<le> idx' \<and> idx' < length tbl \<and> (\<forall>i < idx'. tbl ! i = [])
    \<and> (if stop then idx < idx' else tbl ! idx' \<noteq> [])"
  using assms
proof (induction tbl idx ev rule: rehash_skip.induct)
  case (1 tbl idx ev)
  from 1(2) have len: "idx < length tbl" by auto
  show ?case
  proof (cases "tbl ! idx = []")
    case True
    have ex: "\<exists>i. idx + 1 \<le> i \<and> i < length tbl \<and> tbl ! i \<noteq> []"
    proof -
      obtain i where i: "idx \<le> i" "i < length tbl" "tbl ! i \<noteq> []" using 1(2) by blast
      with True have "i \<noteq> idx" by auto
      with i show ?thesis by (intro exI [of _ i]) auto
    qed
    have all: "\<forall>i < idx + 1. tbl ! i = []" using 1(3) True by (auto simp: less_Suc_eq)
    show ?thesis
    proof (cases "ev - 1 = 0")
      case True
      with len \<open>tbl ! idx = []\<close> have "rehash_skip tbl idx ev = Some (idx + 1, 0, True)"
        by (subst rehash_skip.simps) simp
      moreover have "idx + 1 < length tbl" using ex by auto
      ultimately show ?thesis using all by auto
    next
      case False
      then have "rehash_skip tbl idx ev = rehash_skip tbl (idx + 1) (ev - 1)"
        using len True by (subst rehash_skip.simps) simp
      moreover obtain idx' ev' stop where "rehash_skip tbl (idx + 1) (ev - 1) = Some (idx', ev', stop)"
        "idx + 1 \<le> idx'" "idx' < length tbl" "\<forall>i < idx'. tbl ! i = []"
        "if stop then idx + 1 < idx' else tbl ! idx' \<noteq> []"
        using 1(1) [OF len True refl refl False ex all] by blast
      ultimately show ?thesis by (intro exI [of _ idx'] exI [of _ ev'] exI [of _ stop]) auto
    qed
  next
    case False
    with len 1(3) show ?thesis by (subst rehash_skip.simps) auto
  qed
qed

text \<open>A rehashing dictionary as the loop sees it, without the distinctness of the keys.\<close>

definition rehashing_inv :: "('k, 'v) dictType \<Rightarrow> ('k, 'v) dict \<Rightarrow> bool" where
  "rehashing_inv t d \<longleftrightarrow> ht_inv t (ht0 d) \<and> ht_inv t (ht1 d)
     \<and> 0 \<le> rehashidx d \<and> rehashidx d \<le> int (ht_size (ht0 d)) \<and> table (ht0 d) \<noteq> [] \<and> table (ht1 d) \<noteq> []
     \<and> (\<forall>i < nat (rehashidx d). table (ht0 d) ! i = [])"

lemma used_nonempty:
  assumes "ht_inv t ht" and "used ht \<noteq> 0" and "\<forall>i < k. table ht ! i = []"
  shows "\<exists>i. k \<le> i \<and> i < length (table ht) \<and> table ht ! i \<noteq> []"
proof (rule ccontr)
  assume "\<not> ?thesis"
  with assms(3) have "\<forall>c \<in> set (table ht). c = []" by (metis in_set_conv_nth not_le)
  then have "ht_entries ht = []" by (simp add: ht_entries_def)
  with assms show False by (simp add: ht_inv_def)
qed

lemma rehash_bucket_inv:
  assumes inv: "rehashing_inv t d" and idx: "idx < length (table (ht0 d))" "\<forall>i < idx. table (ht0 d) ! i = []"
  shows "\<exists>d'. rehash_move t (table (ht0 d) ! idx) (d\<lparr>rehashidx := int idx\<rparr>) = Some d'
    \<and> pauserehash d' = pauserehash d \<and> rehashidx d' = int idx
    \<and> (let d'' = d'\<lparr>ht0 := (ht0 d')\<lparr>table := (table (ht0 d'))[idx := []]\<rparr>, rehashidx := rehashidx d' + 1\<rparr>
       in rehashing_inv t d'' \<and> mset (dict_entries d'') = mset (dict_entries d))
          \<and> ht_size (ht0 d') = ht_size (ht0 d)"
proof -
  let ?c = "table (ht0 d) ! idx"
  obtain h1 where h1: "rehash_move t ?c (d\<lparr>rehashidx := int idx\<rparr>) =
      Some (d\<lparr>rehashidx := int idx, ht1 := h1, ht0 := (ht0 d)\<lparr>used := used (ht0 d) - length ?c\<rparr>\<rparr>)"
    "ht_inv t h1" "table h1 \<noteq> []" "mset (ht_entries h1) = mset ?c + mset (ht_entries (ht1 d))"
    using rehash_move_inv [of t "d\<lparr>rehashidx := int idx\<rparr>" ?c] inv by (auto simp: rehashing_inv_def)
  let ?h0 = "(ht0 d)\<lparr>table := (table (ht0 d))[idx := []], used := used (ht0 d) - length ?c\<rparr>"
  have inv0: "ht_inv t (ht0 d)" using inv by (simp add: rehashing_inv_def)
  have "size (mset ?c) \<le> size (mset (ht_entries (ht0 d)))"
    using arg_cong [OF mset_concat_update [OF idx(1), of "[]"], of size] by (simp add: ht_entries_def)
  then have "length ?c \<le> used (ht0 d)" using inv0 by (simp add: ht_inv_def)
  then have u: "used (ht0 d) - length ?c + length ?c = used (ht0 d) + length ([] :: ('a, 'b) chain)" by simp
  note h0 = ht_chain_update [OF inv0 idx(1) _ u, simplified]
  have len: "length (table (ht0 d)) = ht_size (ht0 d)" using inv0 by (simp add: ht_inv_def ht_shape_def)
  have "mset (ht_entries ?h0) + mset (ht_entries h1) = mset (ht_entries (ht0 d)) + mset (ht_entries (ht1 d))"
    using h0(2) h1(4) by (simp add: add.assoc [symmetric])
  moreover have "\<forall>i < Suc idx. (table (ht0 d))[idx := []] ! i = []" using idx by (auto simp: less_Suc_eq nth_list_update)
  ultimately show ?thesis
    using h1 h0(1) idx(1) len inv
    by (intro exI [of _ "d\<lparr>rehashidx := int idx, ht1 := h1, ht0 := (ht0 d)\<lparr>used := used (ht0 d) - length ?c\<rparr>\<rparr>"])
      (auto simp: rehashing_inv_def dict_entries_def Let_def nat_add_distrib)
qed

lemma rehash_loop_inv:
  assumes "rehashing_inv t d"
  shows "\<exists>d' stop. rehash_loop t n ev d = Some (d', stop) \<and> rehashing_inv t d'
    \<and> mset (dict_entries d') = mset (dict_entries d) \<and> pauserehash d' = pauserehash d
    \<and> ht_size (ht0 d') = ht_size (ht0 d)
    \<and> (if n = 0 \<or> used (ht0 d) = 0 then \<not> stop else rehashidx d < rehashidx d')"
  using assms
proof (induction n arbitrary: ev d)
  case (Suc n)
  show ?case
  proof (cases "used (ht0 d) = 0")
    case True
    with Suc.prems show ?thesis by auto
  next
    case False
    have inv: "ht_inv t (ht0 d)" "\<forall>i < nat (rehashidx d). table (ht0 d) ! i = []" "0 \<le> rehashidx d"
      and len: "length (table (ht0 d)) = ht_size (ht0 d)"
      using Suc.prems by (auto simp: rehashing_inv_def ht_inv_def ht_shape_def)
    obtain idx ev' stop where sk: "rehash_skip (table (ht0 d)) (nat (rehashidx d)) ev = Some (idx, ev', stop)"
      "nat (rehashidx d) \<le> idx" "idx < length (table (ht0 d))" "\<forall>i < idx. table (ht0 d) ! i = []"
      "if stop then nat (rehashidx d) < idx else table (ht0 d) ! idx \<noteq> []"
      using rehash_skip_inv [OF used_nonempty [OF inv(1) False inv(2)] inv(2), of ev] by blast
    have guard: "rehashidx d < int (ht_size (ht0 d))" "rehashidx d \<le> int idx" using sk inv(3) len by auto
    show ?thesis
    proof (cases stop)
      case True
      with sk Suc.prems len have "rehashing_inv t (d\<lparr>rehashidx := int idx\<rparr>)"
        by (simp add: rehashing_inv_def)
      with True sk False guard show ?thesis by (auto simp: dict_entries_def)
    next
      case nostop: False
      obtain d1 where d1: "rehash_move t (table (ht0 d) ! idx) (d\<lparr>rehashidx := int idx\<rparr>) = Some d1"
        "pauserehash d1 = pauserehash d" "rehashidx d1 = int idx" "ht_size (ht0 d1) = ht_size (ht0 d)"
        "rehashing_inv t (d1\<lparr>ht0 := (ht0 d1)\<lparr>table := (table (ht0 d1))[idx := []]\<rparr>, rehashidx := rehashidx d1 + 1\<rparr>)"
        "mset (dict_entries (d1\<lparr>ht0 := (ht0 d1)\<lparr>table := (table (ht0 d1))[idx := []]\<rparr>, rehashidx := rehashidx d1 + 1\<rparr>))
          = mset (dict_entries d)"
        using rehash_bucket_inv [OF Suc.prems sk(3,4)] unfolding Let_def by blast
      define d2 where "d2 = d1\<lparr>ht0 := (ht0 d1)\<lparr>table := (table (ht0 d1))[idx := []]\<rparr>, rehashidx := rehashidx d1 + 1\<rparr>"
      have d2: "rehashidx d2 = int idx + 1" "pauserehash d2 = pauserehash d" "ht_size (ht0 d2) = ht_size (ht0 d)"
        using d1 by (simp_all add: d2_def)
      obtain d' stop' where l: "rehash_loop t n ev' d2 = Some (d', stop')" "rehashing_inv t d'"
        "mset (dict_entries d') = mset (dict_entries d2)" "pauserehash d' = pauserehash d2"
        "ht_size (ht0 d') = ht_size (ht0 d2)"
        "if n = 0 \<or> used (ht0 d2) = 0 then \<not> stop' else rehashidx d2 < rehashidx d'"
        using Suc.IH [of d2 ev'] d1(5) unfolding d2_def by blast
      have mono: "rehashidx d2 \<le> rehashidx d'"
        using l(1,6) by (cases n) (auto split: if_splits)
      have "rehash_loop t (Suc n) ev d = rehash_loop t n ev' d2"
        using False guard sk nostop d1 by (simp add: d2_def Let_def)
      with l d1(6) d2 mono guard False show ?thesis by (auto simp: d2_def [symmetric])
    qed
  qed
qed auto

subsection \<open>Contents\<close>

lemma rehashing_invI: "dict_inv norm t d \<Longrightarrow> dictIsRehashing d \<Longrightarrow> rehashing_inv t d"
  by (simp add: dict_inv_def rehashing_inv_def)

lemma rehashing_invD:
  "rehashing_inv t d \<Longrightarrow> distinct (map (norm \<circ> de_key) (dict_entries d)) \<Longrightarrow> dict_inv norm t d"
  "rehashing_inv t d \<Longrightarrow> dictIsRehashing d"
  by (auto simp: dict_inv_def rehashing_inv_def dictIsRehashing_def)

lemma distinct_mset_map: "mset xs = mset ys \<Longrightarrow> distinct (map f xs) \<longleftrightarrow> distinct (map f ys)"
  by (metis mset_eq_imp_distinct_iff mset_map)

lemma map_of_mset:
  assumes "mset xs = mset ys" and "distinct (map (norm \<circ> de_key) xs)"
  shows "map_of (map (\<lambda>e. (norm (de_key e), de_val e)) xs) = map_of (map (\<lambda>e. (norm (de_key e), de_val e)) ys)"
proof -
  have "distinct (map (norm \<circ> de_key) ys)" using assms distinct_mset_map by blast
  moreover have "set xs = set ys" using assms(1) by (rule mset_eq_setD)
  ultimately show ?thesis using assms(2) by (intro iffD2 [OF map_of_inject_set]) (simp_all add: comp_def)
qed

lemma dmap_same:
  assumes "mset (dict_entries d') = mset (dict_entries d)" and "dict_inv norm t d"
  shows "dmap norm d' = dmap norm d" and "distinct (map (norm \<circ> de_key) (dict_entries d'))"
proof -
  have d: "distinct (map (norm \<circ> de_key) (dict_entries d))" using assms(2) by (simp add: dict_inv_def)
  show "distinct (map (norm \<circ> de_key) (dict_entries d'))" using distinct_mset_map [OF assms(1)] d by blast
  show "dmap norm d' = dmap norm d" unfolding dmap_def using map_of_mset [OF assms(1) [symmetric] d] by simp
qed

lemma dmap_dom: "dom (dmap norm d) = (norm \<circ> de_key) ` set (dict_entries d)"
  by (simp add: dmap_def dom_map_of_conv_image_fst image_image comp_def)

lemma dmap_add:
  assumes m: "mset (dict_entries d') = add_mset e (mset (dict_entries d))"
    and inv: "distinct (map (norm \<circ> de_key) (dict_entries d))" and new: "norm (de_key e) \<notin> dom (dmap norm d)"
  shows "distinct (map (norm \<circ> de_key) (dict_entries d'))"
    and "dmap norm d' = (dmap norm d)(norm (de_key e) \<mapsto> de_val e)"
proof -
  have m': "mset (dict_entries d') = mset (e # dict_entries d)" using m by simp
  have d: "distinct (map (norm \<circ> de_key) (e # dict_entries d))" using inv new by (auto simp: dmap_dom)
  then show "distinct (map (norm \<circ> de_key) (dict_entries d'))" using distinct_mset_map [OF m'] by blast
  show "dmap norm d' = (dmap norm d)(norm (de_key e) \<mapsto> de_val e)"
    unfolding dmap_def using map_of_mset [OF m' [symmetric] d] by simp
qed

lemma dmap_update:
  assumes m: "add_mset e (mset (dict_entries d')) = add_mset e' (mset (dict_entries d))"
    and e: "e \<in> set (dict_entries d)" and k: "norm (de_key e') = norm (de_key e)"
    and inv: "distinct (map (norm \<circ> de_key) (dict_entries d))"
  shows "distinct (map (norm \<circ> de_key) (dict_entries d'))"
    and "dmap norm d' = (dmap norm d)(norm (de_key e) \<mapsto> de_val e')"
proof -
  obtain zs where zs: "mset (dict_entries d) = mset (e # zs)"
    using e by (metis insert_DiffM ex_mset mset.simps(2) set_mset_mset)
  with m have zs': "mset (dict_entries d') = mset (e' # zs)" by (simp add: add_mset_commute)
  have d: "distinct (map (norm \<circ> de_key) (e # zs))" using distinct_mset_map [OF zs] inv by blast
  then have d': "distinct (map (norm \<circ> de_key) (e' # zs))" using k by simp
  then show "distinct (map (norm \<circ> de_key) (dict_entries d'))" using distinct_mset_map [OF zs'] by blast
  show "dmap norm d' = (dmap norm d)(norm (de_key e) \<mapsto> de_val e')"
    unfolding dmap_def map_of_mset [OF zs inv] map_of_mset [OF zs' [symmetric] d', symmetric] using k by simp
qed

lemma dmap_remove:
  assumes m: "mset (dict_entries d) = add_mset e (mset (dict_entries d'))"
    and inv: "distinct (map (norm \<circ> de_key) (dict_entries d))"
  shows "distinct (map (norm \<circ> de_key) (dict_entries d'))"
    and "dmap norm d' = (dmap norm d)(norm (de_key e) := None)"
    and "norm (de_key e) \<in> dom (dmap norm d)"
proof -
  have m': "mset (dict_entries d) = mset (e # dict_entries d')" using m by simp
  have d: "distinct (map (norm \<circ> de_key) (e # dict_entries d'))" using distinct_mset_map [OF m'] inv by blast
  then show "distinct (map (norm \<circ> de_key) (dict_entries d'))" by simp
  have new: "norm (de_key e) \<notin> dom (dmap norm d')" using d by (auto simp: dmap_dom)
  have eq: "dmap norm d = (dmap norm d')(norm (de_key e) \<mapsto> de_val e)"
    unfolding dmap_def map_of_mset [OF m' inv] by simp
  then show "norm (de_key e) \<in> dom (dmap norm d)" by simp
  show "dmap norm d' = (dmap norm d)(norm (de_key e) := None)"
    using eq new by (auto simp: fun_eq_iff domIff)
qed

subsection \<open>Operations that keep the contents\<close>

lemma dictRehash_inv:
  assumes inv: "dict_inv norm t d"
  shows "\<exists>d' more. dictRehash t d n = Some (d', more) \<and> dict_inv norm t d'
    \<and> mset (dict_entries d') = mset (dict_entries d) \<and> pauserehash d' = pauserehash d
    \<and> (table (ht0 d) \<noteq> [] \<longrightarrow> table (ht0 d') \<noteq> []) \<and> more = dictIsRehashing d'
    \<and> (dictIsRehashing d \<and> 0 < n \<and> more \<longrightarrow> rehashidx d < rehashidx d' \<and> ht_size (ht0 d') = ht_size (ht0 d))"
proof (cases "dictIsRehashing d")
  case False
  with inv show ?thesis by (auto simp: dictRehash_def)
next
  case True
  obtain d1 stop where l: "rehash_loop t n (int n * 10) d = Some (d1, stop)" "rehashing_inv t d1"
    "mset (dict_entries d1) = mset (dict_entries d)" "pauserehash d1 = pauserehash d"
    "ht_size (ht0 d1) = ht_size (ht0 d)"
    "if n = 0 \<or> used (ht0 d) = 0 then \<not> stop else rehashidx d < rehashidx d1"
    using rehash_loop_inv [OF rehashing_invI [OF inv True], of n "int n * 10"] by blast
  have d1: "dict_inv norm t d1" "dictIsRehashing d1" "table (ht0 d1) \<noteq> []" "table (ht1 d1) \<noteq> []"
    using rehashing_invD [OF l(2)] dmap_same(2) [OF l(3) inv] l(2) by (auto simp: rehashing_inv_def)
  show ?thesis
  proof (cases "stop \<or> used (ht0 d1) \<noteq> 0")
    case True
    have "used (ht0 d) = 0 \<Longrightarrow> d1 = d" using l(1) by (cases n) auto
    then have "0 < n \<longrightarrow> rehashidx d < rehashidx d1" using True l(6) by (auto split: if_splits)
    with True l d1 \<open>dictIsRehashing d\<close> show ?thesis by (auto simp: dictRehash_def)
  next
    case False
    let ?d = "d1\<lparr>ht0 := ht1 d1, ht1 := dictReset, rehashidx := - 1\<rparr>"
    have "ht_entries (ht0 d1) = []" using False d1(1) by (simp add: dict_inv_def ht_inv_def)
    then have m: "mset (dict_entries ?d) = mset (dict_entries d)"
      using l(3) by (simp add: dict_entries_def) (simp add: ht_entries_def dictReset_def)
    have "dict_inv norm t ?d"
      using d1(1) dmap_same(2) [OF m inv] ht_inv_reset by (simp add: dict_inv_def dictIsRehashing_def dictReset_def)
    with False l m d1 \<open>dictIsRehashing d\<close> show ?thesis
      by (auto simp: dictRehash_def) (simp_all add: dictIsRehashing_def)
  qed
qed

lemma rehash_if_needed:
  assumes inv: "dict_inv norm t d"
  shows "\<exists>d'. (if dictIsRehashing d then dictRehashStep t d else Some d) = Some d' \<and> dict_inv norm t d'
    \<and> mset (dict_entries d') = mset (dict_entries d) \<and> pauserehash d' = pauserehash d
    \<and> (table (ht0 d) \<noteq> [] \<longrightarrow> table (ht0 d') \<noteq> [])"
proof (cases "dictIsRehashing d \<and> pauserehash d = 0")
  case True
  obtain d' more where "dictRehash t d 1 = Some (d', more)" "dict_inv norm t d'"
    "mset (dict_entries d') = mset (dict_entries d)" "pauserehash d' = pauserehash d"
    "table (ht0 d) \<noteq> [] \<longrightarrow> table (ht0 d') \<noteq> []"
    using dictRehash_inv [OF inv, of 1] by blast
  with True show ?thesis by (intro exI [of _ d']) (simp add: dictRehashStep_def)
next
  case False
  with inv show ?thesis by (intro exI [of _ d]) (auto simp: dictRehashStep_def)
qed

lemma dictExpandImpl_inv:
  assumes inv: "dict_inv norm t d" and e: "dictExpandImpl d sz alloc = (d', ok, failed)"
  shows "dict_inv norm t d'" and "mset (dict_entries d') = mset (dict_entries d)"
    and "pauserehash d' = pauserehash d" and "table (ht0 d) \<noteq> [] \<or> ok \<Longrightarrow> table (ht0 d') \<noteq> []"
proof -
  obtain a where a: "2 \<le> a" "a < 64" "dictNextPower sz = 2 ^ a"
    using dictNextPower_pow [of sz] by blast
  define n :: "('a, 'c) dictht" where
    "n = \<lparr>table = replicate (2 ^ a) [], ht_size = 2 ^ a, sizemask = of_nat (2 ^ a) - 1, used = 0\<rparr>"
  have n: "ht_entries n = []" "table n \<noteq> []" by (simp_all add: n_def ht_entries_def)
  have "(of_nat (2 ^ a) - 1 :: 64 word) = mask a" by (simp add: mask_eq_exp_minus_1)
  then have n_inv: "ht_inv t n" using a by (auto simp: ht_inv_def ht_shape_def n_def ht_entries_def)
  have d': "\<not> ok \<and> d' = d
      \<or> ok \<and> \<not> dictIsRehashing d \<and> table (ht0 d) = [] \<and> d' = d\<lparr>ht0 := n\<rparr>
      \<or> ok \<and> \<not> dictIsRehashing d \<and> table (ht0 d) \<noteq> [] \<and> d' = d\<lparr>ht1 := n, rehashidx := 0\<rparr>"
    using e a(3) by (auto simp: dictExpandImpl_def Let_def n_def split: if_splits)
  have e: "ht_entries (ht1 d) = []" if "\<not> dictIsRehashing d"
    using inv that by (simp add: dict_inv_def ht_entries_def)
  show m: "mset (dict_entries d') = mset (dict_entries d)"
    using d' n e by (auto simp: dict_entries_def) (simp_all add: ht_entries_def)
  show "dict_inv norm t d'"
    using d' n n_inv inv dmap_same(2) [OF m inv] by (auto simp: dict_inv_def dictIsRehashing_def)
  show "pauserehash d' = pauserehash d" using d' by auto
  show "table (ht0 d) \<noteq> [] \<or> ok \<Longrightarrow> table (ht0 d') \<noteq> []" using d' n by auto
qed

lemma dictExpand_inv:
  assumes "dict_inv norm t d" and "dictExpand d sz = (d', ok)"
  shows "dict_inv norm t d'" and "mset (dict_entries d') = mset (dict_entries d)"
    and "pauserehash d' = pauserehash d" and "table (ht0 d) \<noteq> [] \<or> ok \<Longrightarrow> table (ht0 d') \<noteq> []"
proof -
  obtain failed where "dictExpandImpl d sz True = (d', ok, failed)"
    using assms(2) by (auto simp: dictExpand_def split: prod.splits)
  from dictExpandImpl_inv [OF assms(1) this]
  show "dict_inv norm t d'" "mset (dict_entries d') = mset (dict_entries d)"
    "pauserehash d' = pauserehash d" "table (ht0 d) \<noteq> [] \<or> ok \<Longrightarrow> table (ht0 d') \<noteq> []" by blast+
qed

text \<open>The expansion a full table asks for never fails.\<close>

lemma dictExpandIfNeeded_inv:
  assumes inv: "dict_inv norm t d" and bound: "used (ht0 d) < 2 ^ 63"
  shows "\<exists>d'. dictExpandIfNeeded t can d = (d', True) \<and> dict_inv norm t d'
    \<and> mset (dict_entries d') = mset (dict_entries d) \<and> pauserehash d' = pauserehash d \<and> table (ht0 d') \<noteq> []"
proof -
  have shape: "ht_shape (ht0 d)" "length (table (ht0 d)) = ht_size (ht0 d)" "used (ht0 d) = length (ht_entries (ht0 d))"
    using inv by (auto simp: dict_inv_def ht_inv_def ht_shape_def)
  consider "dictIsRehashing d" | "\<not> dictIsRehashing d" "ht_size (ht0 d) = 0"
    | "\<not> dictIsRehashing d" "ht_size (ht0 d) \<noteq> 0" by blast
  then show ?thesis
  proof cases
    case 1
    with inv show ?thesis by (auto simp: dictExpandIfNeeded_def dict_inv_def)
  next
    case 2
    then have "used (ht0 d) = 0" using shape by (simp add: ht_entries_def)
    moreover have "dictNextPower DICT_HT_INITIAL_SIZE = 4"
      by (simp add: dictNextPower_def DICT_HT_INITIAL_SIZE_def dictNextPower_loop.simps)
    ultimately have "snd (dictExpand d DICT_HT_INITIAL_SIZE)"
      using 2 by (simp add: dictExpand_def dictExpandImpl_def Let_def DICT_HT_INITIAL_SIZE_def)
    then obtain d' where d': "dictExpand d DICT_HT_INITIAL_SIZE = (d', True)"
      by (metis (full_types) prod.collapse)
    from dictExpand_inv [OF inv d'] d' 2 show ?thesis by (auto simp: dictExpandIfNeeded_def)
  next
    case 3
    then have ne: "table (ht0 d) \<noteq> []" using shape(2) by auto
    show ?thesis
    proof (cases "used (ht0 d) \<ge> ht_size (ht0 d)")
      case False
      with inv 3 ne show ?thesis by (auto simp: dictExpandIfNeeded_def)
    next
      case True
      obtain a where "dictNextPower (used (ht0 d) + 1) = 2 ^ a" "used (ht0 d) + 1 \<le> 2 ^ a"
        using dictNextPower_pow [of "used (ht0 d) + 1"] bound by auto
      then have "dictNextPower (used (ht0 d) + 1) \<noteq> ht_size (ht0 d)" using True by auto
      then have "snd (dictExpand d (used (ht0 d) + 1))"
        using 3 by (auto simp: dictExpand_def dictExpandImpl_def Let_def)
      then obtain d' where d': "dictExpand d (used (ht0 d) + 1) = (d', True)" by (metis (full_types) prod.collapse)
      from dictExpand_inv [OF inv d'] d' ne inv 3 show ?thesis by (auto simp: dictExpandIfNeeded_def)
    qed
  qed
qed

section \<open>What a dictionary type promises\<close>

text \<open>
  The contract between \<open>dict.c\<close> and the callbacks of a \<open>dictType\<close>: \<open>norm\<close> is what a key stands
  for; the comparison decides equality of that, the hash depends on nothing else, and duplicating
  a key keeps it.
\<close>

locale dict_type =
  fixes t :: "('k, 'v) dictType" and norm :: "'k \<Rightarrow> 'n"
  assumes compare_norm: "dictCompareKeys t a b \<longleftrightarrow> norm a = norm b"
    and hash_norm: "norm a = norm b \<Longrightarrow> hashFunction t a = hashFunction t b"
    and dup_norm: "keyDup t = Some f \<Longrightarrow> norm (f a) = norm a"

definition valid_ref :: "('k, 'v) dict \<Rightarrow> dref \<Rightarrow> bool" where
  "valid_ref d r = (case r of (tab, idx, p) \<Rightarrow>
     tab \<le> 1 \<and> idx < length (table (sel_ht d tab)) \<and> p < length (table (sel_ht d tab) ! idx))"

lemma dict_inv_upd:
  assumes "dict_inv norm t d" and "ht_inv t ht'" and "table (sel_ht d tab) \<noteq> []"
    and "length (table ht') = length (table (sel_ht d tab))" and "ht_size ht' = ht_size (sel_ht d tab)"
    and "tab = 0 \<Longrightarrow> \<forall>i < nat (rehashidx d). table ht' ! i = []"
    and "tab \<le> 1"
    and "distinct (map (norm \<circ> de_key) (dict_entries (upd_ht tab (\<lambda>_. ht') d)))"
  shows "dict_inv norm t (upd_ht tab (\<lambda>_. ht') d)"
  using assms by (auto simp: dict_inv_def upd_ht_def sel_ht_def dictIsRehashing_def split: if_splits)

lemma entries_upd:
  "mset (ht_entries ht') + B = mset (ht_entries (sel_ht d tab)) + C \<Longrightarrow> tab \<le> 1 \<Longrightarrow>
    mset (dict_entries (upd_ht tab (\<lambda>_. ht') d)) + B = mset (dict_entries d) + C"
  by (auto simp: dict_entries_def upd_ht_def sel_ht_def ac_simps)

lemma sel_ht_inv: "dict_inv norm t d \<Longrightarrow> ht_inv t (sel_ht d tab)"
  by (simp add: dict_inv_def sel_ht_def)

lemma upd_ht_const: "upd_ht tab f d = upd_ht tab (\<lambda>_. f (sel_ht d tab)) d"
  by (simp add: upd_ht_def sel_ht_def)

lemma mem_dict_entries:
  "tab \<le> 1 \<Longrightarrow> c \<in> set (table (sel_ht d tab)) \<Longrightarrow> e \<in> set c \<Longrightarrow> e \<in> set (dict_entries d)"
  by (auto simp: dict_entries_def ht_entries_def sel_ht_def split: if_splits)

lemma deref_mem: "valid_ref d r \<Longrightarrow> deref d r \<in> set (dict_entries d)"
proof (cases r)
  case (fields tab idx p)
  assume "valid_ref d r"
  then have "tab \<le> 1" "table (sel_ht d tab) ! idx \<in> set (table (sel_ht d tab))"
    "deref d r \<in> set (table (sel_ht d tab) ! idx)"
    by (simp_all add: valid_ref_def fields)
  then show ?thesis by (rule mem_dict_entries)
qed

text \<open>Replacing the chain at a position that holds an entry, or the target of an insertion.\<close>

lemma chain_upd:
  assumes inv: "dict_inv norm t d" and tab: "tab \<le> 1" and idx: "idx < length (table (sel_ht d tab))"
    and c: "\<forall>e \<in> set c. bucket_idx (sel_ht d tab) (hashFunction t (de_key e)) = idx"
    and u: "u + length (table (sel_ht d tab) ! idx) = used (sel_ht d tab) + length c"
    and live: "tab = 0 \<Longrightarrow> nat (rehashidx d) \<le> idx"
  defines "d' \<equiv> upd_ht tab (\<lambda>ht. ht\<lparr>table := (table ht)[idx := c], used := u\<rparr>) d"
  shows "mset (dict_entries d') + mset (table (sel_ht d tab) ! idx) = mset (dict_entries d) + mset c"
    and "distinct (map (norm \<circ> de_key) (dict_entries d')) \<Longrightarrow> dict_inv norm t d'"
proof -
  let ?ht = "(sel_ht d tab)\<lparr>table := (table (sel_ht d tab))[idx := c], used := u\<rparr>"
  have d': "d' = upd_ht tab (\<lambda>_. ?ht) d" unfolding d'_def by (subst upd_ht_const) simp
  note h = ht_chain_update [OF sel_ht_inv [OF inv] idx c u]
  show "mset (dict_entries d') + mset (table (sel_ht d tab) ! idx) = mset (dict_entries d) + mset c"
    unfolding d' using h(2) tab by (intro entries_upd) simp_all
  have keep: "\<forall>i < nat (rehashidx d). table ?ht ! i = []" if "tab = 0"
    using inv live [OF that] that by (auto simp: dict_inv_def sel_ht_def dictIsRehashing_def split: if_splits)
  show "distinct (map (norm \<circ> de_key) (dict_entries d')) \<Longrightarrow> dict_inv norm t d'"
    unfolding d' using h(1) keep idx tab by (intro dict_inv_upd [OF inv]) auto
qed

lemma chain_live:
  assumes "dict_inv norm t d" and "table (sel_ht d 0) ! idx \<noteq> []"
  shows "nat (rehashidx d) \<le> idx"
  using assms by (cases "dictIsRehashing d") (auto simp: dict_inv_def sel_ht_def dictIsRehashing_def not_less [symmetric])

text \<open>What \<open>dictAddRaw\<close> leaves: an entry for the key, old or new.\<close>

definition add_post ::
  "('k \<Rightarrow> 'n) \<Rightarrow> ('k, 'v) dict \<Rightarrow> 'k \<Rightarrow> ('k, 'v) dict \<Rightarrow> dref option + dref \<Rightarrow> bool" where
  "add_post norm d key d' r =
     (case r of
       Inl existing \<Rightarrow> (\<exists>ref. existing = Some ref \<and> valid_ref d' ref \<and> norm (de_key (deref d' ref)) = norm key)
         \<and> norm key \<in> dom (dmap norm d) \<and> dmap norm d' = dmap norm d \<and> length (dict_entries d') = length (dict_entries d)
     | Inr ref \<Rightarrow> norm key \<notin> dom (dmap norm d) \<and> valid_ref d' ref \<and> norm (de_key (deref d' ref)) = norm key
         \<and> dmap norm d' = (dmap norm d)(norm key \<mapsto> None) \<and> length (dict_entries d') = Suc (length (dict_entries d)))"

context dict_type
begin

lemma sameKey_norm: "sameKey t a b \<longleftrightarrow> norm a = norm b"
  by (auto simp: sameKey_def compare_norm)

lemma find_pos_None: "find_pos t key c = None \<longleftrightarrow> (\<forall>e \<in> set c. norm (de_key e) \<noteq> norm key)"
  by (induction c) (auto simp: sameKey_norm)

lemma find_pos_Some: "find_pos t key c = Some p \<Longrightarrow> p < length c \<and> norm (de_key (c ! p)) = norm key"
  by (induction c arbitrary: p) (auto simp: sameKey_norm split: if_splits)

lemma bucket_miss:
  assumes "ht_inv t ht" and "find_pos t key (table ht ! bucket_idx ht (hashFunction t key)) = None"
  shows "norm key \<notin> (norm \<circ> de_key) ` set (ht_entries ht)"
proof
  assume "norm key \<in> (norm \<circ> de_key) ` set (ht_entries ht)"
  then obtain e i where e: "norm (de_key e) = norm key" "i < length (table ht)" "e \<in> set (table ht ! i)"
    by (auto simp: ht_entries_def in_set_conv_nth [of _ "table ht"])
  with assms(1) have "bucket_idx ht (hashFunction t (de_key e)) = i" by (auto simp: ht_inv_def)
  moreover have "hashFunction t (de_key e) = hashFunction t key" using hash_norm e(1) by blast
  ultimately show False using e assms(2) by (auto simp: find_pos_None)
qed

lemma dictSearch_inv:
  assumes inv: "dict_inv norm t d" and ne: "table (ht0 d) \<noteq> []"
  shows "\<exists>r. dictSearch t d key (hashFunction t key) = Some r \<and>
    (case r of None \<Rightarrow> norm key \<notin> dom (dmap norm d)
     | Some ref \<Rightarrow> valid_ref d ref \<and> norm (de_key (deref d ref)) = norm key)"
proof -
  let ?h = "hashFunction t key"
  let ?i0 = "bucket_idx (ht0 d) ?h" and ?i1 = "bucket_idx (ht1 d) ?h"
  have inv0: "ht_inv t (ht0 d)" and inv1: "ht_inv t (ht1 d)" using inv by (simp_all add: dict_inv_def)
  have i0: "?i0 < length (table (ht0 d))" using inv0 ne by (auto simp: ht_inv_def ht_shape_idx)
  show ?thesis
  proof (cases "find_pos t key (table (ht0 d) ! ?i0)")
    case (Some p)
    with i0 find_pos_Some [OF Some] show ?thesis by (auto simp: dictSearch_def valid_ref_def sel_ht_def)
  next
    case None
    note miss0 = bucket_miss [OF inv0 None]
    show ?thesis
    proof (cases "dictIsRehashing d")
      case False
      then have "ht_entries (ht1 d) = []" using inv by (simp add: dict_inv_def ht_entries_def)
      with None False i0 miss0 show ?thesis by (auto simp: dictSearch_def dmap_dom dict_entries_def)
    next
      case True
      then have "?i1 < length (table (ht1 d))" using inv by (auto simp: dict_inv_def ht_inv_def ht_shape_idx)
      with None True i0 miss0 bucket_miss [OF inv1, of key] find_pos_Some [of key "table (ht1 d) ! ?i1"]
      show ?thesis
        by (cases "find_pos t key (table (ht1 d) ! ?i1)")
          (auto simp: dictSearch_def dmap_dom dict_entries_def valid_ref_def sel_ht_def)
    qed
  qed
qed

lemma upd_entry_inv:
  assumes inv: "dict_inv norm t d" and r: "valid_ref d r"
    and k: "de_key (f (deref d r)) = de_key (deref d r)"
  shows "dict_inv norm t (upd_entry f r d)"
    and "dmap norm (upd_entry f r d) = (dmap norm d)(norm (de_key (deref d r)) \<mapsto> de_val (f (deref d r)))"
    and "length (dict_entries (upd_entry f r d)) = length (dict_entries d)"
proof -
  obtain tab idx p where rr: "r = (tab, idx, p)" by (cases r) auto
  let ?ht = "sel_ht d tab" and ?c = "table (sel_ht d tab) ! idx"
  let ?c' = "?c[p := f (?c ! p)]"
  have v: "tab \<le> 1" "idx < length (table ?ht)" "p < length ?c" using r by (simp_all add: rr valid_ref_def)
  have inv': "ht_inv t ?ht" using sel_ht_inv [OF inv] .
  have u: "used ?ht + length ?c = used ?ht + length ?c'" by simp
  have c: "\<forall>e \<in> set ?c'. bucket_idx ?ht (hashFunction t (de_key e)) = idx"
  proof
    fix e assume "e \<in> set ?c'"
    then have "e \<in> set ?c \<or> e = f (?c ! p)" using set_update_subset_insert by fastforce
    then have "de_key e \<in> de_key ` set ?c" using k v(3) by (auto simp: rr)
    then show "bucket_idx ?ht (hashFunction t (de_key e)) = idx" using inv' v(2) by (auto simp: ht_inv_def)
  qed
  have live: "tab = 0 \<Longrightarrow> nat (rehashidx d) \<le> idx" using chain_live [OF inv, of idx] v by force
  have eq: "upd_entry f r d = upd_ht tab (\<lambda>ht. ht\<lparr>table := (table ht)[idx := ?c'], used := used ?ht\<rparr>) d"
    by (simp add: rr upd_ht_def sel_ht_def)
  note cu = chain_upd [OF inv v(1,2) c u live, folded eq]
  have "mset ?c' = add_mset (f (?c ! p)) (mset ?c - {#?c ! p#})" using v(3) by (simp add: mset_update)
  moreover have pc: "?c ! p \<in># mset ?c" using v(3) by simp
  ultimately have "add_mset (?c ! p) (mset ?c') = add_mset (f (?c ! p)) (mset ?c)" by simp
  with cu(1) have "mset ?c + add_mset (?c ! p) (mset (dict_entries (upd_entry f r d)))
      = mset ?c + add_mset (f (?c ! p)) (mset (dict_entries d))"
    by (simp add: add.commute)
  then have m: "add_mset (deref d r) (mset (dict_entries (upd_entry f r d)))
      = add_mset (f (deref d r)) (mset (dict_entries d))"
    by (simp add: rr)
  have e: "deref d r \<in> set (dict_entries d)" using r by (rule deref_mem)
  note du = dmap_update [OF m e, of norm]
  have "norm (de_key (f (deref d r))) = norm (de_key (deref d r))" using k by simp
  note du = du [OF this]
  show "dict_inv norm t (upd_entry f r d)"
    "dmap norm (upd_entry f r d) = (dmap norm d)(norm (de_key (deref d r)) \<mapsto> de_val (f (deref d r)))"
    using du cu(2) inv by (simp_all add: dict_inv_def)
  show "length (dict_entries (upd_entry f r d)) = length (dict_entries d)"
    using arg_cong [OF m, of size] by simp
qed

lemma dictSize_entries: "dict_inv norm t d \<Longrightarrow> dictSize d = length (dict_entries d)"
  by (simp add: dict_inv_def ht_inv_def dictSize_def dict_entries_def)

lemma ht_used_le: "dict_inv norm t d \<Longrightarrow> used (ht0 d) \<le> length (dict_entries d)"
  by (simp add: dict_inv_def ht_inv_def dict_entries_def)

lemma norm_dictSetKey: "norm (dictSetKey t key) = norm key"
  by (simp add: dictSetKey_def dup_norm split: option.splits)

lemma dictAddRaw_inv:
  assumes inv: "dict_inv norm t d" and bound: "dictSize d < 2 ^ 63"
  shows "\<exists>d' r. dictAddRaw t can d key = Some (d', r) \<and> dict_inv norm t d' \<and>
    add_post norm d key d' r"
proof -
  obtain d1 where d1: "(if dictIsRehashing d then dictRehashStep t d else Some d) = Some d1"
    "dict_inv norm t d1" "mset (dict_entries d1) = mset (dict_entries d)"
    using rehash_if_needed [OF inv] by blast
  have b1: "used (ht0 d1) < 2 ^ 63"
    using ht_used_le [OF d1(2)] mset_eq_length [OF d1(3)] bound dictSize_entries [OF inv] by simp
  obtain d2 where d2: "dictExpandIfNeeded t can d1 = (d2, True)" "dict_inv norm t d2"
    "mset (dict_entries d2) = mset (dict_entries d)" "table (ht0 d2) \<noteq> []"
    using dictExpandIfNeeded_inv [OF d1(2) b1, of can] d1(3) by auto
  have map2: "dmap norm d2 = dmap norm d" "length (dict_entries d2) = length (dict_entries d)"
    using dmap_same(1) [OF d2(3) inv] mset_eq_length [OF d2(3)] by simp_all
  obtain s where s: "dictSearch t d2 key (hashFunction t key) = Some s"
    "case s of None \<Rightarrow> norm key \<notin> dom (dmap norm d2)
      | Some ref \<Rightarrow> valid_ref d2 ref \<and> norm (de_key (deref d2 ref)) = norm key"
    using dictSearch_inv [OF d2(2,4), of key] by blast
  show ?thesis
  proof (cases s)
    case (Some ref)
    then have ref: "valid_ref d2 ref" "norm (de_key (deref d2 ref)) = norm key" using s(2) by simp_all
    have "norm key \<in> dom (dmap norm d2)"
      unfolding dmap_dom using deref_mem [OF ref(1)] ref(2) by (auto intro: rev_image_eqI)
    then have "norm key \<in> dom (dmap norm d)" using map2 by simp
    with Some s d1(1) d2(1,2) ref map2 show ?thesis
      by (intro exI [of _ d2] exI [of _ "Inl (Some ref)"]) (simp add: dictAddRaw_def dictKeyIndex_def add_post_def)
  next
    case None
    let ?tab = "if dictIsRehashing d2 then 1 else 0 :: nat"
    let ?ht = "sel_ht d2 ?tab" and ?e = "\<lparr>de_key = dictSetKey t key, de_val = None\<rparr>"
    let ?i = "bucket_idx ?ht (hashFunction t key)"
    define d' where "d' = upd_ht ?tab (\<lambda>ht. ht\<lparr>table := (table ht)[?i := ?e # table ?ht ! ?i], used := used ?ht + 1\<rparr>) d2"
    have inv': "ht_inv t ?ht" "table ?ht \<noteq> []" using sel_ht_inv [OF d2(2)] d2(2,4) by (auto simp: sel_ht_def dict_inv_def)
    have i: "?i < length (table ?ht)" using inv' by (auto simp: ht_inv_def ht_shape_idx)
    have h: "hashFunction t (dictSetKey t key) = hashFunction t key" using hash_norm norm_dictSetKey by blast
    have c: "\<forall>e \<in> set (?e # table ?ht ! ?i). bucket_idx ?ht (hashFunction t (de_key e)) = ?i"
      using inv'(1) i h by (auto simp: ht_inv_def)
    have u: "used ?ht + 1 + length (table ?ht ! ?i) = used ?ht + length (?e # table ?ht ! ?i)" by simp
    have live: "?tab = 0 \<Longrightarrow> nat (rehashidx d2) \<le> ?i" by (auto simp: dictIsRehashing_def split: if_splits)
    have tab: "?tab \<le> 1" by simp
    note cu = chain_upd [OF d2(2) tab i c u live, folded d'_def]
    have m: "mset (dict_entries d') = add_mset ?e (mset (dict_entries d2))" using cu(1) by simp
    have new: "norm (de_key ?e) \<notin> dom (dmap norm d2)" using None s(2) by (simp add: norm_dictSetKey)
    note da = dmap_add [OF m _ new]
    have dd: "distinct (map (norm \<circ> de_key) (dict_entries d2))" using d2(2) by (simp add: dict_inv_def)
    have d': "dict_inv norm t d'" "dmap norm d' = (dmap norm d)(norm key \<mapsto> None)"
      using da [OF dd] cu(2) map2 by (simp_all add: norm_dictSetKey)
    have len: "length (dict_entries d') = Suc (length (dict_entries d))"
      using arg_cong [OF m, of size] map2 by simp
    have ref: "valid_ref d' (?tab, ?i, 0)" "deref d' (?tab, ?i, 0) = ?e"
      using i by (simp_all add: valid_ref_def d'_def upd_ht_def sel_ht_def split: if_splits)
    have "dictAddRaw t can d key = Some (d', Inr (?tab, ?i, 0))"
      using d1(1) d2(1) s(1) None i by (simp add: dictAddRaw_def dictKeyIndex_def d'_def upd_ht_def sel_ht_def)
    with d' len ref new map2 show ?thesis
      by (intro exI [of _ d'] exI [of _ "Inr (?tab, ?i, 0)"]) (simp add: norm_dictSetKey add_post_def)
  qed
qed

lemma dictSetVal_inv:
  assumes "dict_inv norm t d" and "valid_ref d r"
  shows "dict_inv norm t (dictSetVal t r v d)"
    and "dmap norm (dictSetVal t r v d) = (dmap norm d)(norm (de_key (deref d r)) \<mapsto> Some (stored_val t v))"
    and "length (dict_entries (dictSetVal t r v d)) = length (dict_entries d)"
  using upd_entry_inv [OF assms, of "\<lambda>e. e\<lparr>de_val := Some (stored_val t v)\<rparr>"] by (simp_all add: dictSetVal_def)

lemma dictAdd_inv:
  assumes "dict_inv norm t d" and "dictSize d < 2 ^ 63"
  shows "\<exists>d'. dictAdd t can d key v = Some (d', norm key \<notin> dom (dmap norm d)) \<and> dict_inv norm t d'
    \<and> dmap norm d' = (if norm key \<in> dom (dmap norm d) then dmap norm d
                      else (dmap norm d)(norm key \<mapsto> Some (stored_val t v)))
    \<and> dictSize d' \<le> Suc (dictSize d)"
proof -
  obtain d' r where a: "dictAddRaw t can d key = Some (d', r)" "dict_inv norm t d'"
    and r: "add_post norm d key d' r"
    using dictAddRaw_inv [OF assms, of can key] by blast
  show ?thesis
  proof (cases r)
    case (Inl ex)
    with a r assms(1) show ?thesis by (auto simp: dictAdd_def dictSize_entries add_post_def)
  next
    case (Inr ref)
    with r have "valid_ref d' ref" by (simp add: add_post_def)
    note sv = dictSetVal_inv [OF a(2) this, of v]
    from Inr a(1) r sv assms(1) show ?thesis
      by (intro exI [of _ "dictSetVal t ref v d'"]) (auto simp: dictAdd_def dictSize_entries add_post_def)
  qed
qed

lemma dictReplace_inv:
  assumes "dict_inv norm t d" and "dictSize d < 2 ^ 63"
  shows "\<exists>d'. dictReplace t can d key v = Some (d', norm key \<notin> dom (dmap norm d)) \<and> dict_inv norm t d'
    \<and> dmap norm d' = (dmap norm d)(norm key \<mapsto> Some (stored_val t v)) \<and> dictSize d' \<le> Suc (dictSize d)"
proof -
  obtain d' r where a: "dictAddRaw t can d key = Some (d', r)" "dict_inv norm t d'"
    and r: "add_post norm d key d' r"
    using dictAddRaw_inv [OF assms, of can key] by blast
  then obtain ref where ref: "valid_ref d' ref" "norm (de_key (deref d' ref)) = norm key"
    "r = Inl (Some ref) \<or> r = Inr ref" by (auto simp: add_post_def split: sum.splits)
  note sv = dictSetVal_inv [OF a(2) ref(1), of v]
  from ref a(1) r sv assms(1) show ?thesis
    by (intro exI [of _ "dictSetVal t ref v d'"]) (auto simp: dictReplace_def dictSize_entries add_post_def)
qed

lemma dmap_entry: "dict_inv norm t d \<Longrightarrow> e \<in> set (dict_entries d) \<Longrightarrow> dmap norm d (norm (de_key e)) = Some (de_val e)"
  by (auto simp: dict_inv_def dmap_def comp_def intro!: map_of_is_SomeI)

lemma dmap_empty: "dict_inv norm t d \<Longrightarrow> dictSize d = 0 \<Longrightarrow> dmap norm d = Map.empty"
  by (simp add: dictSize_entries dmap_def)

lemma nonempty_table: "dict_inv norm t d \<Longrightarrow> dictSize d \<noteq> 0 \<Longrightarrow> table (ht0 d) \<noteq> []"
  by (auto simp: dict_inv_def dictSize_def ht_inv_def ht_entries_def split: if_splits)

lemma dictFind_inv:
  assumes inv: "dict_inv norm t d"
  shows "\<exists>d' r. dictFind t d key = Some (d', r) \<and> dict_inv norm t d' \<and> dmap norm d' = dmap norm d
    \<and> dictSize d' = dictSize d
    \<and> (case r of None \<Rightarrow> norm key \<notin> dom (dmap norm d)
       | Some ref \<Rightarrow> valid_ref d' ref \<and> norm (de_key (deref d' ref)) = norm key)"
proof (cases "dictSize d = 0")
  case True
  with inv dmap_empty [OF inv True] show ?thesis by (simp add: dictFind_def)
next
  case False
  obtain d1 where d1: "(if dictIsRehashing d then dictRehashStep t d else Some d) = Some d1"
    "dict_inv norm t d1" "mset (dict_entries d1) = mset (dict_entries d)" "table (ht0 d1) \<noteq> []"
    using rehash_if_needed [OF inv] nonempty_table [OF inv False] by blast
  have same: "dmap norm d1 = dmap norm d" "dictSize d1 = dictSize d"
    using dmap_same(1) [OF d1(3) inv] mset_eq_length [OF d1(3)] by (simp_all add: dictSize_entries inv d1(2))
  obtain r where "dictSearch t d1 key (hashFunction t key) = Some r"
    "case r of None \<Rightarrow> norm key \<notin> dom (dmap norm d)
     | Some ref \<Rightarrow> valid_ref d1 ref \<and> norm (de_key (deref d1 ref)) = norm key"
    using dictSearch_inv [OF d1(2,4), of key] unfolding same by blast
  with d1 same False show ?thesis
    by (intro exI [of _ d1] exI [of _ r]) (simp add: dictFind_def)
qed

lemma dictFetchValue_inv:
  assumes inv: "dict_inv norm t d"
  shows "\<exists>d'. dictFetchValue t d key = Some (d', case dmap norm d (norm key) of Some v \<Rightarrow> v | None \<Rightarrow> None)
    \<and> dict_inv norm t d' \<and> dmap norm d' = dmap norm d \<and> dictSize d' = dictSize d"
proof -
  obtain d' r where f: "dictFind t d key = Some (d', r)" "dict_inv norm t d'" "dmap norm d' = dmap norm d"
    "dictSize d' = dictSize d"
    and r: "case r of None \<Rightarrow> norm key \<notin> dom (dmap norm d)
       | Some ref \<Rightarrow> valid_ref d' ref \<and> norm (de_key (deref d' ref)) = norm key"
    using dictFind_inv [OF inv] by blast
  have "(case r of Some r \<Rightarrow> de_val (deref d' r) | None \<Rightarrow> None) = (case dmap norm d (norm key) of Some v \<Rightarrow> v | None \<Rightarrow> None)"
  proof (cases r)
    case (Some ref)
    with r f(3) dmap_entry [OF f(2) deref_mem, of ref] show ?thesis by auto
  next
    case None
    with r show ?thesis by (auto simp: domIff)
  qed
  with f show ?thesis by (intro exI [of _ d']) (simp add: dictFetchValue_def)
qed

lemma dictGenericDelete_inv:
  assumes inv: "dict_inv norm t d"
  shows "\<exists>d' he. dictGenericDelete t d key = Some (d', he) \<and> dict_inv norm t d'
    \<and> dmap norm d' = (dmap norm d)(norm key := None)
    \<and> dictSize d' \<le> dictSize d \<and> map_option de_val he = dmap norm d (norm key)"
proof (cases "dictSize d = 0")
  case True
  with inv dmap_empty [OF inv True] show ?thesis by (auto simp: dictGenericDelete_def dictSize_def)
next
  case False
  obtain d1 where d1: "(if dictIsRehashing d then dictRehashStep t d else Some d) = Some d1"
    "dict_inv norm t d1" "mset (dict_entries d1) = mset (dict_entries d)" "table (ht0 d1) \<noteq> []"
    using rehash_if_needed [OF inv] nonempty_table [OF inv False] by blast
  have same: "dmap norm d1 = dmap norm d" "dictSize d1 = dictSize d"
    using dmap_same(1) [OF d1(3) inv] mset_eq_length [OF d1(3)] by (simp_all add: dictSize_entries inv d1(2))
  obtain r where r: "dictSearch t d1 key (hashFunction t key) = Some r"
    "case r of None \<Rightarrow> norm key \<notin> dom (dmap norm d1)
     | Some ref \<Rightarrow> valid_ref d1 ref \<and> norm (de_key (deref d1 ref)) = norm key"
    using dictSearch_inv [OF d1(2,4), of key] by blast
  show ?thesis
  proof (cases r)
    case None
    then have "dmap norm d (norm key) = None" using r(2) same by (simp add: domIff)
    with None r(1) d1 same False show ?thesis
      by (intro exI [of _ d1] exI [of _ None]) (auto simp: dictGenericDelete_def dictSize_def)
  next
    case (Some ref)
    obtain tab idx p where rr: "ref = (tab, idx, p)" by (cases ref) auto
    let ?ht = "sel_ht d1 tab" and ?c = "table (sel_ht d1 tab) ! idx"
    let ?c' = "take p ?c @ drop (Suc p) ?c"
    define d' where "d' = upd_ht tab (\<lambda>ht. ht\<lparr>table := (table ht)[idx := ?c'], used := used ?ht - 1\<rparr>) d1"
    have v: "tab \<le> 1" "idx < length (table ?ht)" "p < length ?c" and k: "norm (de_key (?c ! p)) = norm key"
      using r(2) Some by (simp_all add: rr valid_ref_def)
    have inv': "ht_inv t ?ht" using sel_ht_inv [OF d1(2)] .
    have sp: "?c = take p ?c @ ?c ! p # drop (Suc p) ?c" using v(3) by (rule id_take_nth_drop)
    have mc: "mset ?c = add_mset (?c ! p) (mset ?c')" by (subst sp) simp
    have "?c ! p \<in> set (ht_entries ?ht)" using v by (auto simp: ht_entries_def intro!: bexI [of _ ?c])
    then have pos: "used ?ht > 0" using inv' by (auto simp: ht_inv_def)
    have lc: "length ?c = Suc (length ?c')" using v(3) by simp
    have u: "used ?ht - 1 + length ?c = used ?ht + length ?c'" using pos lc by linarith
    have c: "\<forall>e \<in> set ?c'. bucket_idx ?ht (hashFunction t (de_key e)) = idx"
      using inv' v(2) by (auto simp: ht_inv_def dest: in_set_takeD in_set_dropD)
    have live: "tab = 0 \<Longrightarrow> nat (rehashidx d1) \<le> idx" using chain_live [OF d1(2), of idx] v by force
    note cu = chain_upd [OF d1(2) v(1,2) c u live, folded d'_def]
    have m: "mset (dict_entries d1) = add_mset (?c ! p) (mset (dict_entries d'))"
      using cu(1) unfolding mc by simp
    have dd: "distinct (map (norm \<circ> de_key) (dict_entries d1))" using d1(2) by (simp add: dict_inv_def)
    note dr = dmap_remove [OF m dd]
    have inv2: "dict_inv norm t d'" using cu(2) dr(1) by blast
    have sz: "dictSize d1 = Suc (dictSize d')" using arg_cong [OF m, of size] by (simp add: dictSize_entries inv2 d1(2))
    have "?c ! p \<in> set (dict_entries d1)" using r(2) Some deref_mem [of d1 ref] by (simp add: rr)
    then have "dmap norm d (norm key) = Some (de_val (?c ! p))" using dmap_entry [OF d1(2)] k same by metis
    moreover have "dictGenericDelete t d key = Some (d', Some (?c ! p))"
      using d1(1) r(1) Some False
      by (simp add: dictGenericDelete_def dictSize_def rr d'_def upd_ht_def sel_ht_def Let_def)
    ultimately show ?thesis using inv2 dr(2) k same sz by (intro exI [of _ d'] exI [of _ "Some (?c ! p)"]) simp
  qed
qed

lemma clear_loop_inv:
  assumes "length (table ht) = ht_size ht" and "left = length (concat (drop i (table ht)))"
  shows "clear_loop ht i left = Some (concat (drop i (table ht)))"
  using assms
proof (induction ht i left rule: clear_loop.induct)
  case (1 ht i left)
  show ?case
  proof (cases "i < ht_size ht \<and> left > 0")
    case True
    then have dr: "drop i (table ht) = table ht ! i # drop (i + 1) (table ht)"
      using 1(2) by (simp add: Cons_nth_drop_Suc)
    moreover have "left - length (table ht ! i) = length (concat (drop (i + 1) (table ht)))"
      using 1(3) dr by simp
    ultimately show ?thesis
      using True 1(1) [OF True, of "table ht ! i"] 1(2) by (subst clear_loop.simps) simp
  next
    case False
    then have "concat (drop i (table ht)) = []" using 1(2,3) by (auto simp: not_less)
    with False show ?thesis by (subst clear_loop.simps) auto
  qed
qed

lemma dictClear_inv: "ht_inv t ht \<Longrightarrow> dictClear ht = Some (dictReset, ht_entries ht)"
  using clear_loop_inv [of ht "used ht" 0] by (simp add: dictClear_def ht_inv_def ht_shape_def ht_entries_def)

lemma dictEmpty_inv:
  assumes inv: "dict_inv norm t d"
  shows "dictEmpty d = Some (d\<lparr>ht0 := dictReset, ht1 := dictReset, rehashidx := - 1, pauserehash := 0\<rparr>, dict_entries d)"
    and "dict_inv norm t (d\<lparr>ht0 := dictReset, ht1 := dictReset, rehashidx := - 1, pauserehash := 0\<rparr>)"
    and "dmap norm (d\<lparr>ht0 := dictReset, ht1 := dictReset, rehashidx := - 1, pauserehash := 0\<rparr>) = Map.empty"
proof -
  have inv': "ht_inv t (ht0 d)" "ht_inv t (ht1 d)" using inv by (simp_all add: dict_inv_def)
  show "dictEmpty d = Some (d\<lparr>ht0 := dictReset, ht1 := dictReset, rehashidx := - 1, pauserehash := 0\<rparr>, dict_entries d)"
    by (simp add: dictEmpty_def dictClear_inv [OF inv'(1)] dictClear_inv [OF inv'(2)] dict_entries_def)
  show "dict_inv norm t (d\<lparr>ht0 := dictReset, ht1 := dictReset, rehashidx := - 1, pauserehash := 0\<rparr>)"
    using ht_inv_reset [of t] by (simp add: dict_inv_def dictIsRehashing_def dict_entries_def ht_entries_def dictReset_def)
  show "dmap norm (d\<lparr>ht0 := dictReset, ht1 := dictReset, rehashidx := - 1, pauserehash := 0\<rparr>) = Map.empty"
    by (simp add: dmap_def dict_entries_def ht_entries_def dictReset_def)
qed

end

lemma dictCreate_inv: "dict_inv norm t dictCreate" "dmap norm dictCreate = Map.empty" "dictSize dictCreate = 0"
  using ht_inv_reset [of t]
  by (simp_all add: dict_inv_def dictCreate_def dictIsRehashing_def dict_entries_def ht_entries_def dictReset_def
      dmap_def dictSize_def)

section \<open>Clients\<close>

text \<open>
  A client of the dictionary, one operation at a time, with everything else that may happen to it
  in between: rehashing steps, resizing and expansion, pausing and resuming the rehashing, and
  changes of the global \<open>dict_can_resize\<close>. A client sees only the answers.
\<close>

datatype ('k, 'v) dict_op =
    DAdd 'k 'v | DReplace 'k 'v | DDelete 'k | DFetch 'k | DEmpty
  | DRehash nat | DResize | DExpand nat | DTryExpand bool nat | DPause | DResume | DCanResize bool

datatype 'v dict_ans = ABool bool | AVal "'v option" | ADone

fun dict_step ::
  "('k, 'v) dictType \<Rightarrow> bool \<times> ('k, 'v) dict \<Rightarrow> ('k, 'v) dict_op \<Rightarrow> ((bool \<times> ('k, 'v) dict) \<times> 'v dict_ans) option" where
  "dict_step t (can, d) (DAdd k v) = do { (d, b) \<leftarrow> dictAdd t can d k v; Some ((can, d), ABool b) }"
| "dict_step t (can, d) (DReplace k v) = do { (d, b) \<leftarrow> dictReplace t can d k v; Some ((can, d), ABool b) }"
| "dict_step t (can, d) (DDelete k) = do { (d, b) \<leftarrow> dictDelete t d k; Some ((can, d), ABool b) }"
| "dict_step t (can, d) (DFetch k) = do { (d, v) \<leftarrow> dictFetchValue t d k; Some ((can, d), AVal v) }"
| "dict_step t (can, d) DEmpty = do { (d, _) \<leftarrow> dictEmpty d; Some ((can, d), ADone) }"
| "dict_step t (can, d) (DRehash n) = do { (d, _) \<leftarrow> dictRehash t d n; Some ((can, d), ADone) }"
| "dict_step t (can, d) DResize = Some ((can, fst (dictResize can d)), ADone)"
| "dict_step t (can, d) (DExpand n) = Some ((can, fst (dictExpand d n)), ADone)"
| "dict_step t (can, d) (DTryExpand alloc n) = Some ((can, fst (dictTryExpand alloc d n)), ADone)"
| "dict_step t (can, d) DPause = Some ((can, dictPauseRehashing d), ADone)"
| "dict_step t (can, d) DResume = Some ((can, dictResumeRehashing d), ADone)"
| "dict_step t (can, d) (DCanResize b) = Some ((b, d), ADone)"

fun dict_run ::
  "('k, 'v) dictType \<Rightarrow> bool \<times> ('k, 'v) dict \<Rightarrow> ('k, 'v) dict_op list
    \<Rightarrow> ((bool \<times> ('k, 'v) dict) \<times> 'v dict_ans list) option" where
  "dict_run t s [] = Some (s, [])"
| "dict_run t s (x # ops) = do {
     (s, a) \<leftarrow> dict_step t s x;
     (s, as) \<leftarrow> dict_run t s ops;
     Some (s, a # as)
   }"

text \<open>The same operations on a map.\<close>

fun map_step ::
  "('k, 'v) dictType \<Rightarrow> ('k \<Rightarrow> 'n) \<Rightarrow> ('n \<rightharpoonup> 'v) \<Rightarrow> ('k, 'v) dict_op \<Rightarrow> ('n \<rightharpoonup> 'v) \<times> 'v dict_ans" where
  "map_step t norm m (DAdd k v) =
     (if m (norm k) = None then (m(norm k \<mapsto> stored_val t v), ABool True) else (m, ABool False))"
| "map_step t norm m (DReplace k v) = (m(norm k \<mapsto> stored_val t v), ABool (m (norm k) = None))"
| "map_step t norm m (DDelete k) = (m(norm k := None), ABool (m (norm k) \<noteq> None))"
| "map_step t norm m (DFetch k) = (m, AVal (m (norm k)))"
| "map_step t norm m DEmpty = (Map.empty, ADone)"
| "map_step t norm m _ = (m, ADone)"

fun map_run ::
  "('k, 'v) dictType \<Rightarrow> ('k \<Rightarrow> 'n) \<Rightarrow> ('n \<rightharpoonup> 'v) \<Rightarrow> ('k, 'v) dict_op list \<Rightarrow> ('n \<rightharpoonup> 'v) \<times> 'v dict_ans list" where
  "map_run t norm m [] = (m, [])"
| "map_run t norm m (x # ops) =
     (let (m, a) = map_step t norm m x; (m, as) = map_run t norm m ops in (m, a # as))"

text \<open>The simulation relation: every value of the dictionary has been set.\<close>

definition dict_sim :: "('k \<Rightarrow> 'n) \<Rightarrow> ('k, 'v) dictType \<Rightarrow> ('k, 'v) dict \<Rightarrow> ('n \<rightharpoonup> 'v) \<Rightarrow> bool" where
  "dict_sim norm t d m \<longleftrightarrow> dict_inv norm t d \<and> dmap norm d = (\<lambda>n. map_option Some (m n))"

lemma dict_sim_same:
  assumes "dict_sim norm t d m" and "dict_inv norm t d'" and "mset (dict_entries d') = mset (dict_entries d)"
  shows "dict_sim norm t d' m"
  using assms dmap_same(1) [OF assms(3), of norm t] by (auto simp: dict_sim_def)

lemma dictExpandImpl_sim:
  assumes "dict_sim norm t d m"
  shows "dict_sim norm t (fst (dictExpandImpl d sz alloc)) m"
    and "mset (dict_entries (fst (dictExpandImpl d sz alloc))) = mset (dict_entries d)"
proof -
  obtain d' ok failed where e: "dictExpandImpl d sz alloc = (d', ok, failed)" by (cases "dictExpandImpl d sz alloc") auto
  have inv: "dict_inv norm t d" using assms by (simp add: dict_sim_def)
  note i = dictExpandImpl_inv [OF inv e]
  then show "mset (dict_entries (fst (dictExpandImpl d sz alloc))) = mset (dict_entries d)" by (simp add: e)
  show "dict_sim norm t (fst (dictExpandImpl d sz alloc)) m" using dict_sim_same [OF assms i(1,2)] by (simp add: e)
qed

lemma dictExpand_fst: "fst (dictExpand d sz) = fst (dictExpandImpl d sz True)"
  "fst (dictTryExpand alloc d sz) = fst (dictExpandImpl d sz alloc)"
  by (simp_all add: dictExpand_def dictTryExpand_def case_prod_unfold Let_def)

lemma dictResize_fst: "fst (dictResize can d) = d \<or> (\<exists>sz. fst (dictResize can d) = fst (dictExpandImpl d sz True))"
  by (auto simp: dictResize_def Let_def dictExpand_fst)

context dict_type
begin

lemma sim_dom: "dict_sim norm t d m \<Longrightarrow> k \<in> dom (dmap norm d) \<longleftrightarrow> m k \<noteq> None"
  by (simp add: dict_sim_def domIff)

lemma size_same: "dict_inv norm t d \<Longrightarrow> dict_inv norm t d' \<Longrightarrow> mset (dict_entries d') = mset (dict_entries d) \<Longrightarrow> dictSize d' = dictSize d"
  using mset_eq_length [of "dict_entries d'" "dict_entries d"] by (simp add: dictSize_entries)

lemma step_sim:
  assumes sim: "dict_sim norm t d m" and bound: "dictSize d < 2 ^ 63"
  shows "\<exists>can' d'. dict_step t (can, d) x = Some ((can', d'), snd (map_step t norm m x))
    \<and> dict_sim norm t d' (fst (map_step t norm m x)) \<and> dictSize d' \<le> Suc (dictSize d)"
proof -
  have inv: "dict_inv norm t d" and map: "dmap norm d = (\<lambda>n. map_option Some (m n))"
    using sim by (simp_all add: dict_sim_def)
  have exp: "dict_sim norm t (fst (dictExpandImpl d sz alloc)) m \<and> dictSize (fst (dictExpandImpl d sz alloc)) = dictSize d"
    for sz alloc using dictExpandImpl_sim [OF sim] size_same [OF inv] by (auto simp: dict_sim_def)
  have pause: "dict_sim norm t (d\<lparr>pauserehash := p\<rparr>) m \<and> dictSize (d\<lparr>pauserehash := p\<rparr>) = dictSize d" for p
    using sim by (simp add: dict_sim_def dict_inv_def dmap_def dict_entries_def dictIsRehashing_def dictSize_def)
  show ?thesis
  proof (cases x)
    case (DAdd k v)
    with dictAdd_inv [OF inv bound, of can k v] show ?thesis
      by (auto simp: sim_dom [OF sim] dict_sim_def map fun_eq_iff)
  next
    case (DReplace k v)
    with dictReplace_inv [OF inv bound, of can k v] show ?thesis
      by (auto simp: sim_dom [OF sim] dict_sim_def map fun_eq_iff)
  next
    case (DDelete k)
    obtain d' he where "dictGenericDelete t d k = Some (d', he)" "dict_inv norm t d'"
      "dmap norm d' = (dmap norm d)(norm k := None)" "dictSize d' \<le> dictSize d"
      "map_option de_val he = dmap norm d (norm k)"
      using dictGenericDelete_inv [OF inv, of k] by blast
    moreover from this(5) have "he \<noteq> None \<longleftrightarrow> m (norm k) \<noteq> None" unfolding map by (cases he; cases "m (norm k)") auto
    ultimately show ?thesis using DDelete by (auto simp: dictDelete_def dict_sim_def map fun_eq_iff)
  next
    case (DFetch k)
    obtain d' where "dictFetchValue t d k = Some (d', case dmap norm d (norm k) of Some v \<Rightarrow> v | None \<Rightarrow> None)"
      "dict_inv norm t d'" "dmap norm d' = dmap norm d" "dictSize d' = dictSize d"
      using dictFetchValue_inv [OF inv, of k] by blast
    moreover have "(case dmap norm d (norm k) of Some v \<Rightarrow> v | None \<Rightarrow> None) = m (norm k)"
      unfolding map by (cases "m (norm k)") auto
    ultimately show ?thesis using DFetch by (auto simp: dict_sim_def map)
  next
    case DEmpty
    with dictEmpty_inv [OF inv] show ?thesis
      by (simp add: dict_sim_def) (simp add: dictSize_def dictReset_def)
  next
    case (DRehash n)
    obtain d' more where r: "dictRehash t d n = Some (d', more)" "dict_inv norm t d'"
      "mset (dict_entries d') = mset (dict_entries d)"
      using dictRehash_inv [OF inv, of n] by blast
    with dict_sim_same [OF sim r(2,3)] size_same [OF inv r(2,3)] DRehash show ?thesis by auto
  next
    case DResize
    with dictResize_fst [of can d] exp sim show ?thesis by auto
  qed (use sim exp pause in \<open>auto simp: dictExpand_fst dictPauseRehashing_def dictResumeRehashing_def\<close>)
qed

lemma run_sim:
  assumes "dict_sim norm t d m" and "dictSize d + length ops \<le> 2 ^ 63"
  shows "\<exists>can' d'. dict_run t (can, d) ops = Some ((can', d'), snd (map_run t norm m ops))
    \<and> dict_sim norm t d' (fst (map_run t norm m ops))"
  using assms
proof (induction ops arbitrary: can d m)
  case (Cons x ops)
  obtain can1 d1 where s: "dict_step t (can, d) x = Some ((can1, d1), snd (map_step t norm m x))"
    "dict_sim norm t d1 (fst (map_step t norm m x))" "dictSize d1 \<le> Suc (dictSize d)"
    using step_sim [OF Cons.prems(1), of can x] Cons.prems(2) by auto
  obtain can' d' where "dict_run t (can1, d1) ops = Some ((can', d'), snd (map_run t norm (fst (map_step t norm m x)) ops))"
    "dict_sim norm t d' (fst (map_run t norm (fst (map_step t norm m x)) ops))"
    using Cons.IH [OF s(2), of can1] s(3) Cons.prems(2) by auto
  with s(1) show ?case by (auto simp: case_prod_unfold Let_def)
qed simp

end

section \<open>Rehashing ends\<close>

primrec rehash_calls :: "('k, 'v) dictType \<Rightarrow> nat \<Rightarrow> nat \<Rightarrow> ('k, 'v) dict \<Rightarrow> ('k, 'v) dict option" where
  "rehash_calls t n 0 d = Some d"
| "rehash_calls t n (Suc k) d = do { (d, _) \<leftarrow> dictRehash t d n; rehash_calls t n k d }"

lemma rehash_calls_idle: "\<not> dictIsRehashing d \<Longrightarrow> rehash_calls t n k d = Some d"
  by (induction k) (simp_all add: dictRehash_def)

lemma rehash_calls_end:
  assumes "dict_inv norm t d" and "0 < n" and "int (ht_size (ht0 d)) < rehashidx d + int k \<or> \<not> dictIsRehashing d"
  shows "\<exists>d'. rehash_calls t n k d = Some d' \<and> dict_inv norm t d' \<and> \<not> dictIsRehashing d'
    \<and> mset (dict_entries d') = mset (dict_entries d)"
  using assms
proof (induction k arbitrary: d)
  case 0
  then show ?case by (auto simp: dict_inv_def split: if_splits)
next
  case (Suc k)
  obtain d1 more where r: "dictRehash t d n = Some (d1, more)" "dict_inv norm t d1"
    "mset (dict_entries d1) = mset (dict_entries d)" "more = dictIsRehashing d1"
    "dictIsRehashing d \<and> 0 < n \<and> more \<longrightarrow> rehashidx d < rehashidx d1 \<and> ht_size (ht0 d1) = ht_size (ht0 d)"
    using dictRehash_inv [OF Suc.prems(1), of n] by blast
  have "int (ht_size (ht0 d1)) < rehashidx d1 + int k \<or> \<not> dictIsRehashing d1"
    using r Suc.prems by (cases "dictIsRehashing d") (auto simp: dictRehash_def)
  from Suc.IH [OF r(2) Suc.prems(2) this] r show ?case by auto
qed

section \<open>Properties\<close>

text \<open>A small dictionary in the middle of a rehashing, for the examples.\<close>

definition sample_type :: "(nat, string) dictType" where
  "sample_type = \<lparr>hashFunction = of_nat, keyDup = None, valDup = None, keyCompare = None, expandAllowed = None\<rparr>"

definition sample_dict :: "(nat, string) dict" where
  "sample_dict =
     \<lparr>ht0 = \<lparr>table = [[], [\<lparr>de_key = 5, de_val = Some ''b''\<rparr>], [], []], ht_size = 4, sizemask = 3, used = 1\<rparr>,
      ht1 = \<lparr>table = [[], [], [], [], [], [], [], []], ht_size = 8, sizemask = 7, used = 0\<rparr>,
      rehashidx = 0, pauserehash = 0\<rparr>"

lemma sample_dict_type: "dict_type sample_type id"
  by unfold_locales (simp_all add: dictCompareKeys_def sample_type_def)

lemma sample_dict_inv: "dict_inv id sample_type sample_dict"
proof -
  have "ht_shape (ht0 sample_dict)" "ht_shape (ht1 sample_dict)"
    using ht_shapeI [of "ht0 sample_dict" 2] ht_shapeI [of "ht1 sample_dict" 3]
    by (simp_all add: mask_eq_exp_minus_1 sample_dict_def)
  then have "ht_inv sample_type (ht0 sample_dict)" "ht_inv sample_type (ht1 sample_dict)"
    by (simp_all add: ht_inv_def sample_dict_def sample_type_def ht_entries_def All_less_Suc bucket_idx_def)
  then show ?thesis by (simp add: dict_inv_def) (simp add: sample_dict_def dictIsRehashing_def dict_entries_def ht_entries_def)
qed

lemma sample_dict_entries: "dict_entries sample_dict = [\<lparr>de_key = 5, de_val = Some ''b''\<rparr>]" "ht_size (ht0 sample_dict) = 4"
  by (simp_all add: sample_dict_def dict_entries_def ht_entries_def)



text \<open> C16: Incremental rehashing ends. From any well-formed dictionary, calling \<open>dictRehash\<close> with a
positive number of steps once more than the old table has buckets finishes the rehashing; no call
reads outside the tables or fails its assertion, and no entry is lost or duplicated.\<close>

theorem dictRehash_completes:
  assumes "dict_inv norm t d" and "0 < n"
  shows "\<exists>d'. rehash_calls t n (Suc (ht_size (ht0 d))) d = Some d' \<and> dict_inv norm t d' \<and> \<not> dictIsRehashing d'
    \<and> mset (dict_entries d') = mset (dict_entries d)"
  using assms by (intro rehash_calls_end) (auto simp: dict_inv_def split: if_splits)

theorem dictRehash_completes_witness:
  "\<exists>d'. rehash_calls sample_type 1 5 sample_dict = Some d' \<and> dict_inv id sample_type d' \<and> \<not> dictIsRehashing d'
    \<and> mset (dict_entries d') = {#\<lparr>de_key = 5, de_val = Some ''b''\<rparr>#}"
  using dictRehash_completes [OF sample_dict_inv, of 1] by (simp add: sample_dict_entries)

end
