(* ===== verification/Dict_Scan.thy ===== *)
theory Dict_Scan
  imports Dict
begin

unbundle bit_operations_syntax

text \<open>
  \<open>dictScan\<close>, the stateless iteration behind the \<open>SCAN\<close> commands. The cursor counts in
  bit-reversed order, so that an iteration survives resizes of the table between its calls. In terms
  of the bit-reversed cursor (\<open>rcur\<close>) and the bit-reversed hash of a key the algorithm is simple:
  one call emits every entry whose reversed hash lies between the reversed cursor and the next one,
  whatever the sizes of the tables are, and the reversed cursor only grows until it wraps to zero.

  The scan function only collects the entries; \<open>bucketfn\<close> (used by the defragmentation, which may
  relocate entries but not change them) is left out.
\<close>

section \<open>The code\<close>

text \<open>\<open>rev\<close>: the parallel bit reversal; the loop shifts \<open>s\<close> first.\<close>

function rev_loop :: "nat \<Rightarrow> 64 word \<Rightarrow> 64 word \<Rightarrow> 64 word" where
  "rev_loop s msk v =
     (let s = s div 2 in
      if s > 0 then
        let msk = msk XOR push_bit s msk;
            v = (drop_bit s v AND msk) OR (push_bit s v AND NOT msk)
        in rev_loop s msk v
      else v)"
  by auto
termination by (relation "measure fst") auto

definition rev_bits :: "64 word \<Rightarrow> 64 word" where
  "rev_bits v = rev_loop 64 (NOT 0) v"

text \<open>Incrementing the reversed cursor above the mask.\<close>

definition scan_next :: "64 word \<Rightarrow> 64 word \<Rightarrow> 64 word" where
  "scan_next m v = (let v = v OR NOT m; v = rev_bits v; v = v + 1 in rev_bits v)"

text \<open>The loop over the expansions of the cursor in the larger table.\<close>

partial_function (option) scan_loop ::
  "('k, 'v) dictht \<Rightarrow> 64 word \<Rightarrow> 64 word \<Rightarrow> (64 word \<times> ('k, 'v) dictEntry list) option" where
  "scan_loop t1 m0 v = do {
     c \<leftarrow> nth_opt (table t1) (bucket_idx t1 v);
     let v = scan_next (sizemask t1) v;
     if v AND (m0 XOR sizemask t1) \<noteq> 0
     then do { (v, es) \<leftarrow> scan_loop t1 m0 v; Some (v, c @ es) }
     else Some (v, c)
   }"

definition dictScan ::
  "('k, 'v) dict \<Rightarrow> 64 word \<Rightarrow> (('k, 'v) dict \<times> 64 word \<times> ('k, 'v) dictEntry list) option" where
  "dictScan d v =
     (if dictSize d = 0 then Some (d, 0, [])
      else let d = dictPauseRehashing d in
      if \<not> dictIsRehashing d then do {
        c \<leftarrow> nth_opt (table (ht0 d)) (bucket_idx (ht0 d) v);
        Some (dictResumeRehashing d, scan_next (sizemask (ht0 d)) v, c)
      } else do {
        let (t0, t1) = (if ht_size (ht0 d) > ht_size (ht1 d) then (ht1 d, ht0 d) else (ht0 d, ht1 d));
        c \<leftarrow> nth_opt (table t0) (bucket_idx t0 v);
        (v, es) \<leftarrow> scan_loop t1 (sizemask t0) v;
        Some (dictResumeRehashing d, v, c @ es)
      })"

declare rev_loop.simps [simp del]

section \<open>Bit reversal\<close>

definition swap_pos :: "nat \<Rightarrow> nat \<Rightarrow> nat" where
  "swap_pos s n = (if even (n div s) then n + s else n - s)"

lemma rev_mask_step:
  assumes s: "0 < s" and m: "\<forall>n < 64. bit (msk :: 64 word) n \<longleftrightarrow> even (n div (2 * s))"
  shows "\<forall>n < 64. bit (msk XOR push_bit s msk) n \<longleftrightarrow> even (n div s)"
proof (intro allI impI)
  fix n :: nat assume n: "n < 64"
  have q: "n div (2 * s) = n div s div 2" by (simp add: div_mult2_eq mult.commute)
  show "bit (msk XOR push_bit s msk) n \<longleftrightarrow> even (n div s)"
  proof (cases "s \<le> n")
    case False
    with n m show ?thesis by (simp add: bit_simps)
  next
    case True
    have "(n - s) div (2 * s) = (n div s - 1) div 2"
      using True s by (simp add: div_mult2_eq mult.commute [of 2] le_div_geq)
    moreover have "0 < n div s" using True s by (simp add: div_greater_zero_iff)
    moreover have "0 < j \<Longrightarrow> (even (j div 2) \<noteq> even ((j - 1) div 2)) = even j" for j :: nat
      by presburger
    ultimately show ?thesis using True n m q by (simp add: bit_simps)
  qed
qed

lemma rev_loop_step:
  assumes s: "0 < s" and m: "\<forall>n < 64. bit (msk :: 64 word) n \<longleftrightarrow> even (n div (2 * s))"
  shows "\<exists>msk' v'. rev_loop (2 * s) msk v = rev_loop s msk' v'
    \<and> (\<forall>n < 64. bit msk' n \<longleftrightarrow> even (n div s)) \<and> (\<forall>n < 64. bit v' n = bit v (swap_pos s n))"
proof -
  let ?m = "msk XOR push_bit s msk"
  let ?v = "(drop_bit s v AND ?m) OR (push_bit s v AND NOT ?m)"
  note mk = rev_mask_step [OF assms]
  have "bit ?v n = bit v (swap_pos s n)" if n: "n < 64" for n
  proof -
    have "bit ?v n = (if bit ?m n then bit v (n + s) else s \<le> n \<and> bit v (n - s))"
      using n by (auto simp: bit_simps bit_drop_bit_eq add.commute)
    moreover have "odd (n div s) \<Longrightarrow> s \<le> n" by (rule ccontr) simp
    ultimately show ?thesis using mk n by (auto simp: swap_pos_def)
  qed
  moreover have "rev_loop (2 * s) msk v = rev_loop s ?m ?v"
    using s by (subst rev_loop.simps) (simp add: Let_def)
  ultimately show ?thesis using mk by blast
qed

definition flip_low :: "nat \<Rightarrow> nat \<Rightarrow> nat" where
  "flip_low k n = n div 2 ^ k * 2 ^ k + (2 ^ k - 1 - n mod 2 ^ k)"

lemma flip_low_div: "flip_low k n div 2 ^ k = n div 2 ^ k"
proof -
  have "2 ^ k - 1 - n mod 2 ^ k < (2 :: nat) ^ k" by (simp add: less_imp_diff_less)
  then show ?thesis by (simp add: flip_low_def)
qed

lemma flip_low_less:
  assumes "n < 64" and "k \<le> 6"
  shows "flip_low k n < 64"
proof -
  have p: "(64 :: nat) = 2 ^ (6 - k) * 2 ^ k" using assms(2) by (simp flip: power_add)
  then have "n div 2 ^ k < 2 ^ (6 - k)" using assms(1) by (intro less_mult_imp_div_less) simp
  then have "flip_low k n div 2 ^ k < 2 ^ (6 - k)" by (simp add: flip_low_div)
  then show ?thesis unfolding p by (simp add: div_less_iff_less_mult)
qed

lemma swap_flip: "swap_pos (2 ^ k) (flip_low k n) = flip_low (Suc k) n"
proof -
  define q r where "q = n div 2 ^ k" and "r = n mod 2 ^ k"
  have r: "r < 2 ^ k" by (simp add: r_def)
  have "n div 2 ^ Suc k = q div 2" by (simp add: q_def div_mult2_eq [symmetric] mult.commute)
  moreover have "n mod 2 ^ Suc k = 2 ^ k * (q mod 2) + r" by (simp add: q_def r_def mod_mult2_eq mult.commute [of 2])
  ultimately have "flip_low (Suc k) n = q div 2 * 2 ^ Suc k + (2 ^ Suc k - 1 - (2 ^ k * (q mod 2) + r))"
    by (simp add: flip_low_def)
  moreover have "swap_pos (2 ^ k) (flip_low k n)
      = (if even q then q * 2 ^ k + (2 ^ k - 1 - r) + 2 ^ k else q * 2 ^ k + (2 ^ k - 1 - r) - 2 ^ k)"
    by (simp add: swap_pos_def flip_low_div q_def) (simp add: flip_low_def r_def)
  moreover have "q mod 2 = (if even q then 0 else 1)" by presburger
  moreover have "odd q \<Longrightarrow> q * 2 ^ k = 2 ^ k + 2 * (2 ^ k * (q div 2))" by (auto elim!: oddE simp: algebra_simps)
  ultimately show ?thesis
    using r by (cases "even q") (auto simp: algebra_simps elim!: evenE)
qed

lemma bit_rev_loop:
  assumes "k \<le> 6" and "\<forall>n < 64. bit msk n \<longleftrightarrow> even (n div 2 ^ k)" and "n < 64"
  shows "bit (rev_loop (2 ^ k) msk v) n = bit v (flip_low k n)"
  using assms
proof (induction k arbitrary: msk v)
  case 0
  have "rev_loop 1 msk v = v" by (subst rev_loop.simps) simp
  then show ?case by (simp add: flip_low_def)
next
  case (Suc k)
  obtain msk' v' where s: "rev_loop (2 * 2 ^ k) msk v = rev_loop (2 ^ k) msk' v'"
    "\<forall>n < 64. bit msk' n \<longleftrightarrow> even (n div 2 ^ k)" "\<forall>n < 64. bit v' n = bit v (swap_pos (2 ^ k) n)"
    using rev_loop_step [of "2 ^ k" msk v] Suc.prems(2) by auto
  have "bit (rev_loop (2 ^ Suc k) msk v) n = bit v' (flip_low k n)"
    using Suc.IH [of msk' v'] Suc.prems s by simp
  also have "\<dots> = bit v (flip_low (Suc k) n)"
    using s(3) flip_low_less [of n k] Suc.prems by (simp add: swap_flip)
  finally show ?case .
qed

lemma bit_rev_bits: "n < 64 \<Longrightarrow> bit (rev_bits v) n = bit v (63 - n)"
  using bit_rev_loop [of 6 "NOT 0" n v] by (simp add: rev_bits_def flip_low_def bit_simps)
section \<open>The reversed cursor\<close>

lemma rev_bits_rev [simp]: "rev_bits (rev_bits v) = v"
  by (rule bit_word_eqI) (simp add: bit_rev_bits)

definition rcur :: "64 word \<Rightarrow> nat" where
  "rcur v = unat (rev_bits v)"

lemma rcur_less: "rcur v < 2 ^ 64"
  using unsigned_less [of "rev_bits v"] by (simp add: rcur_def)

lemma rcur_rev: "rcur (rev_bits v) = unat v"
  by (simp add: rcur_def)

lemma rcur_0 [simp]: "rcur v = 0 \<longleftrightarrow> v = 0"
proof -
  have "rev_bits 0 = 0" by (rule bit_word_eqI) (simp add: bit_rev_bits)
  then show ?thesis by (metis rcur_def rev_bits_rev unat_eq_zero)
qed

lemma rcur_div: "rcur v div 2 ^ k = unat (drop_bit k (rev_bits v))"
  unfolding rcur_def unat_drop_bit_eq by (simp add: drop_bit_eq_div)

lemma same_bucket:
  assumes "a \<le> 64"
  shows "h AND mask a = v AND mask a \<longleftrightarrow> rcur h div 2 ^ (64 - a) = rcur v div 2 ^ (64 - a)"
proof -
  have "h AND mask a = v AND mask a \<longleftrightarrow> (\<forall>n < a. bit h n = bit v n)"
    using assms by (auto simp: bit_eq_iff bit_simps) (meson less_le_trans)+
  also have "\<dots> \<longleftrightarrow> (\<forall>n < a. bit h (a - 1 - n) = bit v (a - 1 - n))"
  proof (rule iffI; intro allI impI)
    fix n assume "\<forall>n < a. bit h (a - 1 - n) = bit v (a - 1 - n)" and n: "n < a"
    then have "bit h (a - 1 - (a - 1 - n)) = bit v (a - 1 - (a - 1 - n))" by (metis diff_Suc_less diff_diff_left less_nat_zero_code neq0_conv plus_1_eq_Suc)
    then show "bit h n = bit v n" using n by simp
  qed simp
  also have "\<dots> \<longleftrightarrow> drop_bit (64 - a) (rev_bits h) = drop_bit (64 - a) (rev_bits v)"
  proof -
    have "bit (drop_bit (64 - a) (rev_bits x)) n = (n < a \<and> bit x (a - 1 - n))" if "n < 64" for x n
    proof (cases "n < a")
      case True
      then have "63 - (n + (64 - a)) = a - 1 - n" using assms by simp
      with True assms show ?thesis by (simp add: bit_drop_bit_eq bit_rev_bits add.commute)
    next
      case False
      then have "64 \<le> n + (64 - a)" using assms by simp
      then have "\<not> bit (rev_bits x) (n + (64 - a))" using bit_imp_le_length by fastforce
      with False show ?thesis by (simp add: bit_drop_bit_eq add.commute)
    qed
    then show ?thesis using assms by (auto simp: bit_eq_iff) (meson less_le_trans)+
  qed
  also have "\<dots> \<longleftrightarrow> rcur h div 2 ^ (64 - a) = rcur v div 2 ^ (64 - a)"
    unfolding rcur_div word_unat_eq_iff ..
  finally show ?thesis .
qed

lemma nat_or_mask: "(n :: nat) OR mask k = n div 2 ^ k * 2 ^ k + (2 ^ k - 1)"
proof -
  have "push_bit k (drop_bit k n) AND mask k = 0" by (simp add: bit_eq_iff bit_simps)
  then have "push_bit k (drop_bit k n) + mask k = push_bit k (drop_bit k n) OR mask k" by (rule disjunctive_add_eq_or)
  also have "\<dots> = n OR mask k" by (auto simp: bit_eq_iff bit_simps)
  finally show ?thesis by (simp add: push_bit_eq_mult drop_bit_eq_div mask_eq_exp_minus_1)
qed

lemma rev_or_not_mask:
  assumes "a \<le> 64"
  shows "rev_bits (v OR NOT (mask a)) = rev_bits v OR mask (64 - a)"
  using assms by (intro bit_word_eqI) (auto simp: bit_rev_bits bit_simps)

lemma rcur_scan_next:
  assumes "a \<le> 64"
  shows "rcur (scan_next (mask a) v) = (rcur v div 2 ^ (64 - a) + 1) * 2 ^ (64 - a) mod 2 ^ 64"
proof -
  let ?k = "64 - a"
  have "int (unat (mask ?k :: 64 word)) = int (mask ?k)"
    by (simp add: uint_mask_eq of_nat_mask_eq)
  then have "unat (mask ?k :: 64 word) = mask ?k" by (simp only: of_nat_eq_iff)
  then have "unat (rev_bits v OR mask ?k) = rcur v div 2 ^ ?k * 2 ^ ?k + (2 ^ ?k - 1)"
    by (simp add: unsigned_or_eq rcur_def nat_or_mask)
  then have "unat (rev_bits v OR mask ?k) + 1 = (rcur v div 2 ^ ?k + 1) * 2 ^ ?k" by simp
  then show ?thesis
    using assms by (simp add: scan_next_def Let_def rcur_rev rev_or_not_mask unat_word_ariths)
qed

lemma next_le: "b \<le> 64 \<Longrightarrow> (rcur v div 2 ^ (64 - b) + 1) * 2 ^ (64 - b) \<le> 2 ^ 64"
proof -
  assume b: "b \<le> 64"
  then have p: "(2 :: nat) ^ 64 = 2 ^ b * 2 ^ (64 - b)" by (simp flip: power_add)
  then have "rcur v div 2 ^ (64 - b) < 2 ^ b" using rcur_less [of v] by (intro less_mult_imp_div_less) simp
  then show ?thesis unfolding p by (intro mult_right_mono) auto
qed

lemma rcur_mod_zero:
  assumes "a \<le> 64"
  shows "rcur v mod 2 ^ (64 - a) = 0 \<longleftrightarrow> (\<forall>n. a \<le> n \<and> n < 64 \<longrightarrow> \<not> bit v n)"
proof -
  have "rcur v mod 2 ^ (64 - a) = 0 \<longleftrightarrow> take_bit (64 - a) (rev_bits v) = 0"
    by (simp add: rcur_def take_bit_eq_mod [where ?'a = nat, symmetric] unat_eq_zero [symmetric] unsigned_take_bit_eq del: unat_eq_zero)
  also have "\<dots> \<longleftrightarrow> (\<forall>m < 64 - a. \<not> bit (rev_bits v) m)"
    by (auto simp: bit_eq_iff bit_simps)
  also have "\<dots> \<longleftrightarrow> (\<forall>n. a \<le> n \<and> n < 64 \<longrightarrow> \<not> bit v n)"
  proof (intro iffI allI impI)
    fix n assume l: "\<forall>m < 64 - a. \<not> bit (rev_bits v) m" and n: "a \<le> n \<and> n < 64"
    then have "\<not> bit (rev_bits v) (63 - n)" by auto
    with n show "\<not> bit v n" by (simp add: bit_rev_bits)
  next
    fix m assume l: "\<forall>n. a \<le> n \<and> n < 64 \<longrightarrow> \<not> bit v n" and m: "m < 64 - a"
    then have "a \<le> 63 - m \<and> 63 - m < 64" by auto
    with l m show "\<not> bit (rev_bits v) m" by (simp add: bit_rev_bits)
  qed
  finally show ?thesis .
qed

lemma mask_diff_zero:
  assumes "a \<le> b" and "b \<le> 64" and "rcur v mod 2 ^ (64 - b) = 0"
  shows "v AND (mask a XOR mask b) = 0 \<longleftrightarrow> rcur v mod 2 ^ (64 - a) = 0"
proof -
  have "v AND (mask a XOR mask b) = 0 \<longleftrightarrow> (\<forall>n. a \<le> n \<and> n < b \<longrightarrow> \<not> bit v n)"
  proof (rule iffI; (intro allI impI)?)
    fix n assume z: "v AND (mask a XOR mask b) = 0" and n: "a \<le> n \<and> n < b"
    have "\<not> bit (v AND (mask a XOR mask b)) n" unfolding z by simp
    with n assms(1,2) show "\<not> bit v n" by (auto simp: bit_simps)
  next
    assume "\<forall>n. a \<le> n \<and> n < b \<longrightarrow> \<not> bit v n"
    then show "v AND (mask a XOR mask b) = 0"
      using assms(1) by (intro bit_word_eqI) (auto simp: bit_simps not_less)
  qed
  moreover have "\<forall>n. b \<le> n \<and> n < 64 \<longrightarrow> \<not> bit v n" using assms(3) rcur_mod_zero [OF assms(2), of v] by simp
  moreover have "a \<le> n \<and> n < 64 \<longleftrightarrow> a \<le> n \<and> n < b \<or> b \<le> n \<and> n < 64" for n using assms(1,2) by linarith
  ultimately have "v AND (mask a XOR mask b) = 0 \<longleftrightarrow> (\<forall>n. a \<le> n \<and> n < 64 \<longrightarrow> \<not> bit v n)" by simp
  then show ?thesis using rcur_mod_zero [of a v] assms by simp
qed


section \<open>One call\<close>

lemma bucket_emits:
  assumes inv: "ht_inv t ht" and m: "sizemask ht = mask a" "a \<le> 64"
    and e: "e \<in> set (ht_entries ht)"
    and b: "rcur (hashFunction t (de_key e)) div 2 ^ (64 - a) = rcur v div 2 ^ (64 - a)"
  shows "e \<in> set (table ht ! bucket_idx ht v)"
proof -
  obtain i where i: "i < length (table ht)" "e \<in> set (table ht ! i)"
    using e by (auto simp: ht_entries_def in_set_conv_nth [of _ "table ht"])
  then have "bucket_idx ht (hashFunction t (de_key e)) = i" using inv by (auto simp: ht_inv_def)
  moreover have "hashFunction t (de_key e) AND mask a = v AND mask a" using b same_bucket [OF m(2)] by blast
  ultimately show ?thesis using i by (simp add: bucket_idx_def m(1))
qed

lemma nth_entries: "i < length (table ht) \<Longrightarrow> set (table ht ! i) \<subseteq> set (ht_entries ht)"
  unfolding ht_entries_def using nth_mem by fastforce

lemma nonempty_shape:
  "ht_inv t ht \<Longrightarrow> table ht \<noteq> [] \<Longrightarrow> \<exists>a < 64. ht_size ht = 2 ^ a \<and> sizemask ht = mask a"
  by (auto simp: ht_inv_def ht_shape_def)

lemma in_interval_div:
  fixes x K q :: nat
  assumes "x div K = q" and "0 < K"
  shows "q * K \<le> x" and "x < (q + 1) * K"
  using assms by (auto simp: div_times_less_eq_dividend dividend_less_div_times)

lemma step_next:
  fixes R K k :: nat
  assumes "0 < k" and "k dvd K" and "0 < K"
  defines "nx \<equiv> (R div K + 1) * K" and "n1 \<equiv> (R div k + 1) * k"
  shows "R < n1" and "n1 \<le> nx" and "n1 mod K = 0 \<longleftrightarrow> n1 = nx" and "n1 \<noteq> nx \<Longrightarrow> n1 div K = R div K"
proof -
  show R: "R < n1" unfolding n1_def using in_interval_div(2) [OF refl assms(1)] .
  have Rx: "R < nx" unfolding nx_def using in_interval_div(2) [OF refl assms(3)] .
  obtain j where j: "nx = j * k" using assms(2) unfolding nx_def by (metis dvd_def dvd_mult mult.commute)
  have "R div k < j" using Rx assms(1) unfolding j by (intro less_mult_imp_div_less)
  then have "R div k + 1 \<le> j" by simp
  then show le: "n1 \<le> nx" unfolding n1_def j by (rule mult_right_mono) simp
  show "n1 mod K = 0 \<longleftrightarrow> n1 = nx"
  proof
    assume "n1 mod K = 0"
    then obtain i where i: "n1 = i * K" by (metis dvd_def mod_eq_0_iff_dvd mult.commute)
    have "R div K < i" using R assms(3) unfolding i by (intro less_mult_imp_div_less)
    then have "(R div K + 1) * K \<le> i * K" by (intro mult_right_mono) auto
    with le show "n1 = nx" unfolding nx_def i by linarith
  qed (simp add: nx_def)
  show "n1 div K = R div K" if "n1 \<noteq> nx"
  proof (rule antisym)
    have "n1 < nx" using le that by simp
    then have "n1 div K < R div K + 1" unfolding nx_def using assms(3) by (intro less_mult_imp_div_less)
    then show "n1 div K \<le> R div K" by simp
    show "R div K \<le> n1 div K" using R by (intro div_le_mono) simp
  qed
qed

lemma scan_loop_correct:
  assumes inv: "ht_inv t t1" and ne: "table t1 \<noteq> []"
    and m: "sizemask t1 = mask b" "b < 64" and ab: "a \<le> b"
  defines "nx \<equiv> \<lambda>v. (rcur v div 2 ^ (64 - a) + 1) * 2 ^ (64 - a)"
  shows "\<exists>v' es. scan_loop t1 (mask a) v = Some (v', es) \<and> rcur v' = nx v mod 2 ^ 64 \<and> set es \<subseteq> set (ht_entries t1)
    \<and> (\<forall>e \<in> set (ht_entries t1). rcur v \<le> rcur (hashFunction t (de_key e)) \<and> rcur (hashFunction t (de_key e)) < nx v \<longrightarrow> e \<in> set es)"
proof (induction "nx v - rcur v" arbitrary: v rule: less_induct)
  case less
  let ?K = "2 ^ (64 - a) :: nat" and ?k = "2 ^ (64 - b) :: nat" and ?i = "bucket_idx t1 v"
  define n1 where "n1 = (rcur v div ?k + 1) * ?k"
  have b64: "b \<le> 64" "a \<le> 64" using m(2) ab by simp_all
  have nxv: "(rcur v div ?K + 1) * ?K = nx v" by (simp add: nx_def)
  have "0 < ?k" "?k dvd ?K" "0 < ?K" using ab by (auto intro: le_imp_power_dvd)
  note st = step_next [OF this, of "rcur v", folded n1_def, unfolded nxv]
  define v1 where "v1 = scan_next (mask b) v"
  have n1_le: "n1 \<le> 2 ^ 64" unfolding n1_def using next_le [OF b64(1)] .
  have nx_le: "nx v \<le> 2 ^ 64" unfolding nx_def using next_le [OF b64(2)] .
  have r1: "rcur v1 = n1 mod 2 ^ 64" unfolding v1_def n1_def using rcur_scan_next [OF b64(1)] .
  have k1: "rcur v1 mod ?k = 0"
    using n1_le unfolding r1 by (cases "n1 = 2 ^ 64") (auto simp: n1_def)
  have i: "?i < length (table t1)" using inv ne by (auto simp: ht_inv_def ht_shape_idx)
  have sub: "set (table t1 ! ?i) \<subseteq> set (ht_entries t1)" using nth_entries [OF i] .
  have emit: "e \<in> set (table t1 ! ?i)"
    if e: "e \<in> set (ht_entries t1)" "rcur v \<le> rcur (hashFunction t (de_key e))" "rcur (hashFunction t (de_key e)) < n1" for e
  proof (rule bucket_emits [OF inv m(1) b64(1) e(1)])
    have "rcur (hashFunction t (de_key e)) div ?k < rcur v div ?k + 1"
      using e(3) unfolding n1_def by (intro less_mult_imp_div_less)
    moreover have "rcur v div ?k \<le> rcur (hashFunction t (de_key e)) div ?k" using e(2) by (intro div_le_mono)
    ultimately show "rcur (hashFunction t (de_key e)) div ?k = rcur v div ?k" by simp
  qed
  have z: "v1 AND (mask a XOR mask b) = 0 \<longleftrightarrow> rcur v1 mod ?K = 0" by (rule mask_diff_zero [OF ab b64(1) k1])
  have step: "scan_loop t1 (mask a) v =
      (if v1 AND (mask a XOR mask b) \<noteq> 0
       then do { (v, es) \<leftarrow> scan_loop t1 (mask a) v1; Some (v, table t1 ! ?i @ es) }
       else Some (v1, table t1 ! ?i))"
    using i by (subst scan_loop.simps) (simp add: m(1) v1_def Let_def)
  show ?case
  proof (cases "n1 = nx v")
    case True
    have "rcur v1 mod ?K = 0"
      using st(3) True n1_le unfolding r1 by (cases "n1 = 2 ^ 64") auto
    then have "scan_loop t1 (mask a) v = Some (v1, table t1 ! ?i)" using step z by simp
    with True r1 sub emit show ?thesis by auto
  next
    case False
    then have lt: "n1 < nx v" using st(2) by simp
    then have r1': "rcur v1 = n1" using r1 nx_le by simp
    then have nz: "v1 AND (mask a XOR mask b) \<noteq> 0" using st(3) False z by simp
    have nx1: "nx v1 = nx v" unfolding nx_def r1' using st(4) [OF False] by simp
    have "nx v1 - rcur v1 < nx v - rcur v" using st(1) lt unfolding nx1 r1' by simp
    from less [OF this] obtain v' es where l: "scan_loop t1 (mask a) v1 = Some (v', es)"
      "rcur v' = nx v mod 2 ^ 64" "set es \<subseteq> set (ht_entries t1)"
      "\<forall>e \<in> set (ht_entries t1). n1 \<le> rcur (hashFunction t (de_key e)) \<and> rcur (hashFunction t (de_key e)) < nx v \<longrightarrow> e \<in> set es"
      unfolding nx1 r1' by blast
    have "e \<in> set (table t1 ! ?i @ es)"
      if "e \<in> set (ht_entries t1)" "rcur v \<le> rcur (hashFunction t (de_key e))" "rcur (hashFunction t (de_key e)) < nx v" for e
      using emit l(4) that by (cases "rcur (hashFunction t (de_key e)) < n1") auto
    moreover have "scan_loop t1 (mask a) v = Some (v', table t1 ! ?i @ es)" using step nz l(1) by simp
    ultimately show ?thesis using l(2,3) sub by (intro exI [of _ v'] exI [of _ "table t1 ! ?i @ es"]) auto
  qed
qed

text \<open>
  One call, whatever the state of the dictionary: it covers an interval of reversed hashes that
  starts at the reversed cursor and is at least as long as a bucket of the old table.
\<close>

lemma interval_grows:
  fixes R :: nat
  assumes "a \<le> A" and "A \<le> 64"
  shows "R div 2 ^ (64 - A) < (R div 2 ^ (64 - a) + 1) * 2 ^ (64 - a) div 2 ^ (64 - A)"
proof -
  have p: "(2 :: nat) ^ (64 - a) = 2 ^ (A - a) * 2 ^ (64 - A)" using assms by (simp flip: power_add)
  then have eq: "(R div 2 ^ (64 - a) + 1) * 2 ^ (64 - a) div 2 ^ (64 - A) = (R div 2 ^ (64 - a) + 1) * 2 ^ (A - a)" by simp
  have "R < (R div 2 ^ (64 - a) + 1) * 2 ^ (64 - a)" by (rule in_interval_div(2)) simp_all
  also have "\<dots> = (R div 2 ^ (64 - a) + 1) * 2 ^ (A - a) * 2 ^ (64 - A)"
    by (simp only: p mult.assoc)
  finally show ?thesis unfolding eq by (intro less_mult_imp_div_less)
qed

lemma pow2_le_exp: "(2 :: nat) ^ a \<le> 2 ^ A \<Longrightarrow> a \<le> A"
  by (rule power_le_imp_le_exp [of 2]) simp_all

definition scan_covers :: "('k, 'v) dictType \<Rightarrow> ('k, 'v) dict \<Rightarrow> 64 word \<Rightarrow> nat \<Rightarrow> ('k, 'v) dictEntry list \<Rightarrow> bool" where
  "scan_covers t d v nx es \<longleftrightarrow> set es \<subseteq> set (dict_entries d) \<and>
     (\<forall>e \<in> set (dict_entries d). rcur v \<le> rcur (hashFunction t (de_key e)) \<and> rcur (hashFunction t (de_key e)) < nx \<longrightarrow> e \<in> set es)"

lemma two_tables_cover:
  fixes v :: "64 word"
  assumes t0: "ht_inv t t0" "table t0 \<noteq> []" "sizemask t0 = mask a" "a < 64"
    and t1: "ht_inv t t1" "table t1 \<noteq> []" "sizemask t1 = mask b" "b < 64" and ab: "a \<le> b"
  defines "nx \<equiv> (rcur v div 2 ^ (64 - a) + 1) * 2 ^ (64 - a)"
  shows "\<exists>v' es. do {
      c \<leftarrow> nth_opt (table t0) (bucket_idx t0 v);
      (v, es) \<leftarrow> scan_loop t1 (sizemask t0) v;
      Some (d, v, c @ es) } = Some (d, v', es)
    \<and> rcur v' = nx mod 2 ^ 64 \<and> set es \<subseteq> set (ht_entries t0) \<union> set (ht_entries t1)
    \<and> (\<forall>e \<in> set (ht_entries t0) \<union> set (ht_entries t1).
          rcur v \<le> rcur (hashFunction t (de_key e)) \<and> rcur (hashFunction t (de_key e)) < nx \<longrightarrow> e \<in> set es)"
proof -
  let ?i = "bucket_idx t0 v"
  have i: "?i < length (table t0)" using t0 by (auto simp: ht_inv_def ht_shape_idx)
  obtain v' es where l: "scan_loop t1 (mask a) v = Some (v', es)" "rcur v' = nx mod 2 ^ 64"
    "set es \<subseteq> set (ht_entries t1)"
    "\<forall>e \<in> set (ht_entries t1). rcur v \<le> rcur (hashFunction t (de_key e)) \<and> rcur (hashFunction t (de_key e)) < nx \<longrightarrow> e \<in> set es"
    using scan_loop_correct [OF t1 ab, of v] unfolding nx_def by blast
  have emit: "e \<in> set (table t0 ! ?i)"
    if e: "e \<in> set (ht_entries t0)" "rcur v \<le> rcur (hashFunction t (de_key e))" "rcur (hashFunction t (de_key e)) < nx" for e
  proof (rule bucket_emits [OF t0(1,3) _ e(1)])
    have "rcur (hashFunction t (de_key e)) div 2 ^ (64 - a) < rcur v div 2 ^ (64 - a) + 1"
      using e(3) unfolding nx_def by (intro less_mult_imp_div_less)
    moreover have "rcur v div 2 ^ (64 - a) \<le> rcur (hashFunction t (de_key e)) div 2 ^ (64 - a)" using e(2) by (intro div_le_mono)
    ultimately show "rcur (hashFunction t (de_key e)) div 2 ^ (64 - a) = rcur v div 2 ^ (64 - a)" by simp
  qed (use t0 in simp)
  show ?thesis
    using i l emit nth_entries [OF i] t0(3)
    by (intro exI [of _ v'] exI [of _ "table t0 ! ?i @ es"]) auto
qed

lemma dictScan_step:
  assumes inv: "dict_inv norm t d"
  shows "\<exists>v' es nx. dictScan d v = Some (d, v', es) \<and> scan_covers t d v nx es
    \<and> rcur v < nx \<and> nx \<le> 2 ^ 64 \<and> rcur v' = nx mod 2 ^ 64
    \<and> (\<forall>A \<le> 64. ht_size (ht0 d) \<le> 2 ^ A \<longrightarrow> rcur v div 2 ^ (64 - A) < nx div 2 ^ (64 - A))"
proof (cases "dictSize d = 0")
  case True
  have "dict_entries d = []" using inv True by (simp add: dict_inv_def dictSize_def ht_inv_def dict_entries_def)
  moreover have "rcur v div 2 ^ (64 - A) < 2 ^ 64 div 2 ^ (64 - A)" if "A \<le> 64" for A
  proof -
    have p: "(2 :: nat) ^ 64 = 2 ^ A * 2 ^ (64 - A)" using that by (simp flip: power_add)
    then have "rcur v div 2 ^ (64 - A) < 2 ^ A" using rcur_less [of v] by (intro less_mult_imp_div_less) simp
    then show ?thesis unfolding p by simp
  qed
  ultimately show ?thesis
    using True rcur_less [of v] by (intro exI [of _ 0] exI [of _ "[]"] exI [of _ "2 ^ 64"]) (simp add: dictScan_def scan_covers_def)
next
  case False
  have inv0: "ht_inv t (ht0 d)" and inv1: "ht_inv t (ht1 d)" using inv by (simp_all add: dict_inv_def)
  have ne0: "table (ht0 d) \<noteq> []"
    using inv False by (auto simp: dict_inv_def dictSize_def ht_inv_def ht_entries_def split: if_splits)
  obtain a0 where a0: "a0 < 64" "ht_size (ht0 d) = 2 ^ a0" "sizemask (ht0 d) = mask a0"
    using nonempty_shape [OF inv0 ne0] by blast
  have pr: "dictResumeRehashing (dictPauseRehashing d) = d" "dictIsRehashing (dictPauseRehashing d) = dictIsRehashing d"
    "ht0 (dictPauseRehashing d) = ht0 d" "ht1 (dictPauseRehashing d) = ht1 d"
    by (simp_all add: dictResumeRehashing_def dictPauseRehashing_def dictIsRehashing_def)
  have nx1: "rcur v < (rcur v div 2 ^ (64 - a) + 1) * 2 ^ (64 - a)" for a
    by (rule in_interval_div(2)) simp_all
  have nx2: "(rcur v div 2 ^ (64 - a) + 1) * 2 ^ (64 - a) \<le> 2 ^ 64" if "a < 64" for a
    using that by (intro next_le) simp
  have nx3: "\<forall>A \<le> 64. ht_size (ht0 d) \<le> 2 ^ A \<longrightarrow>
       rcur v div 2 ^ (64 - A) < (rcur v div 2 ^ (64 - a) + 1) * 2 ^ (64 - a) div 2 ^ (64 - A)" if "a \<le> a0" for a
  proof (intro allI impI)
    fix A :: nat assume A: "A \<le> 64" "ht_size (ht0 d) \<le> 2 ^ A"
    then have "a \<le> A" using pow2_le_exp [of a0 A] a0(2) that by simp
    then show "rcur v div 2 ^ (64 - A) < (rcur v div 2 ^ (64 - a) + 1) * 2 ^ (64 - a) div 2 ^ (64 - A)"
      using A(1) by (rule interval_grows)
  qed
  show ?thesis
  proof (cases "dictIsRehashing d")
    case nr: False
    let ?i = "bucket_idx (ht0 d) v" and ?nx = "(rcur v div 2 ^ (64 - a0) + 1) * 2 ^ (64 - a0)"
    have i: "?i < length (table (ht0 d))" using inv0 ne0 by (auto simp: ht_inv_def ht_shape_idx)
    have e1: "ht_entries (ht1 d) = []" using inv nr by (simp add: dict_inv_def ht_entries_def)
    have "e \<in> set (table (ht0 d) ! ?i)"
      if e: "e \<in> set (ht_entries (ht0 d))" "rcur v \<le> rcur (hashFunction t (de_key e))" "rcur (hashFunction t (de_key e)) < ?nx" for e
    proof (rule bucket_emits [OF inv0 a0(3) _ e(1)])
      have "rcur (hashFunction t (de_key e)) div 2 ^ (64 - a0) < rcur v div 2 ^ (64 - a0) + 1"
        using e(3) by (intro less_mult_imp_div_less)
      moreover have "rcur v div 2 ^ (64 - a0) \<le> rcur (hashFunction t (de_key e)) div 2 ^ (64 - a0)" using e(2) by (intro div_le_mono)
      ultimately show "rcur (hashFunction t (de_key e)) div 2 ^ (64 - a0) = rcur v div 2 ^ (64 - a0)" by simp
    qed (use a0 in simp)
    then have "scan_covers t d v ?nx (table (ht0 d) ! ?i)"
      using nth_entries [OF i] by (auto simp: scan_covers_def dict_entries_def e1)
    moreover have "dictScan d v = Some (d, scan_next (mask a0) v, table (ht0 d) ! ?i)"
      using False nr i by (simp add: dictScan_def pr a0(3) Let_def)
    ultimately show ?thesis
      using nx1 nx2 [OF a0(1)] nx3 [OF order_refl] rcur_scan_next [OF less_imp_le [OF a0(1)], of v] by blast
  next
    case rh: True
    then have ne1: "table (ht1 d) \<noteq> []" using inv by (simp add: dict_inv_def)
    obtain a1 where a1: "a1 < 64" "ht_size (ht1 d) = 2 ^ a1" "sizemask (ht1 d) = mask a1"
      using nonempty_shape [OF inv1 ne1] by blast
    obtain a where a: "a < 64" "a \<le> a0" and c: "\<exists>v' es. dictScan d v = Some (d, v', es)
        \<and> rcur v' = (rcur v div 2 ^ (64 - a) + 1) * 2 ^ (64 - a) mod 2 ^ 64
        \<and> set es \<subseteq> set (ht_entries (ht0 d)) \<union> set (ht_entries (ht1 d))
        \<and> (\<forall>e \<in> set (ht_entries (ht0 d)) \<union> set (ht_entries (ht1 d)). rcur v \<le> rcur (hashFunction t (de_key e))
            \<and> rcur (hashFunction t (de_key e)) < (rcur v div 2 ^ (64 - a) + 1) * 2 ^ (64 - a) \<longrightarrow> e \<in> set es)"
    proof (cases "ht_size (ht0 d) > ht_size (ht1 d)")
      case True
      have ds: "dictScan d v = do {
          c \<leftarrow> nth_opt (table (ht1 d)) (bucket_idx (ht1 d) v);
          (v, es) \<leftarrow> scan_loop (ht0 d) (sizemask (ht1 d)) v;
          Some (d, v, c @ es) }"
        using True False rh by (simp add: dictScan_def pr Let_def)
      have le: "a1 \<le> a0" using True a0(2) a1(2) by (simp add: power_strict_increasing_iff)
      show ?thesis
        using two_tables_cover [OF inv1 ne1 a1(3,1) inv0 ne0 a0(3,1) le, where v = v and d = d, folded ds]
        unfolding Un_commute [of "set (ht_entries (ht1 d))"] by (rule that [OF a1(1) le])
    next
      case nswap: False
      have ds: "dictScan d v = do {
          c \<leftarrow> nth_opt (table (ht0 d)) (bucket_idx (ht0 d) v);
          (v, es) \<leftarrow> scan_loop (ht1 d) (sizemask (ht0 d)) v;
          Some (d, v, c @ es) }"
        using nswap False rh by (simp add: dictScan_def pr Let_def)
      have le: "a0 \<le> a1" using nswap unfolding a0(2) a1(2) not_less by (rule pow2_le_exp)
      show ?thesis
        using two_tables_cover [OF inv0 ne0 a0(3,1) inv1 ne1 a1(3,1) le, where v = v and d = d, folded ds]
        by (rule that [OF a0(1) order_refl])
    qed
    then obtain v' es where s: "dictScan d v = Some (d, v', es)"
      "rcur v' = (rcur v div 2 ^ (64 - a) + 1) * 2 ^ (64 - a) mod 2 ^ 64"
      "scan_covers t d v ((rcur v div 2 ^ (64 - a) + 1) * 2 ^ (64 - a)) es"
      unfolding scan_covers_def dict_entries_def set_append by blast
    show ?thesis
      by (intro exI [of _ v'] exI [of _ es] exI [of _ "(rcur v div 2 ^ (64 - a) + 1) * 2 ^ (64 - a)"] conjI
          s nx1 nx2 [OF a(1)] nx3 [OF a(2)])
  qed
qed

section \<open>A whole iteration\<close>

text \<open>
  The calls of one iteration, up to the first that returns the cursor zero; \<open>ds\<close> are the states
  of the dictionary at the calls, between which anything may have happened to it. The flag says
  whether the iteration has ended.
\<close>

fun scan_run :: "('k, 'v) dict list \<Rightarrow> 64 word \<Rightarrow> (bool \<times> ('k, 'v) dictEntry list) option" where
  "scan_run [] v = Some (False, [])"
| "scan_run (d # ds) v = do {
     (d, v, es) \<leftarrow> dictScan d v;
     if v = 0 then Some (True, es)
     else do { (fin, es') \<leftarrow> scan_run ds v; Some (fin, es @ es') }
   }"

text \<open>Cursors as intervals: a call either ends the iteration at the top of the range or moves on.\<close>

lemma dictScan_cases:
  assumes "dict_inv norm t d"
  shows "\<exists>v' es nx. dictScan d v = Some (d, v', es) \<and> scan_covers t d v nx es
    \<and> (v' = 0 \<and> nx = 2 ^ 64 \<or> v' \<noteq> 0 \<and> rcur v' = nx)
    \<and> (\<forall>A \<le> 64. ht_size (ht0 d) \<le> 2 ^ A \<longrightarrow> rcur v div 2 ^ (64 - A) < nx div 2 ^ (64 - A))"
proof -
  obtain v' es nx where s: "dictScan d v = Some (d, v', es)" "scan_covers t d v nx es"
    "rcur v < nx" "nx \<le> 2 ^ 64" "rcur v' = nx mod 2 ^ 64"
    "\<forall>A \<le> 64. ht_size (ht0 d) \<le> 2 ^ A \<longrightarrow> rcur v div 2 ^ (64 - A) < nx div 2 ^ (64 - A)"
    using dictScan_step [OF assms, of v] by blast
  have "v' = 0 \<and> nx = 2 ^ 64 \<or> v' \<noteq> 0 \<and> rcur v' = nx"
  proof (cases "nx = 2 ^ 64")
    case True
    with s(5) have "rcur v' = 0" by simp
    with True show ?thesis by simp
  next
    case False
    with s(4,5) have "rcur v' = nx" by simp
    moreover from this s(3) have "v' \<noteq> 0" using rcur_0 [of v'] by linarith
    ultimately show ?thesis by blast
  qed
  with s show ?thesis by blast
qed

lemma scan_run_total:
  assumes "\<forall>d \<in> set ds. dict_inv norm t d"
  shows "\<exists>fin es. scan_run ds v = Some (fin, es) \<and> set es \<subseteq> (\<Union>d \<in> set ds. set (dict_entries d))"
  using assms
proof (induction ds arbitrary: v)
  case (Cons d ds)
  obtain v' es where s: "dictScan d v = Some (d, v', es)" "set es \<subseteq> set (dict_entries d)"
    using dictScan_cases [of norm t d v] Cons.prems by (auto simp: scan_covers_def)
  obtain fin es' where "scan_run ds v' = Some (fin, es')" "set es' \<subseteq> (\<Union>d \<in> set ds. set (dict_entries d))"
    using Cons.IH [of v'] Cons.prems by auto
  with s show ?case by auto
qed auto

lemma scan_run_ends:
  assumes "\<forall>d \<in> set ds. dict_inv norm t d \<and> ht_size (ht0 d) \<le> 2 ^ A" and "A \<le> 64"
    and "2 ^ A \<le> rcur v div 2 ^ (64 - A) + length ds"
  shows "\<exists>es. scan_run ds v = Some (True, es)"
  using assms(1,3)
proof (induction ds arbitrary: v)
  case Nil
  have "(2 :: nat) ^ 64 = 2 ^ A * 2 ^ (64 - A)" using assms(2) by (simp flip: power_add)
  then have "rcur v div 2 ^ (64 - A) < 2 ^ A" using rcur_less [of v] by (intro less_mult_imp_div_less) simp
  with Nil show ?case by simp
next
  case (Cons d ds)
  obtain v' es nx where s: "dictScan d v = Some (d, v', es)" "v' = 0 \<and> nx = 2 ^ 64 \<or> v' \<noteq> 0 \<and> rcur v' = nx"
    "rcur v div 2 ^ (64 - A) < nx div 2 ^ (64 - A)"
    using dictScan_cases [of norm t d v] Cons.prems(1) assms(2) by fastforce
  show ?case
  proof (cases "v' = 0")
    case True
    with s(1) show ?thesis by simp
  next
    case False
    with s Cons.prems(2) have "2 ^ A \<le> rcur v' div 2 ^ (64 - A) + length ds" by simp
    then obtain es' where "scan_run ds v' = Some (True, es')" using Cons.IH [of v'] Cons.prems(1) by auto
    with s(1) False show ?thesis by simp
  qed
qed

context dict_type
begin

lemma scan_run_complete:
  assumes "\<forall>d \<in> set ds. dict_inv norm t d \<and> norm k \<in> dom (dmap norm d)"
    and "rcur v \<le> rcur (hashFunction t k)" and "scan_run ds v = Some (True, es)"
  shows "\<exists>e \<in> set es. norm (de_key e) = norm k"
  using assms
proof (induction ds arbitrary: v es)
  case (Cons d ds)
  obtain v' es1 nx where s: "dictScan d v = Some (d, v', es1)" "scan_covers t d v nx es1"
    "v' = 0 \<and> nx = 2 ^ 64 \<or> v' \<noteq> 0 \<and> rcur v' = nx"
    using dictScan_cases [of norm t d v] Cons.prems(1) by auto
  obtain e where e: "e \<in> set (dict_entries d)" "norm (de_key e) = norm k"
    using Cons.prems(1) by (auto simp: dmap_dom)
  have h: "hashFunction t (de_key e) = hashFunction t k" using hash_norm e(2) by blast
  show ?case
  proof (cases "rcur (hashFunction t k) < nx")
    case True
    then have "e \<in> set es1" using s(2) e h Cons.prems(2) by (simp add: scan_covers_def)
    moreover have "set es1 \<subseteq> set es"
      using Cons.prems(3) s(1) by (auto simp: bind_eq_Some_conv split: if_splits)
    ultimately show ?thesis using e(2) by blast
  next
    case False
    then have "nx \<noteq> 2 ^ 64" using rcur_less [of "hashFunction t k"] by linarith
    with s(3) have "v' \<noteq> 0" "rcur v' = nx" by auto
    with Cons.prems(3) s(1) obtain es' where es': "scan_run ds v' = Some (True, es')" "set es' \<subseteq> set es"
      by (auto simp: bind_eq_Some_conv split: if_splits)
    have "rcur v' \<le> rcur (hashFunction t k)" using False \<open>rcur v' = nx\<close> by simp
    from Cons.IH [OF _ this es'(1)] Cons.prems(1) es'(2) show ?thesis by auto
  qed
qed simp

end

section \<open>Properties\<close>



text \<open> C12: An iteration ends. As long as the (old) table has at most \<open>2 ^ A\<close> buckets at every call,
the cursor comes back to zero within \<open>2 ^ A\<close> calls, whatever else happens in between; the time of an
iteration is thus bounded by the largest table it meets.\<close>

theorem dictScan_terminates:
  assumes "\<forall>d \<in> set ds. dict_inv norm t d \<and> ht_size (ht0 d) \<le> 2 ^ A" and "A \<le> 64" and "2 ^ A \<le> length ds"
  shows "\<exists>es. scan_run ds 0 = Some (True, es)"
  using assms by (intro scan_run_ends [of ds norm t A]) auto

theorem dictScan_terminates_witness:
  "\<exists>es. scan_run [sample_dict, sample_dict, sample_dict, sample_dict] 0 = Some (True, es)"
  by (rule dictScan_terminates [of _ id sample_type 2]) (simp_all add: sample_dict_inv sample_dict_entries)

text \<open> C34: \<open>rev\<close>, five rounds of masked shifts after the first, reverses the 64 bits of the cursor.\<close>

theorem rev_reverses: "rev_bits v = word_reverse v"
  by (rule bit_word_eqI) (simp add: bit_rev_bits bit_word_reverse_iff)

end
