(* ===== verification/Siphash.thy ===== *)
theory Siphash
  imports Redis_Prelude
begin

unbundle bit_operations_syntax

text \<open>
  SipHash 1-2 of \<open>siphash.c\<close>, the hash function of every dictionary keyed by strings, and its
  case-insensitive variant. The two C functions are the same text except that the second passes
  every byte of the input through \<open>siptlw\<close>; here the byte map is a parameter. The 64-bit loads are
  the portable form of the macros.
\<close>

definition siptlw :: "byte \<Rightarrow> byte" where
  "siptlw c = (if c \<ge> ch CHR ''A'' \<and> c \<le> ch CHR ''Z'' then c + (ch CHR ''a'' - ch CHR ''A'') else c)"

definition ROTL :: "64 word \<Rightarrow> nat \<Rightarrow> 64 word" where
  "ROTL x b = push_bit b x OR drop_bit (64 - b) x"

text \<open>\<open>U8TO64_LE\<close> and \<open>U8TO64_LE_NOCASE\<close> at the front of a buffer; \<open>None\<close> reads outside of it.\<close>

definition U8TO64_LE :: "(byte \<Rightarrow> byte) \<Rightarrow> mem \<Rightarrow> 64 word option" where
  "U8TO64_LE f p = (case p of
     p0 # p1 # p2 # p3 # p4 # p5 # p6 # p7 # _ \<Rightarrow>
       Some (ucast (f p0) OR push_bit 8 (ucast (f p1)) OR
         push_bit 16 (ucast (f p2)) OR push_bit 24 (ucast (f p3)) OR
         push_bit 32 (ucast (f p4)) OR push_bit 40 (ucast (f p5)) OR
         push_bit 48 (ucast (f p6)) OR push_bit 56 (ucast (f p7)))
   | _ \<Rightarrow> None)"

record sip =
  sv0 :: "64 word"
  sv1 :: "64 word"
  sv2 :: "64 word"
  sv3 :: "64 word"

definition SIPROUND :: "sip \<Rightarrow> sip" where
  "SIPROUND s =
     (let v0 = sv0 s; v1 = sv1 s; v2 = sv2 s; v3 = sv3 s;
          v0 = v0 + v1; v1 = ROTL v1 13; v1 = v1 XOR v0; v0 = ROTL v0 32;
          v2 = v2 + v3; v3 = ROTL v3 16; v3 = v3 XOR v2;
          v0 = v0 + v3; v3 = ROTL v3 21; v3 = v3 XOR v0;
          v2 = v2 + v1; v1 = ROTL v1 17; v1 = v1 XOR v2; v2 = ROTL v2 32
      in \<lparr>sv0 = v0, sv1 = v1, sv2 = v2, sv3 = v3\<rparr>)"

text \<open>The loop over whole words; \<open>n\<close> is the number of words left.\<close>

primrec sip_blocks :: "(byte \<Rightarrow> byte) \<Rightarrow> nat \<Rightarrow> mem \<Rightarrow> sip \<Rightarrow> (mem \<times> sip) option" where
  "sip_blocks f 0 p s = Some (p, s)"
| "sip_blocks f (Suc n) p s = do {
     m \<leftarrow> U8TO64_LE f p;
     let s = s\<lparr>sv3 := sv3 s XOR m\<rparr>;
     let s = SIPROUND s;
     let s = s\<lparr>sv0 := sv0 s XOR m\<rparr>;
     sip_blocks f n (drop 8 p) s
   }"

text \<open>The \<open>switch\<close> over the remaining bytes, from the last to the first (the cases fall through).\<close>

primrec sip_tail :: "(byte \<Rightarrow> byte) \<Rightarrow> mem \<Rightarrow> nat \<Rightarrow> 64 word \<Rightarrow> 64 word option" where
  "sip_tail f p 0 b = Some b"
| "sip_tail f p (Suc left) b = do {
     c \<leftarrow> mem_get left p;
     sip_tail f p left (b OR push_bit (8 * left) (ucast (f c)))
   }"

definition siphash_gen :: "(byte \<Rightarrow> byte) \<Rightarrow> mem \<Rightarrow> nat \<Rightarrow> mem \<Rightarrow> 64 word option" where
  "siphash_gen f input inlen k = do {
     let v0 = 0x736f6d6570736575;
     let v1 = 0x646f72616e646f6d;
     let v2 = 0x6c7967656e657261;
     let v3 = 0x7465646279746573;
     k0 \<leftarrow> U8TO64_LE (\<lambda>c. c) k;
     k1 \<leftarrow> U8TO64_LE (\<lambda>c. c) (drop 8 k);
     let left = inlen mod 8;
     let b = push_bit 56 (of_nat inlen);
     (p, s) \<leftarrow> sip_blocks f (inlen div 8) input
       \<lparr>sv0 = v0 XOR k0, sv1 = v1 XOR k1, sv2 = v2 XOR k0, sv3 = v3 XOR k1\<rparr>;
     b \<leftarrow> sip_tail f p left b;
     let s = s\<lparr>sv3 := sv3 s XOR b\<rparr>;
     let s = SIPROUND s;
     let s = s\<lparr>sv0 := sv0 s XOR b, sv2 := sv2 s XOR 0xff\<rparr>;
     let s = SIPROUND (SIPROUND s);
     Some (sv0 s XOR sv1 s XOR sv2 s XOR sv3 s)
   }"

definition siphash :: "mem \<Rightarrow> nat \<Rightarrow> mem \<Rightarrow> 64 word option" where
  "siphash = siphash_gen (\<lambda>c. c)"

definition siphash_nocase :: "mem \<Rightarrow> nat \<Rightarrow> mem \<Rightarrow> 64 word option" where
  "siphash_nocase = siphash_gen siptlw"

section \<open>Reads stay in the buffers\<close>

lemma length_8: "8 \<le> length p \<Longrightarrow> \<exists>p0 p1 p2 p3 p4 p5 p6 p7 q. p = p0 # p1 # p2 # p3 # p4 # p5 # p6 # p7 # q"
  by (auto simp: numeral_eq_Suc Suc_le_length_iff)

lemma U8TO64_LE_Some: "8 \<le> length p \<Longrightarrow> \<exists>m. U8TO64_LE f p = Some m"
  using length_8 [of p] by (auto simp: U8TO64_LE_def)

lemma sip_blocks_Some:
  "n * 8 \<le> length p \<Longrightarrow> \<exists>s'. sip_blocks f n p s = Some (drop (n * 8) p, s')"
proof (induction n arbitrary: p s)
  case (Suc n)
  then obtain m where "U8TO64_LE f p = Some m" using U8TO64_LE_Some [of p f] by auto
  moreover have "n * 8 \<le> length (drop 8 p)" using Suc.prems by simp
  ultimately show ?case using Suc.IH [of "drop 8 p"] by (auto simp: Let_def add.commute)
qed simp

lemma sip_tail_Some: "left \<le> length p \<Longrightarrow> \<exists>b'. sip_tail f p left b = Some b'"
  by (induction left arbitrary: b) (simp_all add: mem_get_Some)

lemma siphash_gen_Some:
  assumes "16 \<le> length k"
  shows "\<exists>h. siphash_gen f input (length input) k = Some h"
proof -
  have l: "8 \<le> length k" "8 \<le> length (drop 8 k)" using assms by simp_all
  obtain k0 k1 where k: "U8TO64_LE (\<lambda>c. c) k = Some k0" "U8TO64_LE (\<lambda>c. c) (drop 8 k) = Some k1"
    using U8TO64_LE_Some [OF l(1)] U8TO64_LE_Some [OF l(2)] by blast
  have n: "length input div 8 * 8 \<le> length input" by simp
  have "length input mod 8 \<le> length (drop (length input div 8 * 8) input)"
    by (simp add: minus_div_mult_eq_mod)
  note t = sip_tail_Some [OF this]
  obtain s' where "sip_blocks f (length input div 8) input
      \<lparr>sv0 = 0x736f6d6570736575 XOR k0, sv1 = 0x646f72616e646f6d XOR k1, sv2 = 0x6c7967656e657261 XOR k0, sv3 = 0x7465646279746573 XOR k1\<rparr>
      = Some (drop (length input div 8 * 8) input, s')"
    using sip_blocks_Some [OF n] by blast
  with k t [of f "push_bit 56 (of_nat (length input))"] show ?thesis
    by (auto simp: siphash_gen_def Let_def)
qed

section \<open>Case\<close>

lemma U8TO64_LE_map: "U8TO64_LE f (map g p) = U8TO64_LE (\<lambda>c. f (g c)) p"
proof (cases "8 \<le> length p")
  case True
  from length_8 [OF this] show ?thesis by (auto simp: U8TO64_LE_def)
next
  case False
  then show ?thesis by (auto simp: U8TO64_LE_def split: list.splits)
qed

lemma sip_blocks_map:
  "sip_blocks f n (map g p) s = map_option (\<lambda>(p, s). (map g p, s)) (sip_blocks (\<lambda>c. f (g c)) n p s)"
  by (induction n arbitrary: p s) (auto simp: U8TO64_LE_map drop_map Let_def split: Option.bind_split)

lemma sip_tail_map: "sip_tail f (map g p) left b = sip_tail (\<lambda>c. f (g c)) p left b"
  by (induction left arbitrary: b) (auto simp: mem_get_def split: Option.bind_split)

lemma siphash_gen_map: "siphash_gen f (map g p) n k = siphash_gen (\<lambda>c. f (g c)) p n k"
  unfolding siphash_gen_def Let_def
  by (auto simp: sip_blocks_map sip_tail_map option.map_comp split: Option.bind_split)

section \<open>Only the given length is read\<close>

lemma U8TO64_LE_append: "8 \<le> length p \<Longrightarrow> U8TO64_LE f (p @ t) = U8TO64_LE f p"
  using length_8 [of p] by (auto simp: U8TO64_LE_def)

lemma sip_blocks_append:
  "n * 8 \<le> length p \<Longrightarrow> sip_blocks f n (p @ t) s = map_option (\<lambda>(q, s). (q @ t, s)) (sip_blocks f n p s)"
proof (induction n arbitrary: p s)
  case (Suc n)
  have l: "n * 8 \<le> length (drop 8 p)" "8 \<le> length p" using Suc.prems by simp_all
  show ?case using Suc.IH [OF l(1)] l(2)
    by (auto simp: U8TO64_LE_append Let_def split: Option.bind_split)
qed simp

lemma sip_tail_append: "left \<le> length p \<Longrightarrow> sip_tail f (p @ t) left b = sip_tail f p left b"
  by (induction left arbitrary: b) (auto simp: mem_get_def nth_append split: Option.bind_split)

lemma siphash_gen_append: "siphash_gen f (s @ t) (length s) k = siphash_gen f s (length s) k"
proof -
  have n: "length s div 8 * 8 \<le> length s" by simp
  have l: "length s mod 8 \<le> length (drop (length s div 8 * 8) s)"
    by (simp add: minus_div_mult_eq_mod)
  note b = sip_blocks_append [OF n, of f t] sip_blocks_Some [OF n, of f]
  have step: "(sip_blocks f (length s div 8) (s @ t) s0 \<bind> (\<lambda>(p, s'). sip_tail f p (length s mod 8) c \<bind> g s')) =
      (sip_blocks f (length s div 8) s s0 \<bind> (\<lambda>(p, s'). sip_tail f p (length s mod 8) c \<bind> g s'))" for s0 c g
    using b(2) [of s0] by (auto simp: b(1) sip_tail_append [OF l])
  show ?thesis by (simp add: siphash_gen_def Let_def step)
qed

section \<open>Properties\<close>

text \<open> C29: The case-insensitive hash is the hash of the lower-cased input: keys that differ only in
the case of their letters have the same hash, for every seed.\<close>

theorem siphash_nocase_lower: "siphash_nocase input n k = siphash (map siptlw input) n k"
  by (simp add: siphash_nocase_def siphash_def siphash_gen_map)

text \<open> C30: Both hash functions read only the \<open>length input\<close> bytes of the key and the 16 bytes of
the seed.\<close>

theorem siphash_in_bounds:
  assumes "16 \<le> length k"
  shows "siphash input (length input) k \<noteq> None \<and> siphash_nocase input (length input) k \<noteq> None"
  using siphash_gen_Some [OF assms, of "\<lambda>c. c" input] siphash_gen_Some [OF assms, of siptlw input]
  by (simp add: siphash_def siphash_nocase_def)

theorem siphash_in_bounds_witness:
  "siphash [1, 2, 3] 3 (replicate 16 0) \<noteq> None \<and> siphash_nocase [1, 2, 3] 3 (replicate 16 0) \<noteq> None"
  using siphash_in_bounds [of "replicate 16 0" "[1, 2, 3]"] by (simp add: numeral_3_eq_3)

end
