(* ===== verification/Objects.thy ===== *)
theory Objects
  imports Util
begin

text \<open>
  String objects of \<open>object.c\<close>: the same bytes may be stored as a raw string, as a string embedded
  in the object, or as a \<open>long\<close>. \<open>obj_bytes\<close> is the string an object stands for; the lemmas show
  that every routine depends on it only, whatever the encoding, and that re-encoding keeps it.

  \<open>share\<close> stands for the test that the eviction policy permits shared integers. The LRU field and
  the release of memory are left out.
\<close>

section \<open>Data\<close>

text \<open>A raw string comes with the free space at its end.\<close>

datatype encoding_str = Raw mem nat | Embstr mem | EncInt int

record sobj =
  enc :: encoding_str
  refcount :: int

definition OBJ_SHARED_REFCOUNT :: int where "OBJ_SHARED_REFCOUNT = 2 ^ 31 - 1"
definition OBJ_STATIC_REFCOUNT :: int where "OBJ_STATIC_REFCOUNT = OBJ_SHARED_REFCOUNT - 1"
definition OBJ_SHARED_INTEGERS :: int where "OBJ_SHARED_INTEGERS = 10000"
definition OBJ_ENCODING_EMBSTR_SIZE_LIMIT :: nat where "OBJ_ENCODING_EMBSTR_SIZE_LIMIT = 44"

fun sdsEncodedObject :: "sobj \<Rightarrow> bool" where
  "sdsEncodedObject o1 = (case enc o1 of EncInt _ \<Rightarrow> False | _ \<Rightarrow> True)"

section \<open>Reference counts\<close>

text \<open>\<open>None\<close> is a \<open>serverPanic\<close>.\<close>

definition incrRefCount :: "sobj \<Rightarrow> sobj option" where
  "incrRefCount o1 =
     (if refcount o1 < OBJ_STATIC_REFCOUNT then Some (o1\<lparr>refcount := refcount o1 + 1\<rparr>)
      else if refcount o1 = OBJ_SHARED_REFCOUNT then Some o1
      else if refcount o1 = OBJ_STATIC_REFCOUNT then None
      else Some o1)"

text \<open>The inner \<open>None\<close> is an object that has been freed.\<close>

definition decrRefCount :: "sobj \<Rightarrow> sobj option option" where
  "decrRefCount o1 =
     (if refcount o1 = 1 then Some None
      else if refcount o1 \<le> 0 then None
      else if refcount o1 \<noteq> OBJ_SHARED_REFCOUNT then Some (Some (o1\<lparr>refcount := refcount o1 - 1\<rparr>))
      else Some (Some o1))"

definition makeObjectShared :: "sobj \<Rightarrow> sobj option" where
  "makeObjectShared o1 =
     (if refcount o1 = 1 then Some (o1\<lparr>refcount := OBJ_SHARED_REFCOUNT\<rparr>) else None)"

section \<open>Creation\<close>

definition createRawStringObject :: "mem \<Rightarrow> sobj" where
  "createRawStringObject s = \<lparr>enc = Raw s 0, refcount = 1\<rparr>"

definition createEmbeddedStringObject :: "mem \<Rightarrow> sobj" where
  "createEmbeddedStringObject s = \<lparr>enc = Embstr s, refcount = 1\<rparr>"

definition createStringObject :: "mem \<Rightarrow> sobj" where
  "createStringObject s =
     (if length s \<le> OBJ_ENCODING_EMBSTR_SIZE_LIMIT then createEmbeddedStringObject s
      else createRawStringObject s)"

definition shared_integer :: "int \<Rightarrow> sobj" where
  "shared_integer v = \<lparr>enc = EncInt v, refcount = OBJ_SHARED_REFCOUNT\<rparr>"

definition createStringObjectFromLongLongWithOptions :: "bool \<Rightarrow> int \<Rightarrow> bool \<Rightarrow> sobj" where
  "createStringObjectFromLongLongWithOptions share value valueobj =
     (let valueobj = (if share then False else valueobj) in
      if value \<ge> 0 \<and> value < OBJ_SHARED_INTEGERS \<and> \<not> valueobj then shared_integer value
      else if value \<ge> LLONG_MIN \<and> value \<le> LLONG_MAX then \<lparr>enc = EncInt value, refcount = 1\<rparr>
      else \<lparr>enc = Raw (dec_int value) 0, refcount = 1\<rparr>)"

definition createStringObjectFromLongLong :: "bool \<Rightarrow> int \<Rightarrow> sobj" where
  "createStringObjectFromLongLong share value = createStringObjectFromLongLongWithOptions share value False"

definition createStringObjectFromLongLongForValue :: "bool \<Rightarrow> int \<Rightarrow> sobj" where
  "createStringObjectFromLongLongForValue share value = createStringObjectFromLongLongWithOptions share value True"

definition dupStringObject :: "sobj \<Rightarrow> sobj" where
  "dupStringObject o1 = (case enc o1 of
     Raw s _ \<Rightarrow> createRawStringObject s
   | Embstr s \<Rightarrow> createEmbeddedStringObject s
   | EncInt v \<Rightarrow> \<lparr>enc = EncInt v, refcount = 1\<rparr>)"

section \<open>Encoding\<close>

definition isSdsRepresentableAsLongLong :: "mem \<Rightarrow> int option" where
  "isSdsRepresentableAsLongLong s = string2ll s"

definition isObjectRepresentableAsLongLong :: "sobj \<Rightarrow> int option" where
  "isObjectRepresentableAsLongLong o1 = (case enc o1 of
     EncInt v \<Rightarrow> Some v
   | Raw s _ \<Rightarrow> isSdsRepresentableAsLongLong s
   | Embstr s \<Rightarrow> isSdsRepresentableAsLongLong s)"

definition trimStringObjectIfNeeded :: "sobj \<Rightarrow> sobj" where
  "trimStringObjectIfNeeded o1 = (case enc o1 of
     Raw s avail \<Rightarrow> if avail > length s div 10 then o1\<lparr>enc := Raw s 0\<rparr> else o1
   | _ \<Rightarrow> o1)"

text \<open>After the integer branch of \<open>tryObjectEncoding\<close>.\<close>

definition tryEmbedding :: "sobj \<Rightarrow> mem \<Rightarrow> sobj" where
  "tryEmbedding o1 s =
     (if length s \<le> OBJ_ENCODING_EMBSTR_SIZE_LIMIT then
        (case enc o1 of Embstr _ \<Rightarrow> o1 | _ \<Rightarrow> createEmbeddedStringObject s)
      else trimStringObjectIfNeeded o1)"

definition tryObjectEncoding :: "bool \<Rightarrow> sobj \<Rightarrow> sobj" where
  "tryObjectEncoding share o1 = (case enc o1 of
     EncInt _ \<Rightarrow> o1
   | Raw s avail \<Rightarrow>
       if refcount o1 > 1 then o1
       else (case (if length s \<le> 20 then string2l s else None) of
         Some value \<Rightarrow>
           if share \<and> value \<ge> 0 \<and> value < OBJ_SHARED_INTEGERS then shared_integer value
           else o1\<lparr>enc := EncInt value\<rparr>
       | None \<Rightarrow> tryEmbedding o1 s)
   | Embstr s \<Rightarrow>
       if refcount o1 > 1 then o1
       else (case (if length s \<le> 20 then string2l s else None) of
         Some value \<Rightarrow>
           if share \<and> value \<ge> 0 \<and> value < OBJ_SHARED_INTEGERS then shared_integer value
           else createStringObjectFromLongLongForValue share value
       | None \<Rightarrow> tryEmbedding o1 s))"

section \<open>Decoding and comparison\<close>

text \<open>The decimal form that \<open>ll2string\<close> leaves in a local buffer of the given size, up to the
terminating zero byte.\<close>

definition ll_buf :: "nat \<Rightarrow> int \<Rightarrow> mem option" where
  "ll_buf n v = do { (len, buf) \<leftarrow> ll2string (replicate n 0) n v; Some (take len buf) }"

definition getDecodedObject :: "sobj \<Rightarrow> sobj option" where
  "getDecodedObject o1 = (case enc o1 of
     EncInt v \<Rightarrow> do {
       (len, buf) \<leftarrow> ll2string (replicate 32 0) 32 v;
       Some (createStringObject (takeWhile (\<lambda>c. c \<noteq> 0) buf))
     }
   | _ \<Rightarrow> incrRefCount o1)"

text \<open>\<open>memcmp\<close>: only the sign of the result is specified.\<close>

fun memcmp :: "mem \<Rightarrow> mem \<Rightarrow> nat \<Rightarrow> int" where
  "memcmp (a # as) (b # bs) (Suc n) = (if a = b then memcmp as bs n else int (unat a) - int (unat b))"
| "memcmp _ _ _ = 0"

text \<open>The bytes an object is compared by.\<close>

definition compare_bytes :: "sobj \<Rightarrow> mem option" where
  "compare_bytes o1 = (case enc o1 of EncInt v \<Rightarrow> ll_buf 128 v | Raw s _ \<Rightarrow> Some s | Embstr s \<Rightarrow> Some s)"

text \<open>\<open>compareStringObjects\<close> (binary comparison). The difference of the lengths, a \<open>size_t\<close>, is
returned as an \<open>int\<close>.\<close>

definition compareStringObjects :: "sobj \<Rightarrow> sobj \<Rightarrow> int option" where
  "compareStringObjects a b = do {
     astr \<leftarrow> compare_bytes a;
     bstr \<leftarrow> compare_bytes b;
     let minlen = (if length astr < length bstr then length astr else length bstr);
     let cmp = memcmp astr bstr minlen;
     if cmp = 0 then Some (to_i32 (int (length astr) - int (length bstr))) else Some cmp
   }"

definition equalStringObjects :: "sobj \<Rightarrow> sobj \<Rightarrow> bool option" where
  "equalStringObjects a b = (case (enc a, enc b) of
     (EncInt v, EncInt w) \<Rightarrow> Some (v = w)
   | _ \<Rightarrow> map_option (\<lambda>c. c = 0) (compareStringObjects a b))"

definition stringObjectLen :: "sobj \<Rightarrow> nat" where
  "stringObjectLen o1 = (case enc o1 of Raw s _ \<Rightarrow> length s | Embstr s \<Rightarrow> length s | EncInt v \<Rightarrow> sdigits10 v)"

section \<open>Numbers from objects\<close>

text \<open>A missing object (\<open>NULL\<close>) counts as zero. In the \<open>OrReply\<close> forms \<open>Inl\<close> is the error sent.\<close>

definition getLongLongFromObject :: "sobj option \<Rightarrow> int option" where
  "getLongLongFromObject ob = (case ob of
     None \<Rightarrow> Some 0
   | Some o1 \<Rightarrow> (case enc o1 of EncInt v \<Rightarrow> Some v | Raw s _ \<Rightarrow> string2ll s | Embstr s \<Rightarrow> string2ll s))"

definition reply_msg :: "string option \<Rightarrow> string \<Rightarrow> string" where
  "reply_msg msg dflt = (case msg of Some m \<Rightarrow> m | None \<Rightarrow> dflt)"

definition dec_text :: "int \<Rightarrow> string" where
  "dec_text v = map (\<lambda>b. char_of (unat b)) (dec_int v)"

definition getLongLongFromObjectOrReply :: "sobj option \<Rightarrow> string option \<Rightarrow> string + int" where
  "getLongLongFromObjectOrReply ob msg = (case getLongLongFromObject ob of
     None \<Rightarrow> Inl (reply_msg msg ''value is not an integer or out of range'')
   | Some v \<Rightarrow> Inr v)"

definition getLongFromObjectOrReply :: "sobj option \<Rightarrow> string option \<Rightarrow> string + int" where
  "getLongFromObjectOrReply ob msg = (case getLongLongFromObjectOrReply ob msg of
     Inl e \<Rightarrow> Inl e
   | Inr v \<Rightarrow> if v < LLONG_MIN \<or> v > LLONG_MAX then Inl (reply_msg msg ''value is out of range'') else Inr v)"

definition getRangeLongFromObjectOrReply ::
  "sobj option \<Rightarrow> int \<Rightarrow> int \<Rightarrow> string option \<Rightarrow> string + int" where
  "getRangeLongFromObjectOrReply ob lo hi msg = (case getLongFromObjectOrReply ob msg of
     Inl e \<Rightarrow> Inl e
   | Inr v \<Rightarrow>
       if v < lo \<or> v > hi
       then Inl (reply_msg msg (''value is out of range, value must between ''
                  @ dec_text lo @ '' and '' @ dec_text hi))
       else Inr v)"

definition getPositiveLongFromObjectOrReply :: "sobj option \<Rightarrow> string option \<Rightarrow> string + int" where
  "getPositiveLongFromObjectOrReply ob msg = getRangeLongFromObjectOrReply ob 0 LLONG_MAX msg"

definition getIntFromObjectOrReply :: "sobj option \<Rightarrow> string option \<Rightarrow> string + int" where
  "getIntFromObjectOrReply ob msg = getRangeLongFromObjectOrReply ob (- (2 ^ 31)) (2 ^ 31 - 1) msg"

section \<open>What an object stands for\<close>

definition obj_bytes :: "sobj \<Rightarrow> mem" where
  "obj_bytes o1 = (case enc o1 of Raw s _ \<Rightarrow> s | Embstr s \<Rightarrow> s | EncInt v \<Rightarrow> dec_int v)"

definition obj_ok :: "sobj \<Rightarrow> bool" where
  "obj_ok o1 \<longleftrightarrow> refcount o1 \<ge> 1 \<and> (case enc o1 of EncInt v \<Rightarrow> in_int64 v | _ \<Rightarrow> True)"

lemma length_dec_int_le: "in_int64 v \<Longrightarrow> length (dec_int v) \<le> 20"
proof -
  assume "in_int64 v"
  then have "nat (- v) < 10 ^ Suc 18" "nat v < 10 ^ Suc 18" by (auto simp: in_int64_def nat_less_iff)
  from this [THEN length_dec_nat_le] show ?thesis by (simp add: dec_int_def)
qed

lemma dec_nat_inj: "dec_nat m = dec_nat n \<Longrightarrow> m = n"
  by (metis dec_val_dec_nat)

lemma dec_int_inj: "dec_int v = dec_int w \<longleftrightarrow> v = w"
  using dec_nat_inj [of "nat v" "nat w"] dec_nat_inj [of "nat (- v)" "nat (- w)"]
  by (auto simp: dec_int_def split: if_splits)

lemma dec_int_no_zero: "c \<in> set (dec_int v) \<Longrightarrow> c \<noteq> 0"
  using list_all_digits_dec_nat [of "nat v"] list_all_digits_dec_nat [of "nat (- v)"]
  by (auto simp: dec_int_def list_all_iff split: if_splits)

lemma string2l_iff: "string2l s = Some v \<longleftrightarrow> in_int64 v \<and> s = dec_int v"
proof -
  have "string2l s = string2ll s"
  proof (cases "string2ll s")
    case (Some w)
    then have "in_int64 w" by (simp add: string2ll_iff)
    then show ?thesis by (simp add: string2l_def Some in_int64_def LLONG_MIN_def LLONG_MAX_def)
  qed (simp add: string2l_def)
  then show ?thesis by (simp add: string2ll_iff)
qed

lemma ll_buf_dec: "in_int64 v \<Longrightarrow> 20 < n \<Longrightarrow> ll_buf n v = Some (dec_int v)"
  using length_dec_int_le [of v] by (simp add: ll_buf_def ll2string_dec)

lemmas obj_defs = obj_bytes_def obj_ok_def OBJ_SHARED_REFCOUNT_def OBJ_STATIC_REFCOUNT_def
  OBJ_SHARED_INTEGERS_def OBJ_ENCODING_EMBSTR_SIZE_LIMIT_def

lemmas obj_creators = createRawStringObject_def createEmbeddedStringObject_def createStringObject_def
  shared_integer_def createStringObjectFromLongLongWithOptions_def createStringObjectFromLongLong_def
  createStringObjectFromLongLongForValue_def dupStringObject_def

lemma createStringObject_ok: "obj_ok (createStringObject s) \<and> obj_bytes (createStringObject s) = s"
  by (simp add: obj_defs obj_creators)

lemma fromLongLong_ok:
  "in_int64 v \<Longrightarrow> obj_ok (createStringObjectFromLongLongWithOptions share v b) \<and>
     obj_bytes (createStringObjectFromLongLongWithOptions share v b) = dec_int v"
  by (simp add: obj_defs obj_creators in_int64_def LLONG_MIN_def LLONG_MAX_def)

lemma dupStringObject_ok: "obj_ok o1 \<Longrightarrow> obj_ok (dupStringObject o1) \<and> obj_bytes (dupStringObject o1) = obj_bytes o1"
  by (auto simp: obj_defs obj_creators split: encoding_str.splits)

lemma tryEmbedding_ok:
  "obj_ok o1 \<Longrightarrow> enc o1 = Raw s n \<or> enc o1 = Embstr s \<Longrightarrow>
     obj_ok (tryEmbedding o1 s) \<and> obj_bytes (tryEmbedding o1 s) = s"
  by (auto simp: tryEmbedding_def trimStringObjectIfNeeded_def obj_defs obj_creators)

lemma shared_integer_ok: "in_int64 v \<Longrightarrow> obj_ok (shared_integer v) \<and> obj_bytes (shared_integer v) = dec_int v"
  by (simp add: obj_defs shared_integer_def)

lemma tryObjectEncoding_ok:
  assumes "obj_ok o1"
  shows "obj_ok (tryObjectEncoding share o1) \<and> obj_bytes (tryObjectEncoding share o1) = obj_bytes o1"
proof (cases "enc o1")
  case (Raw s n)
  then show ?thesis using assms tryEmbedding_ok [of o1 s n] shared_integer_ok
    by (auto simp: tryObjectEncoding_def string2l_iff obj_bytes_def obj_ok_def split: option.splits if_splits)
next
  case (Embstr s)
  then show ?thesis using assms tryEmbedding_ok [of o1 s] shared_integer_ok
      fromLongLong_ok [of _ share True]
    by (auto simp: tryObjectEncoding_def string2l_iff obj_bytes_def obj_ok_def
        createStringObjectFromLongLongForValue_def split: option.splits if_splits)
next
  case (EncInt v)
  then show ?thesis using assms by (simp add: tryObjectEncoding_def)
qed

lemma getDecodedObject_int:
  "in_int64 v \<Longrightarrow> enc o1 = EncInt v \<Longrightarrow> getDecodedObject o1 = Some (createStringObject (dec_int v))"
  using length_dec_int_le [of v] dec_int_no_zero [of _ v]
  by (simp add: getDecodedObject_def ll2string_dec takeWhile_append2)

lemma compare_bytes_ok: "obj_ok o1 \<Longrightarrow> compare_bytes o1 = Some (obj_bytes o1)"
  by (simp add: compare_bytes_def obj_ok_def obj_bytes_def ll_buf_dec split: encoding_str.splits)

text \<open>The order of the bytes as unsigned numbers, position by position.\<close>

definition byte_less :: "(byte \<times> byte) set" where
  "byte_less = {(x, y). x < y}"

lemma memcmp_lexord:
  "(memcmp a b (min (length a) (length b)) = 0 \<longleftrightarrow> take (length b) a = take (length a) b) \<and>
   (memcmp a b (min (length a) (length b)) < 0 \<longrightarrow> (a, b) \<in> lexord byte_less) \<and>
   (memcmp a b (min (length a) (length b)) > 0 \<longrightarrow> (b, a) \<in> lexord byte_less)"
proof (induction a arbitrary: b)
  case Nil
  then show ?case by simp
next
  case (Cons x a)
  show ?case
  proof (cases b)
    case Nil
    then show ?thesis by simp
  next
    fix y b' assume b: "b = y # b'"
    show ?thesis using Cons.IH [of b'] by (auto simp: b byte_less_def word_less_def word_uint_eq_iff)
  qed
qed

lemma memcmp_eq: "length a = length b \<Longrightarrow> memcmp a b (length a) = 0 \<longleftrightarrow> a = b"
  using memcmp_lexord [of a b] by simp

lemma take_eq_lexord:
  "take (length b) a = take (length a) b \<Longrightarrow> length a < length b \<Longrightarrow> (a, b) \<in> lexord r"
proof -
  assume t: "take (length b) a = take (length a) b" and l: "length a < length b"
  have "b = a @ drop (length a) b" using t l append_take_drop_id [of "length a" b] by simp
  moreover obtain c cs where "drop (length a) b = c # cs" using l by (cases "drop (length a) b") auto
  ultimately show ?thesis using lexord_append_rightI [of "c # cs" a r] by auto
qed

lemma byte_lexord_asym: "(a, b) \<in> lexord byte_less \<Longrightarrow> (b, a) \<notin> lexord byte_less"
  by (rule lexord_asymmetric) (auto simp: byte_less_def asym_iff)

lemma byte_lexord_irrefl: "(a, a) \<notin> lexord byte_less"
  by (rule lexord_irreflexive) (simp add: byte_less_def)

lemma compareStringObjects_ok:
  assumes "obj_ok a" "obj_ok b" "length (obj_bytes a) < 2 ^ 31" "length (obj_bytes b) < 2 ^ 31"
  shows "\<exists>c. compareStringObjects a b = Some c \<and> (c = 0 \<longleftrightarrow> obj_bytes a = obj_bytes b) \<and>
    (c < 0 \<longleftrightarrow> (obj_bytes a, obj_bytes b) \<in> lexord byte_less)"
proof -
  let ?a = "obj_bytes a" and ?b = "obj_bytes b"
  let ?m = "memcmp ?a ?b (min (length ?a) (length ?b))"
  note m = memcmp_lexord [of ?a ?b]
  have i: "to_i32 (int (length ?a) - int (length ?b)) = int (length ?a) - int (length ?b)"
    using assms(3,4) by (intro to_i32_id) (simp add: in_int32_def)
  have c: "compareStringObjects a b = Some (if ?m = 0 then int (length ?a) - int (length ?b) else ?m)"
    by (simp add: compareStringObjects_def compare_bytes_ok assms i min_def Let_def)
  show ?thesis
  proof (cases "?m = 0")
    case True
    then have t: "take (length ?b) ?a = take (length ?a) ?b" using m by blast
    have "length ?a = length ?b \<longleftrightarrow> ?a = ?b" using t by auto
    moreover have "length ?a < length ?b \<longleftrightarrow> (?a, ?b) \<in> lexord byte_less"
      using take_eq_lexord [OF t] take_eq_lexord [OF t [symmetric]] byte_lexord_asym [of ?b ?a]
        byte_lexord_irrefl [of ?a] calculation by (cases "length ?a" "length ?b" rule: linorder_cases) auto
    ultimately show ?thesis using True c by simp
  next
    case False
    then have "?a \<noteq> ?b" using m by auto
    then show ?thesis using False m c byte_lexord_asym [of ?b ?a] by auto
  qed
qed

lemma equalStringObjects_ok:
  assumes "obj_ok a" "obj_ok b" "length (obj_bytes a) < 2 ^ 31" "length (obj_bytes b) < 2 ^ 31"
  shows "equalStringObjects a b = Some (obj_bytes a = obj_bytes b)"
  using compareStringObjects_ok [OF assms]
  by (auto simp: equalStringObjects_def obj_bytes_def dec_int_inj split: encoding_str.splits)

lemma stringObjectLen_ok: "obj_ok o1 \<Longrightarrow> stringObjectLen o1 = length (obj_bytes o1)"
  by (simp add: stringObjectLen_def obj_ok_def obj_bytes_def sdigits10_dec split: encoding_str.splits)

lemma getLongLongFromObject_ok:
  "obj_ok o1 \<Longrightarrow> getLongLongFromObject (Some o1) = Some v \<longleftrightarrow> in_int64 v \<and> obj_bytes o1 = dec_int v"
  by (auto simp: getLongLongFromObject_def obj_ok_def obj_bytes_def string2ll_iff dec_int_inj
      split: encoding_str.splits)

lemma incr_decr_balanced:
  assumes "obj_ok o1" "refcount o1 \<noteq> OBJ_STATIC_REFCOUNT" "refcount o1 < OBJ_STATIC_REFCOUNT - 1 \<or> refcount o1 = OBJ_SHARED_REFCOUNT"
  shows "\<exists>o2. incrRefCount o1 = Some o2 \<and> decrRefCount o2 = Some (Some o1)"
  using assms by (auto simp: incrRefCount_def decrRefCount_def obj_ok_def OBJ_SHARED_REFCOUNT_def OBJ_STATIC_REFCOUNT_def)

lemma tryObjectEncoding_not_static:
  "refcount o1 < OBJ_STATIC_REFCOUNT \<Longrightarrow> refcount (tryObjectEncoding share o1) \<noteq> OBJ_STATIC_REFCOUNT"
  by (auto simp: tryObjectEncoding_def tryEmbedding_def trimStringObjectIfNeeded_def obj_creators
      OBJ_STATIC_REFCOUNT_def OBJ_SHARED_REFCOUNT_def Let_def split: encoding_str.splits option.splits)

lemma getDecodedObject_ok:
  assumes "obj_ok o1" "refcount o1 \<noteq> OBJ_STATIC_REFCOUNT"
  shows "\<exists>d. getDecodedObject o1 = Some d \<and> sdsEncodedObject d \<and> obj_bytes d = obj_bytes o1"
proof (cases "enc o1")
  case (EncInt v)
  then show ?thesis using assms getDecodedObject_int [of v o1] createStringObject_ok [of "dec_int v"]
    by (auto simp: obj_ok_def obj_bytes_def obj_creators)
qed (use assms in \<open>auto simp: getDecodedObject_def incrRefCount_def obj_bytes_def\<close>)

section \<open>Properties\<close>


lemma raw_sample:
  "obj_ok (createRawStringObject (str ''-120'')) \<and> refcount (createRawStringObject (str ''-120'')) = 1 \<and>
   tryObjectEncoding True (createRawStringObject (str ''-120'')) = \<lparr>enc = EncInt (- 120), refcount = 1\<rparr>"
proof -
  have "string2l (str ''-120'') = Some (- 120)" by (simp add: string2l_iff dec_int_m120 in_int64_def)
  then show ?thesis by (simp add: tryObjectEncoding_def obj_creators obj_ok_def str_def)
qed


text \<open>
  C23: whatever their encodings, two string objects compare as their bytes do: equal exactly when
  the bytes are equal, negative exactly when the first string precedes the second in the
  lexicographic order of unsigned bytes. The lengths have to be below \<open>2 ^ 31\<close>, since the
  difference of the lengths is returned as an \<open>int\<close>.
\<close>

theorem compareStringObjects_lexicographic:
  assumes "obj_ok a" "obj_ok b" "length (obj_bytes a) < 2 ^ 31" "length (obj_bytes b) < 2 ^ 31"
  shows "equalStringObjects a b = Some (obj_bytes a = obj_bytes b) \<and>
    (\<exists>c. compareStringObjects a b = Some c \<and> (c = 0 \<longleftrightarrow> obj_bytes a = obj_bytes b) \<and>
      (c < 0 \<longleftrightarrow> (obj_bytes a, obj_bytes b) \<in> lexord byte_less))"
  using equalStringObjects_ok [OF assms] compareStringObjects_ok [OF assms] by blast

theorem compareStringObjects_lexicographic_witness:
  "equalStringObjects \<lparr>enc = EncInt (- 120), refcount = 1\<rparr> (createRawStringObject (str ''-120'')) = Some True"
  using compareStringObjects_lexicographic
    [of "\<lparr>enc = EncInt (- 120), refcount = 1\<rparr>" "createRawStringObject (str ''-120'')"]
  by (simp add: obj_ok_def obj_bytes_def createRawStringObject_def in_int64_def dec_int_m120 str_def)

text \<open>
  C35: the difference of the lengths is truncated to 32 bits, so that a string and its extension by
  \<open>2 ^ 32\<close> bytes are taken to be equal.
\<close>

theorem compareStringObjects_truncates:
  assumes "length t = 2 ^ 32"
  shows "equalStringObjects (createRawStringObject s) (createRawStringObject (s @ t)) = Some True"
proof -
  have m: "memcmp s (s @ t) (length s) = 0" by (induction s) simp_all
  have "to_i32 (int (length s) - int (length (s @ t))) = 0"
    using assms by (simp add: to_i32_def signed_take_bit_eq_if_positive)
  then show ?thesis using m by (auto simp: equalStringObjects_def createRawStringObject_def
    compareStringObjects_def compare_bytes_def Let_def)
qed

theorem compareStringObjects_truncates_witness:
  "equalStringObjects (createRawStringObject (str ''a'')) (createRawStringObject (str ''a'' @ replicate (2 ^ 32) 0)) = Some True"
  by (rule compareStringObjects_truncates) (rule length_replicate)

text \<open>
  C24: a command argument is accepted as an integer of a range exactly when its bytes are the
  canonical decimal form of an integer of the range; otherwise the client gets an error.
\<close>

theorem getRangeLongFromObjectOrReply_iff:
  assumes "obj_ok o1" "in_int64 lo" "in_int64 hi"
  shows "getRangeLongFromObjectOrReply (Some o1) lo hi msg = Inr v \<longleftrightarrow>
    obj_bytes o1 = dec_int v \<and> lo \<le> v \<and> v \<le> hi"
proof -
  have v: "lo \<le> v \<and> v \<le> hi \<Longrightarrow> in_int64 v" using assms(2,3) by (simp add: in_int64_def)
  have g: "getLongFromObjectOrReply (Some o1) msg = Inr w \<longleftrightarrow> in_int64 w \<and> obj_bytes o1 = dec_int w" for w
    using getLongLongFromObject_ok [OF assms(1), of w]
    by (auto simp: getLongFromObjectOrReply_def getLongLongFromObjectOrReply_def in_int64_def
      LLONG_MIN_def LLONG_MAX_def split: option.split)
  have "getRangeLongFromObjectOrReply (Some o1) lo hi msg = Inr v \<longleftrightarrow>
      getLongFromObjectOrReply (Some o1) msg = Inr v \<and> lo \<le> v \<and> v \<le> hi"
    by (auto simp: getRangeLongFromObjectOrReply_def split: sum.splits if_splits)
  then show ?thesis using g v by blast
qed

theorem getRangeLongFromObjectOrReply_iff_witness:
  "getRangeLongFromObjectOrReply (Some (createRawStringObject (str ''-120''))) (- 200) 7 None = Inr (- 120)"
  using getRangeLongFromObjectOrReply_iff [of "createRawStringObject (str ''-120'')" "- 200" 7 None "- 120"]
  by (simp add: obj_ok_def in_int64_def obj_bytes_def createRawStringObject_def dec_int_m120)

end
