(* ===== verification/Dict_Types.thy ===== *)
theory Dict_Types
  imports Dict Siphash Objects Glob
begin

text \<open>
  The dictionary types of \<open>server.c\<close>: the hash and comparison functions, the type tables, and the
  functions that resize and rehash the two dictionaries of a database. Each table is shown to keep
  the contract \<open>dict_type\<close> of the dictionary, so that the keyspace, the sets, the hashes, the
  sorted sets, the command table and the other dictionaries refine a map.

  \<open>seed\<close> is the random hash seed, \<open>over\<close> is \<open>overMaxmemoryAfterAlloc\<close>. Destructors only release
  memory and are left out.
\<close>

section \<open>Keys\<close>

text \<open>An SDS string used as a key; \<open>dictSdsKeyCompare\<close> keeps its length in an \<open>int\<close>.\<close>

typedef sds_key = "{s :: mem. length s < 2 ^ 31}" morphisms key_bytes sds_key_of
  by (rule exI [of _ "[]"]) simp

text \<open>A key without zero bytes, as \<open>strcasecmp\<close> requires.\<close>

typedef name_key = "{s :: mem. length s < 2 ^ 31 \<and> 0 \<notin> set s}" morphisms name_bytes name_key_of
  by (rule exI [of _ "[]"]) simp

text \<open>A string object used as a key: it is well formed, and if it lives on the stack it is a string.\<close>

typedef obj_key = "{ob. obj_ok ob \<and> length (obj_bytes ob) < 2 ^ 31 \<and> (refcount ob = OBJ_STATIC_REFCOUNT \<longrightarrow> sdsEncodedObject ob)}"
  morphisms key_obj obj_key_of
  by (rule exI [of _ "createRawStringObject []"]) (simp add: obj_defs createRawStringObject_def)

text \<open>An object that holds a string, not a number.\<close>

typedef plain_key = "{ob. sdsEncodedObject ob \<and> length (obj_bytes ob) < 2 ^ 31}"
  morphisms plain_obj plain_key_of
  by (rule exI [of _ "createRawStringObject []"]) (simp add: obj_defs createRawStringObject_def)

definition mk_key :: "mem \<Rightarrow> sds_key" where
  "mk_key s = sds_key_of (if length s < 2 ^ 31 then s else [])"

section \<open>Hashing and comparing\<close>

text \<open>\<open>dictGenHashFunction\<close> and \<open>dictGenCaseHashFunction\<close>; the seed has 16 bytes, a shorter one
would be read outside of its bounds and counts as zero here.\<close>

definition dictGenHashFunction :: "mem \<Rightarrow> mem \<Rightarrow> nat \<Rightarrow> 64 word" where
  "dictGenHashFunction seed key len = (case siphash key len seed of Some h \<Rightarrow> h | None \<Rightarrow> 0)"

definition dictGenCaseHashFunction :: "mem \<Rightarrow> mem \<Rightarrow> nat \<Rightarrow> 64 word" where
  "dictGenCaseHashFunction seed buf len = (case siphash_nocase buf len seed of Some h \<Rightarrow> h | None \<Rightarrow> 0)"

definition dictSdsKeyCompare :: "mem \<Rightarrow> mem \<Rightarrow> bool" where
  "dictSdsKeyCompare key1 key2 =
     (let l1 = to_i32 (int (length key1)); l2 = to_i32 (int (length key2)) in
      if l1 \<noteq> l2 then False else memcmp key1 key2 (nat l1) = 0)"

text \<open>\<open>strcasecmp\<close> on zero-terminated strings is zero.\<close>

fun strcaseeq :: "mem \<Rightarrow> mem \<Rightarrow> bool" where
  "strcaseeq (a # as) (b # bs) = (tolower a = tolower b \<and> (a = 0 \<or> strcaseeq as bs))"
| "strcaseeq [] (b # _) = (b = 0)"
| "strcaseeq (a # _) [] = (a = 0)"
| "strcaseeq [] [] = True"

definition dictSdsKeyCaseCompare :: "mem \<Rightarrow> mem \<Rightarrow> bool" where
  "dictSdsKeyCaseCompare key1 key2 = strcaseeq key1 key2"

definition dictSdsHash :: "mem \<Rightarrow> mem \<Rightarrow> 64 word" where
  "dictSdsHash seed key = dictGenHashFunction seed key (length key)"

definition dictSdsCaseHash :: "mem \<Rightarrow> mem \<Rightarrow> 64 word" where
  "dictSdsCaseHash seed key = dictGenCaseHashFunction seed key (length key)"

text \<open>The string that \<open>o->ptr\<close> points to; \<open>None\<close> when it is a number.\<close>

definition sds_ptr :: "sobj \<Rightarrow> mem option" where
  "sds_ptr ob = (case enc ob of Raw s _ \<Rightarrow> Some s | Embstr s \<Rightarrow> Some s | EncInt _ \<Rightarrow> None)"

definition dictObjKeyCompare :: "sobj \<Rightarrow> sobj \<Rightarrow> bool option" where
  "dictObjKeyCompare o1 o2 = do { p1 \<leftarrow> sds_ptr o1; p2 \<leftarrow> sds_ptr o2; Some (dictSdsKeyCompare p1 p2) }"

definition dictObjHash :: "mem \<Rightarrow> sobj \<Rightarrow> 64 word option" where
  "dictObjHash seed ob = do { p \<leftarrow> sds_ptr ob; Some (dictGenHashFunction seed p (length p)) }"

definition dictEncObjKeyCompare :: "sobj \<Rightarrow> sobj \<Rightarrow> bool option" where
  "dictEncObjKeyCompare o1 o2 = (case (enc o1, enc o2) of
     (EncInt v, EncInt w) \<Rightarrow> Some (v = w)
   | _ \<Rightarrow> do {
       o1 \<leftarrow> (if refcount o1 \<noteq> OBJ_STATIC_REFCOUNT then getDecodedObject o1 else Some o1);
       o2 \<leftarrow> (if refcount o2 \<noteq> OBJ_STATIC_REFCOUNT then getDecodedObject o2 else Some o2);
       p1 \<leftarrow> sds_ptr o1;
       p2 \<leftarrow> sds_ptr o2;
       Some (dictSdsKeyCompare p1 p2)
     })"

definition dictEncObjHash :: "mem \<Rightarrow> sobj \<Rightarrow> 64 word option" where
  "dictEncObjHash seed ob = (case enc ob of
     EncInt v \<Rightarrow> do {
       (len, buf) \<leftarrow> ll2string (replicate 32 0) 32 v;
       Some (dictGenHashFunction seed buf len)
     }
   | Raw s _ \<Rightarrow> Some (dictGenHashFunction seed s (length s))
   | Embstr s \<Rightarrow> Some (dictGenHashFunction seed s (length s)))"

text \<open>The load factor comes as the fraction \<open>used / size\<close>; \<open>HASHTABLE_MAX_LOAD_FACTOR\<close> is 1.618.\<close>

definition dictExpandAllowed :: "(nat \<Rightarrow> bool) \<Rightarrow> nat \<Rightarrow> nat \<times> nat \<Rightarrow> bool" where
  "dictExpandAllowed over moreMem usedRatio =
     (if fst usedRatio * 1000 \<le> 1618 * snd usedRatio then \<not> over moreMem else True)"

section \<open>The type tables\<close>

definition sds_type :: "mem \<Rightarrow> (nat \<Rightarrow> nat \<times> nat \<Rightarrow> bool) option \<Rightarrow> (sds_key, 'v) dictType" where
  "sds_type seed expand = \<lparr>hashFunction = (\<lambda>k. dictSdsHash seed (key_bytes k)), keyDup = None, valDup = None,
     keyCompare = Some (\<lambda>a b. dictSdsKeyCompare (key_bytes a) (key_bytes b)), expandAllowed = expand\<rparr>"

definition name_type :: "mem \<Rightarrow> (name_key, 'v) dictType" where
  "name_type seed = \<lparr>hashFunction = (\<lambda>k. dictSdsCaseHash seed (name_bytes k)), keyDup = None, valDup = None,
     keyCompare = Some (\<lambda>a b. dictSdsKeyCaseCompare (name_bytes a) (name_bytes b)), expandAllowed = None\<rparr>"

definition objectKeyPointerValueDictType :: "mem \<Rightarrow> (obj_key, 'v) dictType" where
  "objectKeyPointerValueDictType seed =
     \<lparr>hashFunction = (\<lambda>k. case dictEncObjHash seed (key_obj k) of Some h \<Rightarrow> h | None \<Rightarrow> 0), keyDup = None, valDup = None,
      keyCompare = Some (\<lambda>a b. dictEncObjKeyCompare (key_obj a) (key_obj b) = Some True), expandAllowed = None\<rparr>"

definition objectKeyHeapPointerValueDictType :: "mem \<Rightarrow> (obj_key, 'v) dictType" where
  "objectKeyHeapPointerValueDictType seed = objectKeyPointerValueDictType seed"

definition setDictType :: "mem \<Rightarrow> (sds_key, unit) dictType" where
  "setDictType seed = sds_type seed None"

definition zsetDictType :: "mem \<Rightarrow> (sds_key, 'score) dictType" where
  "zsetDictType seed = sds_type seed None"

definition dbDictType :: "mem \<Rightarrow> (nat \<Rightarrow> bool) \<Rightarrow> (sds_key, 'robj) dictType" where
  "dbDictType seed over = sds_type seed (Some (dictExpandAllowed over))"

definition shaScriptObjectDictType :: "mem \<Rightarrow> (name_key, 'robj) dictType" where
  "shaScriptObjectDictType seed = name_type seed"

definition dbExpiresDictType :: "mem \<Rightarrow> (nat \<Rightarrow> bool) \<Rightarrow> (sds_key, int) dictType" where
  "dbExpiresDictType seed over = sds_type seed (Some (dictExpandAllowed over))"

definition commandTableDictType :: "mem \<Rightarrow> (name_key, 'cmd) dictType" where
  "commandTableDictType seed = name_type seed"

definition hashDictType :: "mem \<Rightarrow> (sds_key, mem) dictType" where
  "hashDictType seed = sds_type seed None"

definition sdsReplyDictType :: "mem \<Rightarrow> (sds_key, 'v) dictType" where
  "sdsReplyDictType seed = sds_type seed None"

definition keylistDictType :: "mem \<Rightarrow> (plain_key, 'clients) dictType" where
  "keylistDictType seed =
     \<lparr>hashFunction = (\<lambda>k. case dictObjHash seed (plain_obj k) of Some h \<Rightarrow> h | None \<Rightarrow> 0), keyDup = None, valDup = None,
      keyCompare = Some (\<lambda>a b. dictObjKeyCompare (plain_obj a) (plain_obj b) = Some True), expandAllowed = None\<rparr>"

definition clusterNodesDictType :: "mem \<Rightarrow> (sds_key, 'node) dictType" where
  "clusterNodesDictType seed = sds_type seed None"

definition clusterNodesBlackListDictType :: "mem \<Rightarrow> (name_key, int) dictType" where
  "clusterNodesBlackListDictType seed = name_type seed"

definition modulesDictType :: "mem \<Rightarrow> (name_key, 'module) dictType" where
  "modulesDictType seed = name_type seed"

definition migrateCacheDictType :: "mem \<Rightarrow> (sds_key, 'sock) dictType" where
  "migrateCacheDictType seed = sds_type seed None"

definition replScriptCacheDictType :: "mem \<Rightarrow> (name_key, unit) dictType" where
  "replScriptCacheDictType seed = name_type seed"

section \<open>Resizing the dictionaries of a database\<close>

definition HASHTABLE_MIN_FILL :: nat where "HASHTABLE_MIN_FILL = 10"

definition htNeedsResize :: "('k, 'v) dict \<Rightarrow> bool" where
  "htNeedsResize d =
     (let size = dictSlots d; used = dictSize d in
      size > DICT_HT_INITIAL_SIZE \<and> used * 100 div size < HASHTABLE_MIN_FILL)"

record 'robj redisDb =
  db_dict :: "(sds_key, 'robj) dict"
  db_expires :: "(sds_key, int) dict"

definition tryResizeHashTables :: "bool \<Rightarrow> 'robj redisDb \<Rightarrow> 'robj redisDb" where
  "tryResizeHashTables can db =
     (let db = (if htNeedsResize (db_dict db) then db\<lparr>db_dict := fst (dictResize can (db_dict db))\<rparr> else db) in
      if htNeedsResize (db_expires db) then db\<lparr>db_expires := fst (dictResize can (db_expires db))\<rparr> else db)"

text \<open>\<open>expired\<close> tells after each round of 100 steps whether the millisecond is over.\<close>

definition incrementallyRehash ::
  "mem \<Rightarrow> (nat \<Rightarrow> bool) \<Rightarrow> bool list \<Rightarrow> 'robj redisDb \<Rightarrow> ('robj redisDb \<times> bool) option" where
  "incrementallyRehash seed over expired db =
     (if dictIsRehashing (db_dict db) then do {
        (d, _) \<leftarrow> dictRehashMilliseconds (dbDictType seed over) expired (db_dict db);
        Some (db\<lparr>db_dict := d\<rparr>, True)
      }
      else if dictIsRehashing (db_expires db) then do {
        (d, _) \<leftarrow> dictRehashMilliseconds (dbExpiresDictType seed over) expired (db_expires db);
        Some (db\<lparr>db_expires := d\<rparr>, True)
      }
      else Some (db, False))"

definition updateDictResizePolicy :: "bool \<Rightarrow> bool" where
  "updateDictResizePolicy hasActiveChild = (if \<not> hasActiveChild then True else False)"

section \<open>The contract of the tables\<close>

lemma dictSdsKeyCompare_eq:
  "length a < 2 ^ 31 \<Longrightarrow> length b < 2 ^ 31 \<Longrightarrow> dictSdsKeyCompare a b \<longleftrightarrow> a = b"
  using to_i32_id [of "int (length a)"] to_i32_id [of "int (length b)"] memcmp_eq [of a b]
  by (auto simp: dictSdsKeyCompare_def Let_def in_int32_def)

lemma strcaseeq_eq: "0 \<notin> set a \<Longrightarrow> 0 \<notin> set b \<Longrightarrow> strcaseeq a b \<longleftrightarrow> map tolower a = map tolower b"
  by (induction a b rule: strcaseeq.induct) auto

lemma siptlw_tolower: "siptlw = tolower"
  by (rule ext) (simp add: siptlw_def tolower_def)

lemma dictSdsCaseHash_lower: "map tolower a = map tolower b \<Longrightarrow> dictSdsCaseHash seed a = dictSdsCaseHash seed b"
proof -
  assume m: "map tolower a = map tolower b"
  then have "length a = length b" by (metis length_map)
  with m show ?thesis
    using siphash_gen_map [of "\<lambda>c. c" siptlw a "length a" seed] siphash_gen_map [of "\<lambda>c. c" siptlw b "length b" seed]
    by (simp add: dictSdsCaseHash_def dictGenCaseHashFunction_def siphash_nocase_def siptlw_tolower)
qed

lemma dictEncObjHash_bytes:
  "obj_ok ob \<Longrightarrow> dictEncObjHash seed ob = Some (dictGenHashFunction seed (obj_bytes ob) (length (obj_bytes ob)))"
  using length_dec_int_le [THEN le_less_trans, of _ 32]
  by (auto simp: dictEncObjHash_def obj_ok_def obj_bytes_def ll2string_dec dictGenHashFunction_def siphash_def
      siphash_gen_append not_le [symmetric] split: encoding_str.splits)

lemma sds_ptr_bytes: "sdsEncodedObject ob \<Longrightarrow> sds_ptr ob = Some (obj_bytes ob)"
  by (simp add: sds_ptr_def obj_bytes_def split: encoding_str.splits)

lemma decoded_bytes:
  assumes "obj_ok ob" "refcount ob = OBJ_STATIC_REFCOUNT \<longrightarrow> sdsEncodedObject ob"
  shows "\<exists>d. (if refcount ob \<noteq> OBJ_STATIC_REFCOUNT then getDecodedObject ob else Some ob) = Some d
    \<and> sds_ptr d = Some (obj_bytes ob)"
  using assms getDecodedObject_ok [of ob] sds_ptr_bytes by (cases "refcount ob = OBJ_STATIC_REFCOUNT") auto

lemma dictEncObjKeyCompare_bytes:
  "dictEncObjKeyCompare (key_obj a) (key_obj b) = Some (obj_bytes (key_obj a) = obj_bytes (key_obj b))"
proof -
  obtain da db where
    "(if refcount (key_obj a) \<noteq> OBJ_STATIC_REFCOUNT then getDecodedObject (key_obj a) else Some (key_obj a)) = Some da"
    "sds_ptr da = Some (obj_bytes (key_obj a))"
    "(if refcount (key_obj b) \<noteq> OBJ_STATIC_REFCOUNT then getDecodedObject (key_obj b) else Some (key_obj b)) = Some db"
    "sds_ptr db = Some (obj_bytes (key_obj b))"
    using key_obj [of a] key_obj [of b] decoded_bytes [of "key_obj a"] decoded_bytes [of "key_obj b"] by blast
  moreover have "dictSdsKeyCompare (obj_bytes (key_obj a)) (obj_bytes (key_obj b)) =
      (obj_bytes (key_obj a) = obj_bytes (key_obj b))"
    using key_obj [of a] key_obj [of b] by (intro dictSdsKeyCompare_eq) simp_all
  ultimately show ?thesis
    by (simp only: dictEncObjKeyCompare_def Option.bind.bind_lunit)
      (auto simp: obj_bytes_def dec_int_inj split: encoding_str.split)
qed

lemma sds_type_contract: "dict_type (sds_type seed expand) id"
  using key_bytes
  by unfold_locales (auto simp: dictCompareKeys_def sds_type_def dictSdsKeyCompare_eq key_bytes_inject)

lemma name_type_contract: "dict_type (name_type seed) (map tolower \<circ> name_bytes)"
  using name_bytes
  by unfold_locales (auto simp: dictCompareKeys_def name_type_def dictSdsKeyCaseCompare_def strcaseeq_eq
      intro: dictSdsCaseHash_lower)

lemma obj_type_contract: "dict_type (objectKeyPointerValueDictType seed) (obj_bytes \<circ> key_obj)"
  using key_obj
  by unfold_locales (auto simp: dictCompareKeys_def objectKeyPointerValueDictType_def dictEncObjKeyCompare_bytes
      dictEncObjHash_bytes)

interpretation keylist: dict_type "keylistDictType seed" "obj_bytes \<circ> plain_obj" for seed
  using plain_obj
  by unfold_locales (auto simp: dictCompareKeys_def keylistDictType_def dictObjKeyCompare_def dictObjHash_def
      sds_ptr_bytes dictSdsKeyCompare_eq)

interpretation keyspace: dict_type "dbDictType seed over" id for seed over
  unfolding dbDictType_def by (rule sds_type_contract)

interpretation expires: dict_type "dbExpiresDictType seed over" id for seed over
  unfolding dbExpiresDictType_def by (rule sds_type_contract)

interpretation set_table: dict_type "setDictType seed" id for seed
  unfolding setDictType_def by (rule sds_type_contract)

interpretation zset_table: dict_type "zsetDictType seed" id for seed
  unfolding zsetDictType_def by (rule sds_type_contract)

interpretation hash_table: dict_type "hashDictType seed" id for seed
  unfolding hashDictType_def by (rule sds_type_contract)

interpretation command_table: dict_type "commandTableDictType seed" "map tolower \<circ> name_bytes" for seed
  unfolding commandTableDictType_def by (rule name_type_contract)

interpretation script_table: dict_type "shaScriptObjectDictType seed" "map tolower \<circ> name_bytes" for seed
  unfolding shaScriptObjectDictType_def by (rule name_type_contract)

interpretation object_table: dict_type "objectKeyPointerValueDictType seed" "obj_bytes \<circ> key_obj" for seed
  by (rule obj_type_contract)

section \<open>Background work on a database\<close>

definition db_inv :: "mem \<Rightarrow> (nat \<Rightarrow> bool) \<Rightarrow> 'robj redisDb \<Rightarrow> bool" where
  "db_inv seed over db \<longleftrightarrow> dict_inv id (dbDictType seed over) (db_dict db) \<and> dict_inv id (dbExpiresDictType seed over) (db_expires db)"

text \<open>Two states of a dictionary with the same content.\<close>

definition same_dict :: "(sds_key, 'v) dictType \<Rightarrow> (sds_key, 'v) dict \<Rightarrow> (sds_key, 'v) dict \<Rightarrow> bool" where
  "same_dict t d d' \<longleftrightarrow> dict_inv id t d' \<and> mset (dict_entries d') = mset (dict_entries d)"

lemma same_dict_trans: "same_dict t d d' \<Longrightarrow> same_dict t d' d'' \<Longrightarrow> same_dict t d d''"
  by (simp add: same_dict_def)

lemma dictResize_same: "dict_inv id t d \<Longrightarrow> same_dict t d (fst (dictResize can d))"
  using dictResize_fst [of can d] dictExpandImpl_inv(1,2) [of id t d _ True]
  by (auto simp: same_dict_def) (metis prod_cases3 fst_conv)+

lemma rehash_ms_same: "dict_inv id t d \<Longrightarrow> \<exists>d' n. rehash_ms t expired d k = Some (d', n) \<and> same_dict t d d'"
proof (induction expired arbitrary: d k)
  case (Cons late expired)
  obtain d1 more where r: "dictRehash t d 100 = Some (d1, more)" "same_dict t d d1" "dict_inv id t d1"
    using dictRehash_inv [OF Cons.prems, of 100] unfolding same_dict_def by blast
  with Cons.IH [OF r(3), of "k + 100"] show ?case by (auto dest: same_dict_trans simp: Let_def)
qed (simp add: same_dict_def)

lemma dictRehashMilliseconds_same:
  "dict_inv id t d \<Longrightarrow> \<exists>d' n. dictRehashMilliseconds t expired d = Some (d', n) \<and> same_dict t d d'"
  using rehash_ms_same [of t d expired 0] by (auto simp: dictRehashMilliseconds_def same_dict_def)

lemma incrementallyRehash_same:
  fixes seed over
  defines "k \<equiv> dbDictType seed over" and "e \<equiv> dbExpiresDictType seed over"
  assumes "dict_inv id k (db_dict db)" "dict_inv id e (db_expires db)"
  shows "\<exists>db' b. incrementallyRehash seed over expired db = Some (db', b) \<and>
    same_dict k (db_dict db) (db_dict db') \<and> same_dict e (db_expires db) (db_expires db')"
proof -
  obtain dk n where m: "dictRehashMilliseconds k expired (db_dict db) = Some (dk, n)" "same_dict k (db_dict db) dk"
    using dictRehashMilliseconds_same [OF assms(3), of expired] by blast
  obtain de n' where n: "dictRehashMilliseconds e expired (db_expires db) = Some (de, n')" "same_dict e (db_expires db) de"
    using dictRehashMilliseconds_same [OF assms(4), of expired] by blast
  have r: "same_dict k (db_dict db) (db_dict db)" "same_dict e (db_expires db) (db_expires db)"
    using assms(3,4) by (simp_all add: same_dict_def)
  consider "dictIsRehashing (db_dict db)" | "\<not> dictIsRehashing (db_dict db)" "dictIsRehashing (db_expires db)"
    | "\<not> dictIsRehashing (db_dict db)" "\<not> dictIsRehashing (db_expires db)" by blast
  then show ?thesis
  proof cases
    case 1
    then show ?thesis using m r
      by (intro exI [of _ "db\<lparr>db_dict := dk\<rparr>"] exI [of _ True]) (simp add: incrementallyRehash_def k_def e_def)
  next
    case 2
    then show ?thesis using n r
      by (intro exI [of _ "db\<lparr>db_expires := de\<rparr>"] exI [of _ True]) (simp add: incrementallyRehash_def k_def e_def)
  next
    case 3
    then show ?thesis using r
      by (intro exI [of _ db] exI [of _ False]) (simp add: incrementallyRehash_def k_def e_def)
  qed
qed

section \<open>Properties\<close>


lemma mk_key_inj: "length a < 2 ^ 31 \<Longrightarrow> length b < 2 ^ 31 \<Longrightarrow> mk_key a = mk_key b \<longleftrightarrow> a = b"
  by (simp add: mk_key_def sds_key_of_inject)



lemma name_bytes_get: "name_bytes (name_key_of (str ''get'')) = str ''get''" "name_bytes (name_key_of (str ''GeT'')) = str ''GeT''"
  by (simp_all add: name_key_of_inverse str_def)


text \<open>
  C15: the background work of the server on a database, shrinking sparse tables and rehashing for a
  millisecond, never fails, keeps both dictionaries well formed and loses or duplicates no key.
\<close>

theorem db_cron_keeps_content:
  assumes "db_inv seed over db"
  shows "\<exists>db' b. incrementallyRehash seed over expired (tryResizeHashTables can db) = Some (db', b) \<and> db_inv seed over db' \<and>
    dmap id (db_dict db') = dmap id (db_dict db) \<and> dmap id (db_expires db') = dmap id (db_expires db)"
proof -
  let ?k = "dbDictType seed over" and ?e = "dbExpiresDictType seed over"
  let ?db = "tryResizeHashTables can db"
  have i: "dict_inv id ?k (db_dict db)" "dict_inv id ?e (db_expires db)" using assms by (simp_all add: db_inv_def)
  have r: "same_dict ?k (db_dict db) (db_dict ?db)" "same_dict ?e (db_expires db) (db_expires ?db)"
    using i dictResize_same [OF i(1), of can] dictResize_same [OF i(2), of can]
    by (auto simp: tryResizeHashTables_def Let_def same_dict_def)
  then have i': "dict_inv id ?k (db_dict ?db)" "dict_inv id ?e (db_expires ?db)" by (simp_all add: same_dict_def)
  obtain db' b where inc: "incrementallyRehash seed over expired ?db = Some (db', b)"
    and s: "same_dict ?k (db_dict ?db) (db_dict db')" "same_dict ?e (db_expires ?db) (db_expires db')"
    using incrementallyRehash_same [OF i'] by blast
  note t = same_dict_trans [OF r(1) s(1)] same_dict_trans [OF r(2) s(2)]
  have "dmap id (db_dict db') = dmap id (db_dict db)" "dmap id (db_expires db') = dmap id (db_expires db)" "db_inv seed over db'"
    using t dmap_same(1) [of "db_dict db'", OF _ i(1)] dmap_same(1) [of "db_expires db'", OF _ i(2)]
    by (simp_all only: db_inv_def same_dict_def)
  with inc show ?thesis by blast
qed

theorem db_cron_keeps_content_witness:
  "\<exists>db' b. incrementallyRehash [] (\<lambda>_. True) [True] (tryResizeHashTables True \<lparr>db_dict = dictCreate, db_expires = dictCreate\<rparr>)
     = Some (db' :: nat redisDb, b) \<and> dmap id (db_dict db') = Map.empty"
  using db_cron_keeps_content [of "[]" "\<lambda>_. True" "\<lparr>db_dict = dictCreate, db_expires = dictCreate\<rparr> :: nat redisDb" "[True]" True]
  by (auto simp: db_inv_def dictCreate_inv)

end
