(* ===== verification/Adlist.thy ===== *)
theory Adlist
  imports Redis_Prelude
begin

text \<open>
  The doubly linked lists of \<open>adlist.c\<close> on an explicit heap of nodes: creation, insertion, deletion,
  iteration, duplication, search, indexing, rotation and concatenation. \<open>rep h l xs\<close> says that the
  list \<open>l\<close> of the heap \<open>h\<close> consists of the nodes \<open>xs\<close>, addresses with their values; the lemmas
  show what each operation does to \<open>xs\<close> and that it leaves the rest of the heap alone.

  \<open>zmalloc\<close> is the allocator: from the heap it gives the address of a new node, or \<open>None\<close>. An
  operation that dereferences a null or dangling pointer has the value \<open>None\<close>. The \<open>free\<close> method of
  a list is left out.
\<close>

section \<open>Data\<close>

type_synonym ptr = nat

record 'a listNode =
  nprev :: "ptr option"
  nnext :: "ptr option"
  nvalue :: 'a

type_synonym 'a heap = "ptr \<Rightarrow> 'a listNode option"

record 'a adlist =
  head :: "ptr option"
  tail :: "ptr option"
  dup :: "('a \<Rightarrow> 'a option) option"
  matchf :: "('a \<Rightarrow> 'a \<Rightarrow> bool) option"
  len :: nat

datatype direction = AL_START_HEAD | AL_START_TAIL

record listIter =
  it_next :: "ptr option"
  it_dir :: direction

text \<open>Reading a node and writing one of its fields.\<close>

definition load :: "'a heap \<Rightarrow> ptr option \<Rightarrow> 'a listNode option" where
  "load h p = (case p of None \<Rightarrow> None | Some a \<Rightarrow> h a)"

definition poke :: "'a heap \<Rightarrow> ptr option \<Rightarrow> ('a listNode \<Rightarrow> 'a listNode) \<Rightarrow> 'a heap option" where
  "poke h p f = (case p of None \<Rightarrow> None | Some a \<Rightarrow> (case h a of None \<Rightarrow> None | Some n \<Rightarrow> Some (h(a \<mapsto> f n))))"

section \<open>Operations\<close>

definition listCreate :: "'a adlist" where
  "listCreate = \<lparr>head = None, tail = None, dup = None, matchf = None, len = 0\<rparr>"

primrec empty_loop :: "nat \<Rightarrow> 'a heap \<Rightarrow> ptr option \<Rightarrow> 'a heap option" where
  "empty_loop 0 h current = Some h"
| "empty_loop (Suc n) h current = do {
     c \<leftarrow> load h current;
     let h = h(the current := None);
     empty_loop n h (nnext c)
   }"

definition listEmpty :: "'a heap \<Rightarrow> 'a adlist \<Rightarrow> ('a heap \<times> 'a adlist) option" where
  "listEmpty h l = do {
     h \<leftarrow> empty_loop (len l) h (head l);
     Some (h, l\<lparr>head := None, tail := None, len := 0\<rparr>)
   }"

definition listRelease :: "'a heap \<Rightarrow> 'a adlist \<Rightarrow> 'a heap option" where
  "listRelease h l = do { (h, _) \<leftarrow> listEmpty h l; Some h }"

definition listAddNodeHead ::
  "('a heap \<Rightarrow> ptr option) \<Rightarrow> 'a heap \<Rightarrow> 'a adlist \<Rightarrow> 'a \<Rightarrow> ('a heap \<times> 'a adlist option) option" where
  "listAddNodeHead zmalloc h l value = (case zmalloc h of
     None \<Rightarrow> Some (h, None)
   | Some node \<Rightarrow>
       if len l = 0 then
         Some (h(node \<mapsto> \<lparr>nprev = None, nnext = None, nvalue = value\<rparr>),
               Some (l\<lparr>head := Some node, tail := Some node, len := len l + 1\<rparr>))
       else do {
         let h = h(node \<mapsto> \<lparr>nprev = None, nnext = head l, nvalue = value\<rparr>);
         h \<leftarrow> poke h (head l) (\<lambda>n. n\<lparr>nprev := Some node\<rparr>);
         Some (h, Some (l\<lparr>head := Some node, len := len l + 1\<rparr>))
       })"

definition listAddNodeTail ::
  "('a heap \<Rightarrow> ptr option) \<Rightarrow> 'a heap \<Rightarrow> 'a adlist \<Rightarrow> 'a \<Rightarrow> ('a heap \<times> 'a adlist option) option" where
  "listAddNodeTail zmalloc h l value = (case zmalloc h of
     None \<Rightarrow> Some (h, None)
   | Some node \<Rightarrow>
       if len l = 0 then
         Some (h(node \<mapsto> \<lparr>nprev = None, nnext = None, nvalue = value\<rparr>),
               Some (l\<lparr>head := Some node, tail := Some node, len := len l + 1\<rparr>))
       else do {
         let h = h(node \<mapsto> \<lparr>nprev = tail l, nnext = None, nvalue = value\<rparr>);
         h \<leftarrow> poke h (tail l) (\<lambda>n. n\<lparr>nnext := Some node\<rparr>);
         Some (h, Some (l\<lparr>tail := Some node, len := len l + 1\<rparr>))
       })"

definition listInsertNode ::
  "('a heap \<Rightarrow> ptr option) \<Rightarrow> 'a heap \<Rightarrow> 'a adlist \<Rightarrow> ptr \<Rightarrow> 'a \<Rightarrow> bool \<Rightarrow> ('a heap \<times> 'a adlist option) option" where
  "listInsertNode zmalloc h l old_node value after = (case zmalloc h of
     None \<Rightarrow> Some (h, None)
   | Some node \<Rightarrow> do {
       old \<leftarrow> h old_node;
       let (prv, nxt) = (if after then (Some old_node, nnext old) else (nprev old, Some old_node));
       let l = (if after then (if tail l = Some old_node then l\<lparr>tail := Some node\<rparr> else l)
                else (if head l = Some old_node then l\<lparr>head := Some node\<rparr> else l));
       let h = h(node \<mapsto> \<lparr>nprev = prv, nnext = nxt, nvalue = value\<rparr>);
       h \<leftarrow> (if prv \<noteq> None then poke h prv (\<lambda>n. n\<lparr>nnext := Some node\<rparr>) else Some h);
       h \<leftarrow> (if nxt \<noteq> None then poke h nxt (\<lambda>n. n\<lparr>nprev := Some node\<rparr>) else Some h);
       Some (h, Some (l\<lparr>len := len l + 1\<rparr>))
     })"

definition listDelNode :: "'a heap \<Rightarrow> 'a adlist \<Rightarrow> ptr \<Rightarrow> ('a heap \<times> 'a adlist) option" where
  "listDelNode h l node = do {
     n \<leftarrow> h node;
     (h, l) \<leftarrow> (if nprev n \<noteq> None then do { h \<leftarrow> poke h (nprev n) (\<lambda>m. m\<lparr>nnext := nnext n\<rparr>); Some (h, l) }
               else Some (h, l\<lparr>head := nnext n\<rparr>));
     (h, l) \<leftarrow> (if nnext n \<noteq> None then do { h \<leftarrow> poke h (nnext n) (\<lambda>m. m\<lparr>nprev := nprev n\<rparr>); Some (h, l) }
               else Some (h, l\<lparr>tail := nprev n\<rparr>));
     Some (h(node := None), l\<lparr>len := len l - 1\<rparr>)
   }"

definition listGetIterator :: "'a adlist \<Rightarrow> direction \<Rightarrow> listIter" where
  "listGetIterator l d = \<lparr>it_next = (if d = AL_START_HEAD then head l else tail l), it_dir = d\<rparr>"

definition listRewind :: "'a adlist \<Rightarrow> listIter" where
  "listRewind l = \<lparr>it_next = head l, it_dir = AL_START_HEAD\<rparr>"

definition listRewindTail :: "'a adlist \<Rightarrow> listIter" where
  "listRewindTail l = \<lparr>it_next = tail l, it_dir = AL_START_TAIL\<rparr>"

definition listNext :: "'a heap \<Rightarrow> listIter \<Rightarrow> (listIter \<times> ptr option) option" where
  "listNext h iter = (case it_next iter of
     None \<Rightarrow> Some (iter, None)
   | Some current \<Rightarrow> do {
       n \<leftarrow> h current;
       Some (iter\<lparr>it_next := (if it_dir iter = AL_START_HEAD then nnext n else nprev n)\<rparr>, Some current)
     })"

text \<open>The loop of \<open>listDup\<close>; the outcome without a list is that memory ran out or a value could
not be copied.\<close>

partial_function (option) dup_loop ::
  "('a heap \<Rightarrow> ptr option) \<Rightarrow> 'a heap \<Rightarrow> 'a adlist \<Rightarrow> listIter \<Rightarrow> ('a heap \<times> 'a adlist option) option" where
  "dup_loop zmalloc h copy iter = do {
     (iter, node) \<leftarrow> listNext h iter;
     case node of
       None \<Rightarrow> Some (h, Some copy)
     | Some p \<Rightarrow> do {
         n \<leftarrow> h p;
         case (case dup copy of Some f \<Rightarrow> f (nvalue n) | None \<Rightarrow> Some (nvalue n)) of
           None \<Rightarrow> do { h \<leftarrow> listRelease h copy; Some (h, None) }
         | Some value \<Rightarrow> do {
             (h, copy') \<leftarrow> listAddNodeTail zmalloc h copy value;
             case copy' of
               None \<Rightarrow> do { h \<leftarrow> listRelease h copy; Some (h, None) }
             | Some copy \<Rightarrow> dup_loop zmalloc h copy iter
           }
       }
   }"

definition listDup :: "('a heap \<Rightarrow> ptr option) \<Rightarrow> 'a heap \<Rightarrow> 'a adlist \<Rightarrow> ('a heap \<times> 'a adlist option) option" where
  "listDup zmalloc h orig =
     dup_loop zmalloc h (listCreate\<lparr>dup := dup orig, matchf := matchf orig\<rparr>) (listRewind orig)"

partial_function (option) search_loop :: "'a heap \<Rightarrow> ('a \<Rightarrow> bool) \<Rightarrow> listIter \<Rightarrow> ptr option option" where
  "search_loop h found iter = do {
     (iter, node) \<leftarrow> listNext h iter;
     case node of
       None \<Rightarrow> Some None
     | Some p \<Rightarrow> do {
         n \<leftarrow> h p;
         if found (nvalue n) then Some (Some p) else search_loop h found iter
       }
   }"

definition listSearchKey :: "'a heap \<Rightarrow> 'a adlist \<Rightarrow> 'a \<Rightarrow> ptr option option" where
  "listSearchKey h l key =
     search_loop h (case matchf l of Some f \<Rightarrow> (\<lambda>v. f v key) | None \<Rightarrow> (\<lambda>v. key = v)) (listRewind l)"

primrec index_loop :: "'a heap \<Rightarrow> ('a listNode \<Rightarrow> ptr option) \<Rightarrow> nat \<Rightarrow> ptr option \<Rightarrow> ptr option option" where
  "index_loop h step 0 n = Some n"
| "index_loop h step (Suc k) n = (case n of
     None \<Rightarrow> Some None
   | Some p \<Rightarrow> do { c \<leftarrow> h p; index_loop h step k (step c) })"

definition listIndex :: "'a heap \<Rightarrow> 'a adlist \<Rightarrow> int \<Rightarrow> ptr option option" where
  "listIndex h l index =
     (if index < 0 then index_loop h nprev (nat (- index - 1)) (tail l)
      else index_loop h nnext (nat index) (head l))"

definition listRotateTailToHead :: "'a heap \<Rightarrow> 'a adlist \<Rightarrow> ('a heap \<times> 'a adlist) option" where
  "listRotateTailToHead h l =
     (if len l \<le> 1 then Some (h, l)
      else do {
        let t = tail l;
        n \<leftarrow> load h t;
        let l = l\<lparr>tail := nprev n\<rparr>;
        h \<leftarrow> poke h (tail l) (\<lambda>m. m\<lparr>nnext := None\<rparr>);
        h \<leftarrow> poke h (head l) (\<lambda>m. m\<lparr>nprev := t\<rparr>);
        h \<leftarrow> poke h t (\<lambda>m. m\<lparr>nprev := None\<rparr>);
        h \<leftarrow> poke h t (\<lambda>m. m\<lparr>nnext := head l\<rparr>);
        Some (h, l\<lparr>head := t\<rparr>)
      })"

definition listRotateHeadToTail :: "'a heap \<Rightarrow> 'a adlist \<Rightarrow> ('a heap \<times> 'a adlist) option" where
  "listRotateHeadToTail h l =
     (if len l \<le> 1 then Some (h, l)
      else do {
        let hd = head l;
        n \<leftarrow> load h hd;
        let l = l\<lparr>head := nnext n\<rparr>;
        h \<leftarrow> poke h (head l) (\<lambda>m. m\<lparr>nprev := None\<rparr>);
        h \<leftarrow> poke h (tail l) (\<lambda>m. m\<lparr>nnext := hd\<rparr>);
        h \<leftarrow> poke h hd (\<lambda>m. m\<lparr>nnext := None\<rparr>);
        h \<leftarrow> poke h hd (\<lambda>m. m\<lparr>nprev := tail l\<rparr>);
        Some (h, l\<lparr>tail := hd\<rparr>)
      })"

definition listJoin :: "'a heap \<Rightarrow> 'a adlist \<Rightarrow> 'a adlist \<Rightarrow> ('a heap \<times> 'a adlist \<times> 'a adlist) option" where
  "listJoin h l ol =
     (if len ol = 0 then Some (h, l, ol)
      else do {
        h \<leftarrow> poke h (head ol) (\<lambda>m. m\<lparr>nprev := tail l\<rparr>);
        (h, l) \<leftarrow> (if tail l \<noteq> None then do { h \<leftarrow> poke h (tail l) (\<lambda>m. m\<lparr>nnext := head ol\<rparr>); Some (h, l) }
                  else Some (h, l\<lparr>head := head ol\<rparr>));
        let l = l\<lparr>tail := tail ol, len := len l + len ol\<rparr>;
        Some (h, l, ol\<lparr>head := None, tail := None, len := 0\<rparr>)
      })"

section \<open>What a list in the heap stands for\<close>

definition first_or :: "ptr option \<Rightarrow> (ptr \<times> 'a) list \<Rightarrow> ptr option" where
  "first_or d xs = (case xs of [] \<Rightarrow> d | x # _ \<Rightarrow> Some (fst x))"

definition last_or :: "ptr option \<Rightarrow> (ptr \<times> 'a) list \<Rightarrow> ptr option" where
  "last_or d xs = (if xs = [] then d else Some (fst (last xs)))"

text \<open>The nodes \<open>xs\<close> follow each other, between \<open>pr\<close> and \<open>nx\<close>.\<close>

primrec seg :: "'a heap \<Rightarrow> ptr option \<Rightarrow> (ptr \<times> 'a) list \<Rightarrow> ptr option \<Rightarrow> bool" where
  "seg h pr [] nx = True"
| "seg h pr (x # xs) nx =
     (h (fst x) = Some \<lparr>nprev = pr, nnext = first_or nx xs, nvalue = snd x\<rparr> \<and> seg h (Some (fst x)) xs nx)"

definition rep :: "'a heap \<Rightarrow> 'a adlist \<Rightarrow> (ptr \<times> 'a) list \<Rightarrow> bool" where
  "rep h l xs \<longleftrightarrow> distinct (map fst xs) \<and> seg h None xs None \<and>
     head l = first_or None xs \<and> tail l = last_or None xs \<and> len l = length xs"

definition frame :: "ptr set \<Rightarrow> 'a heap \<Rightarrow> 'a heap \<Rightarrow> bool" where
  "frame A h h' \<longleftrightarrow> (\<forall>p. p \<notin> A \<longrightarrow> h' p = h p)"

lemma first_or_simps [simp]: "first_or d [] = d" "first_or d (x # xs) = Some (fst x)"
  "first_or d (xs @ ys) = first_or (first_or d ys) xs"
  by (simp_all add: first_or_def split: list.split)

lemma last_or_simps [simp]: "last_or d [] = d" "last_or d (x # xs) = last_or (Some (fst x)) xs"
  "last_or d (xs @ ys) = last_or (last_or d xs) ys"
  by (simp_all add: last_or_def)

lemma first_or_neq [simp]:
  "d \<noteq> Some q \<Longrightarrow> q \<notin> fst ` set xs \<Longrightarrow> first_or d xs \<noteq> Some q"
  "d \<noteq> Some q \<Longrightarrow> q \<notin> fst ` set xs \<Longrightarrow> Some q \<noteq> first_or d xs"
  by (auto simp: first_or_def split: list.splits)

lemma last_or_neq [simp]:
  "d \<noteq> Some q \<Longrightarrow> q \<notin> fst ` set xs \<Longrightarrow> last_or d xs \<noteq> Some q"
  "d \<noteq> Some q \<Longrightarrow> q \<notin> fst ` set xs \<Longrightarrow> Some q \<noteq> last_or d xs"
  by (auto simp: last_or_def split: if_splits)

lemma seg_append: "seg h pr (xs @ ys) nx \<longleftrightarrow> seg h pr xs (first_or nx ys) \<and> seg h (last_or pr xs) ys nx"
  by (induction xs arbitrary: pr) auto

lemma seg_frame: "frame A h h' \<Longrightarrow> A \<inter> fst ` set xs = {} \<Longrightarrow> seg h pr xs nx \<Longrightarrow> seg h' pr xs nx"
  by (induction xs arbitrary: pr) (auto simp: frame_def)

lemma seg_upd [simp]: "a \<notin> fst ` set xs \<Longrightarrow> seg (h(a := y)) pr xs nx \<longleftrightarrow> seg h pr xs nx"
  by (induction xs arbitrary: pr) auto

lemma poke_Some [simp]: "h a = Some n \<Longrightarrow> poke h (Some a) f = Some (h(a \<mapsto> f n))"
  by (simp add: poke_def)

lemma load_Some [simp]: "load h (Some a) = h a"
  by (simp add: load_def)

lemma list_snoc_cases: obtains "xs = []" | ys y where "xs = ys @ [y]"
  by (cases xs rule: rev_cases) auto

lemma seg_live: "seg h pr xs nx \<Longrightarrow> a \<in> fst ` set xs \<Longrightarrow> h a \<noteq> None"
  by (induction xs arbitrary: pr) auto

lemma rep_fresh: "rep h l xs \<Longrightarrow> h a = None \<Longrightarrow> a \<notin> fst ` set xs"
  using seg_live [of h None xs None a] by (auto simp: rep_def)

section \<open>Insertion and deletion\<close>

lemma rep_listCreate: "rep h listCreate []"
  by (simp add: rep_def listCreate_def)

lemma listAddNodeHead_rep:
  assumes "rep h l xs" "zmalloc h = Some p" "h p = None"
  shows "\<exists>h' l'. listAddNodeHead zmalloc h l v = Some (h', Some l') \<and> rep h' l' ((p, v) # xs) \<and>
    frame (insert p (fst ` set xs)) h h' \<and> dup l' = dup l \<and> matchf l' = matchf l"
proof -
  have p: "p \<notin> fst ` set xs" using rep_fresh [OF assms(1,3)] .
  show ?thesis
  proof (cases xs)
    case Nil
    then show ?thesis using assms by (simp add: listAddNodeHead_def rep_def frame_def)
  next
    case (Cons x ys)
    then show ?thesis using assms p by (auto simp: listAddNodeHead_def rep_def frame_def)
  qed
qed

lemma listAddNodeTail_rep:
  assumes "rep h l xs" "zmalloc h = Some p" "h p = None"
  shows "\<exists>h' l'. listAddNodeTail zmalloc h l v = Some (h', Some l') \<and> rep h' l' (xs @ [(p, v)]) \<and>
    frame (insert p (fst ` set xs)) h h' \<and> dup l' = dup l \<and> matchf l' = matchf l"
proof -
  have p: "p \<notin> fst ` set xs" using rep_fresh [OF assms(1,3)] .
  show ?thesis
  proof (cases xs rule: rev_cases)
    case Nil
    then show ?thesis using assms by (simp add: listAddNodeTail_def rep_def frame_def)
  next
    case (snoc ys y)
    then show ?thesis using assms p by (auto simp: listAddNodeTail_def rep_def frame_def seg_append)
  qed
qed

lemma listInsertNode_rep:
  assumes "rep h l (as @ (q, w) # bs)" "zmalloc h = Some p" "h p = None"
  shows "\<exists>h' l'. listInsertNode zmalloc h l q v after = Some (h', Some l') \<and>
    rep h' l' (if after then as @ (q, w) # (p, v) # bs else as @ (p, v) # (q, w) # bs) \<and>
    frame (insert p (fst ` set (as @ (q, w) # bs))) h h'"
proof -
  have p: "p \<notin> fst ` set (as @ (q, w) # bs)" using rep_fresh [OF assms(1,3)] .
  show ?thesis
    by (cases after; cases as rule: rev_cases; cases bs)
      (use assms p in \<open>auto simp: listInsertNode_def rep_def frame_def seg_append Let_def image_Un\<close>)
qed

lemma listDelNode_rep:
  assumes "rep h l (as @ (q, w) # bs)"
  shows "\<exists>h' l'. listDelNode h l q = Some (h', l') \<and> rep h' l' (as @ bs) \<and> h' q = None \<and>
    frame (fst ` set (as @ (q, w) # bs)) h h'"
  by (cases as rule: rev_cases; cases bs)
    (use assms in \<open>auto simp: listDelNode_def rep_def frame_def seg_append Let_def image_Un\<close>)

section \<open>Emptying, rotating, joining\<close>

lemma empty_loop_seg:
  "seg h pr xs None \<Longrightarrow> distinct (map fst xs) \<Longrightarrow>
     empty_loop (length xs) h (first_or None xs) = Some (\<lambda>a. if a \<in> fst ` set xs then None else h a)"
proof (induction xs arbitrary: pr h)
  case (Cons x xs)
  then have "seg (h(fst x := None)) (Some (fst x)) xs None" "distinct (map fst xs)" by simp_all
  note IH = Cons.IH [OF this]
  have "(\<lambda>a. if a \<in> fst ` set xs then None else (h(fst x := None)) a) =
      (\<lambda>a. if a \<in> fst ` set (x # xs) then None else h a)" by auto
  with IH Cons.prems show ?case by (simp only: length_Cons empty_loop.simps first_or_simps load_Some seg.simps
    Option.bind.bind_lunit Let_def option.sel listNode.simps)
qed simp

lemma listEmpty_rep:
  assumes "rep h l xs"
  shows "\<exists>h' l'. listEmpty h l = Some (h', l') \<and> rep h' l' [] \<and>
    h' = (\<lambda>a. if a \<in> fst ` set xs then None else h a)"
  using assms empty_loop_seg [of h None xs] by (simp add: listEmpty_def rep_def)

lemma listRelease_rep:
  assumes "rep h l xs"
  shows "listRelease h l = Some (\<lambda>a. if a \<in> fst ` set xs then None else h a)"
  using listEmpty_rep [OF assms] by (auto simp: listRelease_def)

lemma listRotateTailToHead_rep:
  assumes "rep h l xs"
  shows "\<exists>h' l'. listRotateTailToHead h l = Some (h', l') \<and>
    rep h' l' (if xs = [] then [] else last xs # butlast xs) \<and> frame (fst ` set xs) h h'"
proof (cases "length xs \<le> 1")
  case True
  then show ?thesis using assms
    by (cases xs) (auto simp: listRotateTailToHead_def rep_def frame_def)
next
  case False
  then obtain x ys z where xs: "xs = x # ys @ [z]"
    by (cases xs; cases "tl xs" rule: rev_cases) auto
  show ?thesis
    by (cases ys rule: rev_cases)
      (use assms in \<open>auto simp: listRotateTailToHead_def rep_def frame_def xs seg_append Let_def image_Un butlast_append\<close>)
qed

lemma listRotateHeadToTail_rep:
  assumes "rep h l xs"
  shows "\<exists>h' l'. listRotateHeadToTail h l = Some (h', l') \<and>
    rep h' l' (if xs = [] then [] else tl xs @ [hd xs]) \<and> frame (fst ` set xs) h h'"
proof (cases "length xs \<le> 1")
  case True
  then show ?thesis using assms
    by (cases xs) (auto simp: listRotateHeadToTail_def rep_def frame_def)
next
  case False
  then obtain x ys z where xs: "xs = x # ys @ [z]"
    by (cases xs; cases "tl xs" rule: rev_cases) auto
  show ?thesis
    by (cases ys)
      (use assms in \<open>auto simp: listRotateHeadToTail_def rep_def frame_def xs seg_append Let_def image_Un\<close>)
qed

lemma listJoin_rep:
  assumes "rep h l xs" "rep h ol ys" "fst ` set xs \<inter> fst ` set ys = {}"
  shows "\<exists>h' l' o'. listJoin h l ol = Some (h', l', o') \<and> rep h' l' (xs @ ys) \<and> rep h' o' [] \<and>
    frame (fst ` set (xs @ ys)) h h'"
  by (cases xs rule: rev_cases; cases ys)
    (use assms in \<open>auto simp: listJoin_def rep_def frame_def seg_append Let_def image_Un\<close>)

section \<open>Iteration\<close>

lemma listNext_seg:
  "seg h pr (x # xs) nx \<Longrightarrow>
     listNext h \<lparr>it_next = first_or nx (x # xs), it_dir = AL_START_HEAD\<rparr>
     = Some (\<lparr>it_next = first_or nx xs, it_dir = AL_START_HEAD\<rparr>, Some (fst x))"
  by (simp add: listNext_def)

lemma listNext_end: "listNext h \<lparr>it_next = None, it_dir = d\<rparr> = Some (\<lparr>it_next = None, it_dir = d\<rparr>, None)"
  by (simp add: listNext_def)

lemma search_loop_seg:
  "seg h pr xs None \<Longrightarrow>
     search_loop h f \<lparr>it_next = first_or None xs, it_dir = AL_START_HEAD\<rparr> = Some (map_option fst (find (\<lambda>x. f (snd x)) xs))"
proof (induction xs arbitrary: pr)
  case Nil
  then show ?case by (subst search_loop.simps) (simp add: listNext_end)
next
  case (Cons x xs)
  then show ?case using listNext_seg [OF Cons.prems]
    by (subst search_loop.simps) auto
qed

lemma listSearchKey_rep:
  "rep h l xs \<Longrightarrow> listSearchKey h l key =
     Some (map_option fst (find (\<lambda>x. case matchf l of Some f \<Rightarrow> f (snd x) key | None \<Rightarrow> key = snd x) xs))"
  using search_loop_seg [of h None xs]
  by (auto simp: listSearchKey_def rep_def listRewind_def comp_def split: option.split)

lemma index_forward:
  "seg h pr xs None \<Longrightarrow> index_loop h nnext k (first_or None xs) = Some (if k < length xs then Some (fst (xs ! k)) else None)"
proof (induction k arbitrary: pr xs)
  case 0
  then show ?case by (cases xs) simp_all
next
  case (Suc k)
  then show ?case by (cases xs) auto
qed

lemma index_backward:
  "seg h None xs nx \<Longrightarrow> index_loop h nprev k (last_or None xs) =
     Some (if k < length xs then Some (fst (xs ! (length xs - 1 - k))) else None)"
proof (induction k arbitrary: nx xs)
  case 0
  then show ?case by (cases xs rule: rev_cases) (simp_all add: last_or_def)
next
  case (Suc k)
  show ?case
  proof (cases xs rule: rev_cases)
    case Nil
    then show ?thesis by simp
  next
    case (snoc ys y)
    with Suc.prems have s: "seg h None ys (Some (fst y))" "h (fst y) = Some \<lparr>nprev = last_or None ys, nnext = nx, nvalue = snd y\<rparr>"
      by (simp_all add: seg_append)
    have "index_loop h nprev (Suc k) (last_or None xs) = index_loop h nprev k (last_or None ys)"
      using s(2) by (simp add: snoc)
    with Suc.IH [OF s(1)] show ?thesis by (auto simp: snoc nth_append)
  qed
qed

text \<open>The position a possibly negative index means.\<close>

definition index_pos :: "nat \<Rightarrow> int \<Rightarrow> nat option" where
  "index_pos n i = (if 0 \<le> i \<and> i < int n then Some (nat i) else if i < 0 \<and> - i \<le> int n then Some (nat (int n + i)) else None)"

lemma listIndex_rep:
  assumes "rep h l xs"
  shows "listIndex h l i = Some (map_option (\<lambda>k. fst (xs ! k)) (index_pos (length xs) i))"
proof (cases "i < 0")
  case True
  have "nat (- i - 1) < length xs \<longleftrightarrow> - i \<le> int (length xs)" using True by linarith
  moreover have "length xs - 1 - nat (- i - 1) = nat (int (length xs) + i)" using True by linarith
  ultimately show ?thesis using assms index_backward [of h xs None "nat (- i - 1)"] True
    by (simp add: listIndex_def rep_def index_pos_def)
next
  case False
  then show ?thesis using assms index_forward [of h None xs "nat i"]
    by (auto simp: listIndex_def rep_def index_pos_def nat_less_iff)
qed

section \<open>Duplication\<close>

definition fresh_alloc :: "('a heap \<Rightarrow> ptr option) \<Rightarrow> bool" where
  "fresh_alloc zmalloc \<longleftrightarrow> (\<forall>h p. zmalloc h = Some p \<longrightarrow> h p = None)"

text \<open>\<open>h\<close> is \<open>h0\<close> with the nodes \<open>ys\<close> added.\<close>

definition grown :: "'a heap \<Rightarrow> (ptr \<times> 'a) list \<Rightarrow> 'a heap \<Rightarrow> bool" where
  "grown h0 ys h \<longleftrightarrow> frame (fst ` set ys) h0 h \<and> (\<forall>a \<in> fst ` set ys. h0 a = None)"

lemma grown_release: "grown h0 ys h \<Longrightarrow> (\<lambda>a. if a \<in> fst ` set ys then None else h a) = h0"
  by (auto simp: grown_def frame_def fun_eq_iff)

lemma grown_seg: "grown h0 ys h \<Longrightarrow> seg h0 pr xs nx \<Longrightarrow> seg h pr xs nx"
proof -
  assume g: "grown h0 ys h" and s: "seg h0 pr xs nx"
  have "fst ` set ys \<inter> fst ` set xs = {}" using g seg_live [OF s] unfolding grown_def by blast
  then show ?thesis using g s seg_frame [of "fst ` set ys" h0 h xs pr nx] by (simp add: grown_def)
qed

lemma grown_add:
  assumes "grown h0 ys h" "h p = None" "frame (insert p (fst ` set ys)) h h'"
  shows "grown h0 (ys @ [(p, v)]) h'"
proof -
  have "h0 p = None" using assms(1,2) unfolding grown_def frame_def by (cases "p \<in> fst ` set ys") auto
  moreover have "frame (insert p (fst ` set ys)) h0 h'" using assms(1,3) by (simp add: grown_def frame_def)
  ultimately show ?thesis using assms(1) by (simp add: grown_def)
qed

definition copy_val :: "'a adlist \<Rightarrow> 'a \<Rightarrow> 'a option" where
  "copy_val l v = (case dup l of Some f \<Rightarrow> f v | None \<Rightarrow> Some v)"

text \<open>How a duplication of values to \<open>vs\<close> may end.\<close>

definition dup_result :: "'a heap \<Rightarrow> 'a option list \<Rightarrow> 'a heap \<Rightarrow> 'a adlist option \<Rightarrow> bool" where
  "dup_result h0 vs h' r = (case r of
     None \<Rightarrow> h' = h0
   | Some l' \<Rightarrow> \<exists>zs. rep h' l' zs \<and> grown h0 zs h' \<and> map (Some \<circ> snd) zs = vs)"

lemma dup_loop_seg:
  assumes "seg h0 pr xs None" "grown h0 ys h" "rep h copy ys" "fresh_alloc zmalloc"
  shows "\<exists>h' r. dup_loop zmalloc h copy \<lparr>it_next = first_or None xs, it_dir = AL_START_HEAD\<rparr> = Some (h', r) \<and>
    dup_result h0 (map (Some \<circ> snd) ys @ map (copy_val copy \<circ> snd) xs) h' r"
  using assms
proof (induction xs arbitrary: pr ys h copy)
  case Nil
  then show ?case by (subst dup_loop.simps) (auto simp: listNext_end dup_result_def)
next
  case (Cons x xs)
  have s: "seg h pr (x # xs) None" using grown_seg [OF Cons.prems(2,1)] .
  have rel: "listRelease h copy = Some h0"
    using listRelease_rep [OF Cons.prems(3)] grown_release [OF Cons.prems(2)] by simp
  note nx = listNext_seg [OF s]
  show ?case
  proof (cases "copy_val copy (snd x)")
    case None
    then show ?thesis using s rel nx
      by (subst dup_loop.simps) (simp add: copy_val_def dup_result_def split: option.splits)
  next
    case (Some v)
    show ?thesis
    proof (cases "zmalloc h")
      case None
      have "listAddNodeTail zmalloc h copy v = Some (h, None)" using None by (simp add: listAddNodeTail_def)
      then show ?thesis using s rel nx Some
        by (subst dup_loop.simps) (simp add: copy_val_def dup_result_def split: option.splits)
    next
      fix p assume z: "zmalloc h = Some p"
      then have p: "h p = None" using Cons.prems(4) by (simp add: fresh_alloc_def)
      obtain h' l' where a: "listAddNodeTail zmalloc h copy v = Some (h', Some l')" "rep h' l' (ys @ [(p, v)])"
        "frame (insert p (fst ` set ys)) h h'" "dup l' = dup copy" "matchf l' = matchf copy"
        using listAddNodeTail_rep [of h copy ys zmalloc p, OF Cons.prems(3) z p] by blast
      have "seg h0 (Some (fst x)) xs None" using Cons.prems(1) by simp
      note IH = Cons.IH [OF this grown_add [OF Cons.prems(2) p a(3)] a(2) Cons.prems(4)]
      have "map (Some \<circ> snd) (ys @ [(p, v)]) @ map (copy_val l' \<circ> snd) xs = map (Some \<circ> snd) ys @ map (copy_val copy \<circ> snd) (x # xs)"
        using Some by (simp add: copy_val_def a(4))
      moreover have "dup_loop zmalloc h copy \<lparr>it_next = first_or None (x # xs), it_dir = AL_START_HEAD\<rparr>
          = dup_loop zmalloc h' l' \<lparr>it_next = first_or None xs, it_dir = AL_START_HEAD\<rparr>"
        using s nx Some a(1)
        by (subst dup_loop.simps) (simp add: copy_val_def split: option.splits)
      ultimately show ?thesis using IH by (simp only:)
    qed
  qed
qed

section \<open>Removing while iterating\<close>

text \<open>The pattern that the comment of \<open>listNext\<close> allows: the current node may be deleted.\<close>

partial_function (option) purge_loop ::
  "('a \<Rightarrow> bool) \<Rightarrow> 'a heap \<Rightarrow> 'a adlist \<Rightarrow> listIter \<Rightarrow> ('a heap \<times> 'a adlist) option" where
  "purge_loop del h l iter = do {
     (iter, node) \<leftarrow> listNext h iter;
     case node of
       None \<Rightarrow> Some (h, l)
     | Some p \<Rightarrow> do {
         n \<leftarrow> h p;
         if del (nvalue n) then do { (h, l) \<leftarrow> listDelNode h l p; purge_loop del h l iter }
         else purge_loop del h l iter
       }
   }"

lemma purge_loop_rep:
  assumes "rep h l (ys @ xs)"
  shows "\<exists>h' l'. purge_loop del h l \<lparr>it_next = first_or None xs, it_dir = AL_START_HEAD\<rparr> = Some (h', l') \<and>
    rep h' l' (ys @ filter (\<lambda>x. \<not> del (snd x)) xs) \<and> frame (fst ` set (ys @ xs)) h h'"
  using assms
proof (induction xs arbitrary: ys h l)
  case Nil
  then show ?case by (subst purge_loop.simps) (simp add: listNext_end frame_def)
next
  case (Cons x xs)
  have s: "seg h (last_or None ys) (x # xs) None" using Cons.prems by (simp add: rep_def seg_append)
  note nx = listNext_seg [OF s]
  show ?case
  proof (cases "del (snd x)")
    case True
    obtain h' l' where d: "listDelNode h l (fst x) = Some (h', l')" "rep h' l' (ys @ xs)"
      "frame (fst ` set (ys @ x # xs)) h h'"
      using listDelNode_rep [of h l ys "fst x" "snd x" xs] Cons.prems by auto
    obtain h'' l'' where IH: "purge_loop del h' l' \<lparr>it_next = first_or None xs, it_dir = AL_START_HEAD\<rparr> = Some (h'', l'')"
      "rep h'' l'' (ys @ filter (\<lambda>x. \<not> del (snd x)) xs)" "frame (fst ` set (ys @ xs)) h' h''"
      using Cons.IH [OF d(2)] by blast
    have "frame (fst ` set (ys @ x # xs)) h h''" using d(3) IH(3) by (simp add: frame_def image_Un)
    with IH(1,2) d(1) s nx True show ?thesis by (subst purge_loop.simps) simp
  next
    case False
    from Cons.IH [of h l "ys @ [x]"] Cons.prems s nx False show ?thesis by (subst purge_loop.simps) auto
  qed
qed

section \<open>Sequences of operations\<close>

datatype 'a list_op =
    PushHead 'a | PushTail 'a | InsertAt int 'a bool | DelAt int | RotateTail | RotateHead | Empty
  | Purge "'a \<Rightarrow> bool" | Get int

type_synonym 'a list_ans = "'a option"

fun list_step ::
  "('a heap \<Rightarrow> ptr option) \<Rightarrow> 'a heap \<times> 'a adlist \<Rightarrow> 'a list_op \<Rightarrow> (('a heap \<times> 'a adlist) \<times> 'a list_ans) option" where
  "list_step m (h, l) (PushHead v) = do { (h, r) \<leftarrow> listAddNodeHead m h l v; l \<leftarrow> r; Some ((h, l), None) }"
| "list_step m (h, l) (PushTail v) = do { (h, r) \<leftarrow> listAddNodeTail m h l v; l \<leftarrow> r; Some ((h, l), None) }"
| "list_step m (h, l) (InsertAt i v after) = do {
     n \<leftarrow> listIndex h l i;
     case n of None \<Rightarrow> Some ((h, l), None)
     | Some p \<Rightarrow> do { (h, r) \<leftarrow> listInsertNode m h l p v after; l \<leftarrow> r; Some ((h, l), None) } }"
| "list_step m (h, l) (DelAt i) = do {
     n \<leftarrow> listIndex h l i;
     case n of None \<Rightarrow> Some ((h, l), None)
     | Some p \<Rightarrow> do { (h, l) \<leftarrow> listDelNode h l p; Some ((h, l), None) } }"
| "list_step m (h, l) RotateTail = do { (h, l) \<leftarrow> listRotateTailToHead h l; Some ((h, l), None) }"
| "list_step m (h, l) RotateHead = do { (h, l) \<leftarrow> listRotateHeadToTail h l; Some ((h, l), None) }"
| "list_step m (h, l) Empty = do { (h, l) \<leftarrow> listEmpty h l; Some ((h, l), None) }"
| "list_step m (h, l) (Purge del) = do { (h, l) \<leftarrow> purge_loop del h l (listRewind l); Some ((h, l), None) }"
| "list_step m (h, l) (Get i) = do {
     n \<leftarrow> listIndex h l i;
     case n of None \<Rightarrow> Some ((h, l), None) | Some p \<Rightarrow> do { c \<leftarrow> h p; Some ((h, l), Some (nvalue c)) } }"

fun list_run ::
  "('a heap \<Rightarrow> ptr option) \<Rightarrow> 'a heap \<times> 'a adlist \<Rightarrow> 'a list_op list \<Rightarrow> (('a heap \<times> 'a adlist) \<times> 'a list_ans list) option" where
  "list_run m s [] = Some (s, [])"
| "list_run m s (x # ops) = do {
     (s, a) \<leftarrow> list_step m s x;
     (s, as) \<leftarrow> list_run m s ops;
     Some (s, a # as)
   }"

text \<open>The same operations on a list of values.\<close>

fun vals_step :: "'a list \<Rightarrow> 'a list_op \<Rightarrow> 'a list \<times> 'a list_ans" where
  "vals_step vs (PushHead v) = (v # vs, None)"
| "vals_step vs (PushTail v) = (vs @ [v], None)"
| "vals_step vs (InsertAt i v after) = (case index_pos (length vs) i of
     None \<Rightarrow> (vs, None)
   | Some k \<Rightarrow> let k = (if after then k + 1 else k) in (take k vs @ v # drop k vs, None))"
| "vals_step vs (DelAt i) = (case index_pos (length vs) i of
     None \<Rightarrow> (vs, None) | Some k \<Rightarrow> (take k vs @ drop (k + 1) vs, None))"
| "vals_step vs RotateTail = (if vs = [] then [] else last vs # butlast vs, None)"
| "vals_step vs RotateHead = (if vs = [] then [] else tl vs @ [hd vs], None)"
| "vals_step vs Empty = ([], None)"
| "vals_step vs (Purge del) = (filter (\<lambda>v. \<not> del v) vs, None)"
| "vals_step vs (Get i) = (vs, map_option (\<lambda>k. vs ! k) (index_pos (length vs) i))"

fun vals_run :: "'a list \<Rightarrow> 'a list_op list \<Rightarrow> 'a list \<times> 'a list_ans list" where
  "vals_run vs [] = (vs, [])"
| "vals_run vs (x # ops) = (let (vs, a) = vals_step vs x; (vs, as) = vals_run vs ops in (vs, a # as))"

definition stands_for :: "'a heap \<times> 'a adlist \<Rightarrow> 'a list \<Rightarrow> bool" where
  "stands_for s vs \<longleftrightarrow> (\<exists>xs. rep (fst s) (snd s) xs \<and> map snd xs = vs)"

text \<open>An allocator that always finds a free address.\<close>

definition total_alloc :: "('a heap \<Rightarrow> ptr option) \<Rightarrow> bool" where
  "total_alloc zmalloc \<longleftrightarrow> (\<forall>h. finite (dom h) \<longrightarrow> (\<exists>p. zmalloc h = Some p \<and> h p = None))"

lemma frame_finite: "frame A h h' \<Longrightarrow> finite A \<Longrightarrow> finite (dom h) \<Longrightarrow> finite (dom h')"
proof -
  assume f: "frame A h h'" and "finite A" "finite (dom h)"
  moreover have "dom h' \<subseteq> A \<union> dom h" using f by (auto simp: frame_def)
  ultimately show "finite (dom h')" using finite_subset [of "dom h'" "A \<union> dom h"] by blast
qed

lemma index_pos_less: "index_pos n i = Some k \<Longrightarrow> k < n"
  by (auto simp: index_pos_def split: if_splits)

lemma rep_split: "rep h l xs \<Longrightarrow> k < length xs \<Longrightarrow> rep h l (take k xs @ (fst (xs ! k), snd (xs ! k)) # drop (Suc k) xs)"
  by (simp add: id_take_nth_drop [symmetric])

lemma listIndex_cases:
  assumes "rep h l xs"
  obtains (none) "index_pos (length (map snd xs)) i = None" "listIndex h l i = Some None"
    | (some) k where "index_pos (length (map snd xs)) i = Some k" "k < length xs" "listIndex h l i = Some (Some (fst (xs ! k)))"
proof (cases "index_pos (length xs) i")
  case None
  then show ?thesis using listIndex_rep [OF assms, of i] none by simp
next
  case (Some k)
  then show ?thesis using listIndex_rep [OF assms, of i] index_pos_less [OF Some] some by simp
qed

lemma alloc_step:
  assumes "total_alloc m" "finite (dom h)"
  obtains p where "m h = Some p" "h p = None"
  using assms by (auto simp: total_alloc_def)

lemma list_stepI:
  assumes "r = Some ((h', l'), a)" "rep h' l' ys" "map snd ys = vs" "frame A h h'" "finite A" "finite (dom h)"
  shows "\<exists>h' l'. r = Some ((h', l'), a) \<and> stands_for (h', l') vs \<and> finite (dom h')"
  using assms frame_finite [OF assms(4,5,6)] by (auto simp: stands_for_def)

lemma list_step_insert:
  assumes xs: "rep h l xs" and fin: "finite (dom h)" and m: "total_alloc m"
  shows "\<exists>h' l'. list_step m (h, l) (InsertAt i v after) = Some ((h', l'), None) \<and>
    stands_for (h', l') (fst (vals_step (map snd xs) (InsertAt i v after))) \<and> finite (dom h')"
proof -
  obtain p where p: "m h = Some p" "h p = None" using alloc_step [OF m fin] .
  show ?thesis
  proof (cases rule: listIndex_cases [OF xs, of i])
    case 1
    then show ?thesis using xs fin by (auto simp: stands_for_def)
  next
    case (2 k)
    let ?ys = "if after then take k xs @ (fst (xs ! k), snd (xs ! k)) # (p, v) # drop (Suc k) xs
        else take k xs @ (p, v) # (fst (xs ! k), snd (xs ! k)) # drop (Suc k) xs"
    obtain h' l' where r: "listInsertNode m h l (fst (xs ! k)) v after = Some (h', Some l')" "rep h' l' ?ys"
      "frame (insert p (fst ` set (take k xs @ (fst (xs ! k), snd (xs ! k)) # drop (Suc k) xs))) h h'"
      using listInsertNode_rep [where zmalloc = m and v = v and after = after, OF rep_split [OF xs 2(2)] p] by blast
    have d: "map snd (drop k xs) = snd (xs ! k) # map snd (drop (Suc k) xs)"
      using Cons_nth_drop_Suc [OF 2(2)] by (metis list.simps(9))
    have e: "map snd ?ys = fst (vals_step (map snd xs) (InsertAt i v after))"
      using 2 d by (simp add: take_map drop_map take_Suc_conv_app_nth)
    have "list_step m (h, l) (InsertAt i v after) = Some ((h', l'), None)" using r(1) 2(3) by simp
    from list_stepI [OF this r(2) e r(3) _ fin] show ?thesis by simp
  qed
qed

lemma list_step_del:
  assumes xs: "rep h l xs" and fin: "finite (dom h)"
  shows "\<exists>h' l'. list_step m (h, l) (DelAt i) = Some ((h', l'), None) \<and>
    stands_for (h', l') (fst (vals_step (map snd xs) (DelAt i))) \<and> finite (dom h')"
proof -
  show ?thesis
  proof (cases rule: listIndex_cases [OF xs, of i])
    case 1
    then show ?thesis using xs fin by (auto simp: stands_for_def)
  next
    case (2 k)
    obtain h' l' where r: "listDelNode h l (fst (xs ! k)) = Some (h', l')" "rep h' l' (take k xs @ drop (Suc k) xs)"
      "frame (fst ` set (take k xs @ (fst (xs ! k), snd (xs ! k)) # drop (Suc k) xs)) h h'"
      using listDelNode_rep [OF rep_split [OF xs 2(2)]] by blast
    have e: "map snd (take k xs @ drop (Suc k) xs) = fst (vals_step (map snd xs) (DelAt i))"
      using 2 by (simp add: take_map drop_map)
    have "list_step m (h, l) (DelAt i) = Some ((h', l'), None)" using r(1) 2(3) by simp
    from list_stepI [OF this r(2) e r(3) _ fin] show ?thesis by simp
  qed
qed

lemma list_step_get:
  assumes xs: "rep h l xs"
  shows "list_step m (h, l) (Get i) = Some ((h, l), snd (vals_step (map snd xs) (Get i)))"
proof -
  show ?thesis
  proof (cases rule: listIndex_cases [OF xs, of i])
    case 1
    then show ?thesis by simp
  next
    case (2 k)
    have "seg h None (take k xs @ xs ! k # drop (Suc k) xs) None" using xs rep_split [OF xs 2(2)] by (simp add: rep_def)
    then have "\<exists>n. h (fst (xs ! k)) = Some n \<and> nvalue n = snd (xs ! k)" by (simp add: seg_append)
    with 2 show ?thesis by auto
  qed
qed

lemma list_step_sim:
  assumes s: "stands_for (h, l) vs" and fin: "finite (dom h)" and m: "total_alloc m"
  shows "\<exists>h' l'. list_step m (h, l) x = Some ((h', l'), snd (vals_step vs x)) \<and>
    stands_for (h', l') (fst (vals_step vs x)) \<and> finite (dom h')"
proof -
  obtain xs where xs: "rep h l xs" and vs: "vs = map snd xs" using s by (auto simp: stands_for_def)
  obtain p where p: "m h = Some p" "h p = None" using alloc_step [OF m fin] .
  note intro = list_stepI [OF _ _ _ _ _ fin]
  show ?thesis
  proof (cases x)
    case (PushHead v)
    from listAddNodeHead_rep [where zmalloc = m and v = v, OF xs p] obtain h' l' where
      "listAddNodeHead m h l v = Some (h', Some l')" "rep h' l' ((p, v) # xs)" "frame (insert p (fst ` set xs)) h h'" by blast
    then show ?thesis by (intro intro [where ys = "(p, v) # xs"]) (auto simp: PushHead vs)
  next
    case (PushTail v)
    from listAddNodeTail_rep [where zmalloc = m and v = v, OF xs p] obtain h' l' where
      "listAddNodeTail m h l v = Some (h', Some l')" "rep h' l' (xs @ [(p, v)])" "frame (insert p (fst ` set xs)) h h'" by blast
    then show ?thesis by (intro intro [where ys = "xs @ [(p, v)]"]) (auto simp: PushTail vs)
  next
    case (InsertAt i v after)
    have "snd (vals_step vs (InsertAt i v after)) = None" by (simp split: option.split)
    with list_step_insert [OF xs fin m] show ?thesis by (simp only: InsertAt vs)
  next
    case (DelAt i)
    have "snd (vals_step vs (DelAt i)) = None" by (simp split: option.split)
    with list_step_del [OF xs fin] show ?thesis by (simp only: DelAt vs)
  next
    case RotateTail
    with listRotateTailToHead_rep [OF xs] show ?thesis
      by (auto intro!: intro simp: vs last_map map_butlast)
  next
    case RotateHead
    with listRotateHeadToTail_rep [OF xs] show ?thesis
      by (auto intro!: intro simp: vs hd_map map_tl)
  next
    case Empty
    have "finite (dom (\<lambda>a. if a \<in> fst ` set xs then None else h a))"
      by (rule finite_subset [OF _ fin]) (auto split: if_splits)
    with Empty listEmpty_rep [OF xs] show ?thesis by (auto simp: stands_for_def)
  next
    case (Purge del)
    from purge_loop_rep [of h l "[]" xs del] xs obtain h' l' where
      "purge_loop del h l (listRewind l) = Some (h', l')" "rep h' l' (filter (\<lambda>x. \<not> del (snd x)) xs)" "frame (fst ` set xs) h h'"
      by (auto simp: rep_def listRewind_def)
    then show ?thesis by (intro intro [where ys = "filter (\<lambda>x. \<not> del (snd x)) xs"]) (auto simp: Purge vs filter_map comp_def)
  next
    case (Get i)
    with list_step_get [OF xs] s fin show ?thesis by (simp add: vs)
  qed
qed

lemma list_run_sim:
  assumes "stands_for s vs" "finite (dom (fst s))" "total_alloc m"
  shows "\<exists>s'. list_run m s ops = Some (s', snd (vals_run vs ops)) \<and> stands_for s' (fst (vals_run vs ops))"
  using assms
proof (induction ops arbitrary: s vs)
  case (Cons x ops)
  obtain h l where s: "s = (h, l)" by (cases s)
  obtain h' l' where st: "list_step m s x = Some ((h', l'), snd (vals_step vs x))"
    "stands_for (h', l') (fst (vals_step vs x))" "finite (dom h')"
    using list_step_sim [of h l vs m x] Cons.prems by (auto simp: s)
  from Cons.IH [OF st(2)] st(1,3) Cons.prems(3) show ?case by (auto simp: case_prod_unfold Let_def)
qed simp

section \<open>Properties\<close>

text \<open>
  C9: a linked list refines a list of values. Every sequence of insertions at either end or next to
  a node, deletions, rotations, clearings, removals during an iteration and accesses by
  index runs without dereferencing a null or dangling pointer and has the effect and the answers of
  the same operations on a list. The allocator is assumed to find an unused address.
\<close>

theorem adlist_refines_list:
  assumes "total_alloc zmalloc" "finite (dom h)"
  shows "\<exists>s. list_run zmalloc (h, listCreate) ops = Some (s, snd (vals_run [] ops)) \<and> stands_for s (fst (vals_run [] ops))"
proof -
  have "stands_for (h, listCreate) []" using rep_listCreate by (auto simp: stands_for_def)
  from list_run_sim [OF this _ assms(1)] assms(2) show ?thesis by simp
qed

definition first_free :: "'a heap \<Rightarrow> ptr option" where
  "first_free h = Some (LEAST p. h p = None)"

lemma first_free_total: "total_alloc first_free"
proof (unfold total_alloc_def first_free_def, intro allI impI)
  fix h :: "'a heap" assume "finite (dom h)"
  then obtain p where "p \<notin> dom h" using ex_new_if_finite [OF infinite_UNIV_nat] by blast
  then have "h (LEAST p. h p = None) = None" by (intro LeastI [of "\<lambda>p. h p = None" p]) auto
  then show "\<exists>p. Some (LEAST p. h p = None) = Some p \<and> h p = None" by blast
qed

theorem adlist_refines_list_witness:
  "\<exists>s. list_run first_free (\<lambda>_. None, listCreate)
     [PushTail 1, PushTail (2 :: nat), PushHead 3, RotateTail, InsertAt (- 1) 7 False, DelAt 0, Get (- 1), Purge (\<lambda>v. v = 7), Get 0, Get 5]
   = Some (s, [None, None, None, None, None, None, Some 1, None, Some 3, None]) \<and> stands_for s [3, 1]"
  using adlist_refines_list [of first_free "\<lambda>_. None"
    "[PushTail 1, PushTail (2 :: nat), PushHead 3, RotateTail, InsertAt (- 1) 7 False, DelAt 0, Get (- 1), Purge (\<lambda>v. v = 7), Get 0, Get 5]"]
  by (simp add: first_free_total index_pos_def del: list_run.simps)


definition two_nodes :: "nat heap" where
  "two_nodes = [4 \<mapsto> \<lparr>nprev = None, nnext = Some 9, nvalue = 1\<rparr>, 9 \<mapsto> \<lparr>nprev = Some 4, nnext = None, nvalue = 2\<rparr>]"


end
