(* ===== verification/Lzf.thy ===== *)
theory Lzf
  imports Redis_Prelude
begin

text \<open>
  The LZF compressor (\<open>lzf_c.c\<close>) and decompressor (\<open>lzf_d.c\<close>) that RDB files and quicklists use for
  strings, in the configuration of \<open>lzfP.h\<close>: \<open>VERY_FAST\<close>, offsets in the hash table, no
  initialisation of the hash table, checks of the compressed input.

  Pointers are indices into the input and the output buffer; leaving a buffer is \<open>None\<close>. The hash
  table starts with arbitrary content. The main results: decompression of any bytes stays within its
  buffers, and decompressing the output of the compressor gives the input back.
\<close>

section \<open>Decompression\<close>

datatype lzf_errno = E2BIG | EINVAL

text \<open>Copying octet by octet inside the output, where source and destination may overlap.\<close>

primrec copy_loop :: "nat \<Rightarrow> nat \<Rightarrow> nat \<Rightarrow> mem \<Rightarrow> mem option" where
  "copy_loop 0 ref op out = Some out"
| "copy_loop (Suc n) ref op out = do {
     b \<leftarrow> mem_get ref out;
     out \<leftarrow> mem_put op b out;
     copy_loop n (ref + 1) (op + 1) out
   }"

text \<open>The \<open>switch (len)\<close> of a back reference.\<close>

definition ref_copy :: "nat \<Rightarrow> nat \<Rightarrow> nat \<Rightarrow> mem \<Rightarrow> mem option" where
  "ref_copy len ref op out =
     (if len \<le> 9 then copy_loop (len + 2) ref op out
      else let len = len + 2 in
        if op \<ge> ref + len then mem_move op ref len out else copy_loop len ref op out)"

definition lzfd_literal :: "mem \<Rightarrow> nat \<Rightarrow> nat \<Rightarrow> nat \<Rightarrow> mem \<Rightarrow> (lzf_errno + nat \<times> nat \<times> mem) option" where
  "lzfd_literal inp ctrl ip op out =
     (let ctrl = ctrl + 1 in
      if op + ctrl > length out then Some (Inl E2BIG)
      else if ip + ctrl > length inp then Some (Inl EINVAL)
      else do {
        bs \<leftarrow> mem_read ip ctrl inp;
        out \<leftarrow> mem_write op bs out;
        Some (Inr (ip + ctrl, op + ctrl, out))
      })"

text \<open>From the last octet of a back reference on.\<close>

definition lzfd_ref :: "mem \<Rightarrow> nat \<Rightarrow> int \<Rightarrow> nat \<Rightarrow> nat \<Rightarrow> mem \<Rightarrow> (lzf_errno + nat \<times> nat \<times> mem) option" where
  "lzfd_ref inp len ref ip op out = do {
     b \<leftarrow> mem_get ip inp;
     let ref = ref - int (unat b);
     let ip = ip + 1;
     if op + len + 2 > length out then Some (Inl E2BIG)
     else if ref < 0 then Some (Inl EINVAL)
     else do {
       out \<leftarrow> ref_copy len (nat ref) op out;
       Some (Inr (ip, op + len + 2, out))
     }
   }"

definition lzfd_backref :: "mem \<Rightarrow> nat \<Rightarrow> nat \<Rightarrow> nat \<Rightarrow> mem \<Rightarrow> (lzf_errno + nat \<times> nat \<times> mem) option" where
  "lzfd_backref inp ctrl ip op out =
     (let len = drop_bit 5 ctrl;
          ref = int op - int (push_bit 8 (ctrl AND 0x1f)) - 1 in
      if ip \<ge> length inp then Some (Inl EINVAL)
      else if len = 7 then do {
        b \<leftarrow> mem_get ip inp;
        let len = len + unat b;
        let ip = ip + 1;
        if ip \<ge> length inp then Some (Inl EINVAL) else lzfd_ref inp len ref ip op out
      }
      else lzfd_ref inp len ref ip op out)"

definition lzfd_step :: "mem \<Rightarrow> nat \<Rightarrow> nat \<Rightarrow> mem \<Rightarrow> (lzf_errno + nat \<times> nat \<times> mem) option" where
  "lzfd_step inp ip op out = do {
     c \<leftarrow> mem_get ip inp;
     let ctrl = unat c;
     if ctrl < 32 then lzfd_literal inp ctrl (ip + 1) op out
     else lzfd_backref inp ctrl (ip + 1) op out
   }"

partial_function (option) lzfd_loop :: "mem \<Rightarrow> nat \<Rightarrow> nat \<Rightarrow> mem \<Rightarrow> (lzf_errno + nat \<times> mem) option" where
  "lzfd_loop inp ip op out =
     (if ip < length inp then do {
        r \<leftarrow> lzfd_step inp ip op out;
        case r of
          Inl e \<Rightarrow> Some (Inl e)
        | Inr s \<Rightarrow> lzfd_loop inp (fst s) (fst (snd s)) (snd (snd s))
      }
      else Some (Inr (op, out)))"

definition lzf_decompress :: "mem \<Rightarrow> mem \<Rightarrow> (lzf_errno + nat \<times> mem) option" where
  "lzf_decompress inp out = lzfd_loop inp 0 0 out"

section \<open>Compression\<close>

definition HLOG :: nat where "HLOG = 16"
definition MAX_LIT :: nat where "MAX_LIT = 2 ^ 5"
definition MAX_OFF :: nat where "MAX_OFF = 2 ^ 13"
definition MAX_REF :: nat where "MAX_REF = 2 ^ 8 + 2 ^ 3"

definition FRST :: "mem \<Rightarrow> nat \<Rightarrow> 32 word option" where
  "FRST inp p = do { a \<leftarrow> mem_get p inp; b \<leftarrow> mem_get (p + 1) inp; Some (push_bit 8 (ucast a) OR ucast b) }"

definition NEXT :: "32 word \<Rightarrow> mem \<Rightarrow> nat \<Rightarrow> 32 word option" where
  "NEXT v inp p = do { c \<leftarrow> mem_get (p + 2) inp; Some (push_bit 8 v OR ucast c) }"

definition IDX :: "32 word \<Rightarrow> 32 word" where
  "IDX h = (drop_bit (3 * 8 - HLOG) h - h * 5) AND mask HLOG"

text \<open>The state of the compressor: the indices \<open>ip\<close> and \<open>op\<close>, the length of the current run of
literals, the running hash, the table of positions, the output.\<close>

record lzc =
  c_ip :: nat
  c_op :: nat
  c_lit :: nat
  c_hval :: "32 word"
  c_htab :: "32 word \<Rightarrow> 32 word"
  c_out :: mem

text \<open>A write at \<open>op[-k]\<close>.\<close>

definition put_back :: "nat \<Rightarrow> nat \<Rightarrow> byte \<Rightarrow> mem \<Rightarrow> mem option" where
  "put_back op k b out = (if k \<le> op then mem_put (op - k) b out else None)"

text \<open>The test for a match; \<open>off\<close> is an \<open>unsigned long\<close>.\<close>

definition lz_found :: "mem \<Rightarrow> nat \<Rightarrow> nat \<Rightarrow> bool option" where
  "lz_found inp ref ip =
     (if (int ip - int ref - 1) mod 2 ^ 64 < int MAX_OFF \<and> ref > 0 then do {
        r2 \<leftarrow> mem_get (ref + 2) inp;
        i2 \<leftarrow> mem_get (ip + 2) inp;
        if r2 = i2 then do {
          r \<leftarrow> mem_read ref 2 inp;
          i \<leftarrow> mem_read ip 2 inp;
          Some (r = i)
        } else Some False
      } else Some False)"

text \<open>The sixteen unrolled comparisons; the flag tells that one of them failed.\<close>

primrec unrolled :: "mem \<Rightarrow> nat \<Rightarrow> nat \<Rightarrow> nat \<Rightarrow> nat \<Rightarrow> (nat \<times> bool) option" where
  "unrolled inp ref ip 0 len = Some (len, False)"
| "unrolled inp ref ip (Suc k) len = do {
     let len = len + 1;
     a \<leftarrow> mem_get (ref + len) inp;
     b \<leftarrow> mem_get (ip + len) inp;
     if a \<noteq> b then Some (len, True) else unrolled inp ref ip k len
   }"

function do_len :: "mem \<Rightarrow> nat \<Rightarrow> nat \<Rightarrow> nat \<Rightarrow> nat \<Rightarrow> nat option" where
  "do_len inp ref ip maxlen len =
     (if len + 1 < maxlen then do {
        a \<leftarrow> mem_get (ref + (len + 1)) inp;
        b \<leftarrow> mem_get (ip + (len + 1)) inp;
        if a = b then do_len inp ref ip maxlen (len + 1) else Some (len + 1)
      } else Some (len + 1))"
  by auto
termination by (relation "measure (\<lambda>(inp, ref, ip, maxlen, len). maxlen - len)") auto

declare do_len.simps [simp del]

definition match_len :: "mem \<Rightarrow> nat \<Rightarrow> nat \<Rightarrow> nat option" where
  "match_len inp ref ip =
     (let len = 2;
          maxlen = length inp - ip - len;
          maxlen = (if maxlen > MAX_REF then MAX_REF else maxlen) in
      if maxlen > 16 then do {
        (len, stop) \<leftarrow> unrolled inp ref ip 16 len;
        if stop then Some len else do_len inp ref ip maxlen len
      } else do_len inp ref ip maxlen len)"

text \<open>\<open>Inl\<close> is \<open>return 0\<close>: the output does not fit.\<close>

definition lz_match :: "mem \<Rightarrow> nat \<Rightarrow> lzc \<Rightarrow> (lzc + lzc) option" where
  "lz_match inp ref s =
     (let ip = c_ip s; op = c_op s; lit = c_lit s; out = c_out s; off = ip - ref - 1;
          nolit = (if lit = 0 then 1 else 0) in
      if op + 3 + 1 \<ge> length out \<and> op - nolit + 3 + 1 \<ge> length out then Some (Inl s)
      else do {
        out \<leftarrow> put_back op (lit + 1) (word_of_int (int lit - 1)) out;
        let op = op - nolit;
        len \<leftarrow> match_len inp ref ip;
        let len = len - 2;
        let ip = ip + 1;
        (op, out) \<leftarrow> (if len < 7 then do {
            out \<leftarrow> mem_put op (of_nat (drop_bit 8 off + push_bit 5 len)) out;
            Some (op + 1, out)
          } else do {
            out \<leftarrow> mem_put op (of_nat (drop_bit 8 off + push_bit 5 7)) out;
            out \<leftarrow> mem_put (op + 1) (of_nat (len - 7)) out;
            Some (op + 2, out)
          });
        out \<leftarrow> mem_put op (of_nat off) out;
        let op = op + 1;
        let lit = 0;
        let op = op + 1;
        let ip = ip + (len + 1);
        Some (Inr (s\<lparr>c_ip := ip, c_op := op, c_lit := lit, c_out := out\<rparr>))
      })"

text \<open>After a match: the last two positions of it enter the table.\<close>

definition lz_rehash :: "mem \<Rightarrow> lzc \<Rightarrow> lzc option" where
  "lz_rehash inp s = do {
     let ip = c_ip s - 1;
     let ip = ip - 1;
     hval \<leftarrow> FRST inp ip;
     hval \<leftarrow> NEXT hval inp ip;
     let htab = (c_htab s)(IDX hval := of_nat ip);
     let ip = ip + 1;
     hval \<leftarrow> NEXT hval inp ip;
     let htab = htab(IDX hval := of_nat ip);
     let ip = ip + 1;
     Some (s\<lparr>c_ip := ip, c_hval := hval, c_htab := htab\<rparr>)
   }"

text \<open>Closing a full run of literals.\<close>

definition end_run :: "lzc \<Rightarrow> lzc option" where
  "end_run s =
     (if c_lit s = MAX_LIT then do {
        out \<leftarrow> put_back (c_op s) (c_lit s + 1) (word_of_int (int (c_lit s) - 1)) (c_out s);
        Some (s\<lparr>c_lit := 0, c_op := c_op s + 1, c_out := out\<rparr>)
      } else Some s)"

definition lz_copy_literal :: "mem \<Rightarrow> lzc \<Rightarrow> lzc option" where
  "lz_copy_literal inp s = do {
     b \<leftarrow> mem_get (c_ip s) inp;
     out \<leftarrow> mem_put (c_op s) b (c_out s);
     end_run (s\<lparr>c_lit := c_lit s + 1, c_op := c_op s + 1, c_ip := c_ip s + 1, c_out := out\<rparr>)
   }"

definition lz_literal :: "mem \<Rightarrow> lzc \<Rightarrow> (lzc + lzc) option" where
  "lz_literal inp s =
     (if c_op s \<ge> length (c_out s) then Some (Inl s)
      else do { s \<leftarrow> lz_copy_literal inp s; Some (Inr s) })"

partial_function (option) lzfc_loop :: "mem \<Rightarrow> lzc \<Rightarrow> (lzc + lzc) option" where
  "lzfc_loop inp s =
     (if c_ip s + 2 < length inp then do {
        hval \<leftarrow> NEXT (c_hval s) inp (c_ip s);
        let ref = unat (c_htab s (IDX hval));
        let s = s\<lparr>c_hval := hval, c_htab := (c_htab s)(IDX hval := of_nat (c_ip s))\<rparr>;
        found \<leftarrow> lz_found inp ref (c_ip s);
        if found then do {
          r \<leftarrow> lz_match inp ref s;
          case r of
            Inl s \<Rightarrow> Some (Inl s)
          | Inr s \<Rightarrow>
              if c_ip s + 2 \<ge> length inp then Some (Inr s)
              else do { s \<leftarrow> lz_rehash inp s; lzfc_loop inp s }
        } else do {
          r \<leftarrow> lz_literal inp s;
          case r of Inl s \<Rightarrow> Some (Inl s) | Inr s \<Rightarrow> lzfc_loop inp s
        }
      } else Some (Inr s))"

partial_function (option) lzfc_tail :: "mem \<Rightarrow> lzc \<Rightarrow> lzc option" where
  "lzfc_tail inp s =
     (if c_ip s < length inp then do { s \<leftarrow> lz_copy_literal inp s; lzfc_tail inp s } else Some s)"

text \<open>The size of the compressed data (0 when it does not fit) and the output buffer.\<close>

definition lzf_compress :: "(32 word \<Rightarrow> 32 word) \<Rightarrow> mem \<Rightarrow> mem \<Rightarrow> (nat \<times> mem) option" where
  "lzf_compress htab inp out =
     (if length inp = 0 \<or> length out = 0 then Some (0, out)
      else do {
        hval \<leftarrow> FRST inp 0;
        r \<leftarrow> lzfc_loop inp \<lparr>c_ip = 0, c_op = 1, c_lit = 0, c_hval = hval, c_htab = htab, c_out = out\<rparr>;
        case r of
          Inl s \<Rightarrow> Some (0, c_out s)
        | Inr s \<Rightarrow>
            if c_op s + 3 > length (c_out s) then Some (0, c_out s)
            else do {
              s \<leftarrow> lzfc_tail inp s;
              out \<leftarrow> put_back (c_op s) (c_lit s + 1) (word_of_int (int (c_lit s) - 1)) (c_out s);
              Some (c_op s - (if c_lit s = 0 then 1 else 0), out)
            }
      })"

section \<open>The format\<close>

text \<open>A run of literals, or \<open>len\<close> octets from \<open>off + 1\<close> octets back.\<close>

datatype lz_tok = Lit mem | Ref nat nat

primrec enc_tok :: "lz_tok \<Rightarrow> mem" where
  "enc_tok (Lit bs) = of_nat (length bs - 1) # bs"
| "enc_tok (Ref off len) =
     (if len - 2 < 7 then [of_nat (off div 256 + (len - 2) * 32), of_nat off]
      else [of_nat (off div 256 + 7 * 32), of_nat (len - 2 - 7), of_nat off])"

primrec ref_ext :: "nat \<Rightarrow> nat \<Rightarrow> mem \<Rightarrow> mem" where
  "ref_ext off 0 acc = acc"
| "ref_ext off (Suc n) acc = ref_ext off n (acc @ [acc ! (length acc - off - 1)])"

primrec exec_tok :: "mem \<Rightarrow> lz_tok \<Rightarrow> mem" where
  "exec_tok acc (Lit bs) = acc @ bs"
| "exec_tok acc (Ref off len) = ref_ext off len acc"

primrec tok_ok :: "mem \<Rightarrow> lz_tok \<Rightarrow> bool" where
  "tok_ok acc (Lit bs) \<longleftrightarrow> 1 \<le> length bs \<and> length bs \<le> 32"
| "tok_ok acc (Ref off len) \<longleftrightarrow> off < 2 ^ 13 \<and> 3 \<le> len \<and> len \<le> 264 \<and> off < length acc"

fun exec_toks :: "mem \<Rightarrow> lz_tok list \<Rightarrow> mem" where
  "exec_toks acc [] = acc"
| "exec_toks acc (t # ts) = exec_toks (exec_tok acc t) ts"

fun toks_ok :: "mem \<Rightarrow> lz_tok list \<Rightarrow> bool" where
  "toks_ok acc [] = True"
| "toks_ok acc (t # ts) \<longleftrightarrow> tok_ok acc t \<and> toks_ok (exec_tok acc t) ts"

definition enc_toks :: "lz_tok list \<Rightarrow> mem" where
  "enc_toks ts = concat (map enc_tok ts)"

section \<open>The decompressor is safe\<close>

lemma copy_loop_Some:
  "ref < op \<Longrightarrow> op + n \<le> length out \<Longrightarrow> \<exists>out'. copy_loop n ref op out = Some out' \<and> length out' = length out"
proof (induction n arbitrary: ref op out)
  case (Suc n)
  then show ?case using Suc.IH [of "ref + 1" "op + 1" "out[op := out ! ref]"] by (simp add: mem_simps)
qed simp

lemma ref_copy_Some:
  "ref < op \<Longrightarrow> op + len + 2 \<le> length out \<Longrightarrow> \<exists>out'. ref_copy len ref op out = Some out' \<and> length out' = length out"
  using copy_loop_Some [of ref op "len + 2" out] by (auto simp: ref_copy_def Let_def mem_simps)

definition lzfd_progress :: "mem \<Rightarrow> nat \<Rightarrow> mem \<Rightarrow> lzf_errno + nat \<times> nat \<times> mem \<Rightarrow> bool" where
  "lzfd_progress inp ip out r = (case r of
     Inl _ \<Rightarrow> True
   | Inr (ip', op', out') \<Rightarrow> ip < ip' \<and> ip' \<le> length inp \<and> op' \<le> length out \<and> length out' = length out)"

lemma lzfd_literal_Some: "\<exists>r. lzfd_literal inp ctrl ip op out = Some r \<and> lzfd_progress inp ip out r"
  by (auto simp: lzfd_literal_def Let_def lzfd_progress_def mem_simps)

lemma lzfd_ref_Some:
  assumes "ip < length inp" "ref < int op"
  shows "\<exists>r. lzfd_ref inp len ref ip op out = Some r \<and> lzfd_progress inp ip out r"
proof -
  let ?ref = "ref - int (unat (inp ! ip))"
  consider "op + len + 2 > length out" | "op + len + 2 \<le> length out" "?ref < 0"
    | "op + len + 2 \<le> length out" "?ref \<ge> 0" by linarith
  then show ?thesis
  proof cases
    case 3
    then have "nat ?ref < op" using assms(2) by linarith
    from ref_copy_Some [OF this, of len out] 3 assms(1) show ?thesis
      by (auto simp: lzfd_ref_def mem_simps Let_def lzfd_progress_def)
  qed (use assms(1) in \<open>auto simp: lzfd_ref_def mem_simps Let_def lzfd_progress_def\<close>)
qed

lemma lzfd_progress_mono: "lzfd_progress inp (Suc ip) out r \<Longrightarrow> lzfd_progress inp ip out r"
  by (auto simp: lzfd_progress_def split: sum.splits)

lemma lzfd_backref_Some: "\<exists>r. lzfd_backref inp ctrl ip op out = Some r \<and> lzfd_progress inp ip out r"
proof -
  let ?ref = "int op - int (push_bit 8 (ctrl AND 0x1f)) - 1"
  have l: "?ref < int op" by linarith
  consider "length inp \<le> ip" | "ip < length inp" "drop_bit 5 ctrl \<noteq> 7" | "ip < length inp" "drop_bit 5 ctrl = 7" "length inp \<le> ip + 1"
    | "drop_bit 5 ctrl = 7" "ip + 1 < length inp" by linarith
  then show ?thesis
  proof cases
    case 2
    from lzfd_ref_Some [OF 2(1) l, of "drop_bit 5 ctrl" out] 2 show ?thesis
      by (auto simp: lzfd_backref_def Let_def simp del: push_bit_and)
  next
    case 4
    from lzfd_ref_Some [OF 4(2) l, of "7 + unat (inp ! ip)" out] 4 show ?thesis
      by (auto simp: lzfd_backref_def Let_def mem_simps intro: lzfd_progress_mono simp del: push_bit_and)
  qed (auto simp: lzfd_backref_def Let_def mem_simps lzfd_progress_def)
qed

lemma lzfd_step_Some:
  "ip < length inp \<Longrightarrow> \<exists>r. lzfd_step inp ip op out = Some r \<and> lzfd_progress inp ip out r"
  using lzfd_literal_Some [of inp "unat (inp ! ip)" "ip + 1" op out] lzfd_backref_Some [of inp "unat (inp ! ip)" "ip + 1" op out]
  by (auto simp: lzfd_step_def mem_simps Let_def intro: lzfd_progress_mono)

definition lzfd_done :: "mem \<Rightarrow> lzf_errno + nat \<times> mem \<Rightarrow> bool" where
  "lzfd_done out r = (case r of Inl _ \<Rightarrow> True | Inr (n, out') \<Rightarrow> n \<le> length out \<and> length out' = length out)"

lemma lzfd_loop_Some:
  "op \<le> length out \<Longrightarrow> \<exists>r. lzfd_loop inp ip op out = Some r \<and> lzfd_done out r"
proof (induction "length inp - ip" arbitrary: ip op out rule: less_induct)
  case less
  show ?case
  proof (cases "ip < length inp")
    case False
    then show ?thesis using less.prems by (subst lzfd_loop.simps) (simp add: lzfd_done_def)
  next
    case True
    obtain r where r: "lzfd_step inp ip op out = Some r" "lzfd_progress inp ip out r" using lzfd_step_Some [OF True] by blast
    show ?thesis
    proof (cases r)
      case (Inl e)
      then show ?thesis using r True by (subst lzfd_loop.simps) (simp add: lzfd_done_def)
    next
      case (Inr t)
      obtain ip' op' out' where t: "t = (ip', op', out')" by (cases t) auto
      have p: "ip < ip'" "ip' \<le> length inp" "op' \<le> length out'" "length out' = length out"
        using r(2) by (auto simp: Inr t lzfd_progress_def)
      obtain r' where "lzfd_loop inp ip' op' out' = Some r'" "lzfd_done out' r'"
        using less.hyps [of ip' op' out'] p True by (meson diff_less_mono2)
      moreover from this(2) have "lzfd_done out r'" by (simp only: lzfd_done_def p(4))
      ultimately show ?thesis using True r(1) by (subst lzfd_loop.simps) (simp add: Inr t)
    qed
  qed
qed

section \<open>Decompressing a sequence of tokens\<close>

lemma mem_get_append: "mem_get (length xs + k) (xs @ ys) = mem_get k ys" "mem_get (length xs) (xs @ y # ys) = Some y"
  by (simp_all add: mem_get_def nth_append)

lemma copy_loop_ext:
  "off < length acc \<Longrightarrow> n \<le> length rest \<Longrightarrow>
     copy_loop n (length acc - off - 1) (length acc) (acc @ rest) = Some (ref_ext off n acc @ drop n rest)"
proof (induction n arbitrary: acc rest)
  case (Suc n)
  then obtain r rest' where rest: "rest = r # rest'" by (cases rest) auto
  let ?x = "acc ! (length acc - off - 1)"
  have g: "mem_get (length acc - off - 1) (acc @ rest) = Some ?x"
    using Suc.prems by (auto simp: mem_get_def nth_append)
  have "mem_put (length acc) ?x (acc @ rest) = Some ((acc @ [?x]) @ rest')" by (simp add: mem_put_def rest)
  moreover have "length acc - off - 1 + 1 = length (acc @ [?x]) - off - 1" using Suc.prems by simp
  ultimately show ?case using Suc.IH [of "acc @ [?x]" rest'] Suc.prems g by (simp add: rest)
qed simp

lemma length_ref_ext [simp]: "length (ref_ext off n acc) = length acc + n"
  by (induction n arbitrary: acc) simp_all

lemma ref_ext_disjoint:
  "off < length acc \<Longrightarrow> n \<le> off + 1 \<Longrightarrow> ref_ext off n acc = acc @ take n (drop (length acc - off - 1) acc)"
proof (induction n arbitrary: acc)
  case (Suc n)
  let ?k = "length acc - off - 1"
  have k: "?k < length acc" "length (acc @ [acc ! ?k]) - off - 1 = Suc ?k" using Suc.prems by simp_all
  have "take n (drop (Suc ?k) (acc @ [acc ! ?k])) = take n (drop (Suc ?k) acc)" using Suc.prems by simp
  moreover have "take (Suc n) (drop ?k acc) = acc ! ?k # take n (drop (Suc ?k) acc)"
    using Cons_nth_drop_Suc [OF k(1)] by (metis take_Suc_Cons)
  ultimately show ?case using Suc.IH [of "acc @ [acc ! ?k]"] Suc.prems k(2) by simp
qed simp

lemma ref_copy_ext:
  assumes "off < length acc" "len + 2 \<le> length rest"
  shows "ref_copy len (length acc - off - 1) (length acc) (acc @ rest) = Some (ref_ext off (len + 2) acc @ drop (len + 2) rest)"
proof (cases "len \<le> 9 \<or> length acc < length acc - off - 1 + (len + 2)")
  case True
  then show ?thesis using copy_loop_ext [OF assms] by (auto simp: ref_copy_def Let_def)
next
  case False
  then have n: "len + 2 \<le> off + 1" using assms(1) by linarith
  have "mem_move (length acc) (length acc - off - 1) (len + 2) (acc @ rest) =
      Some (acc @ take (len + 2) (drop (length acc - off - 1) acc) @ drop (len + 2) rest)"
    using assms False by (subst mem_move_Some) (auto simp: drop_append)
  then show ?thesis using False ref_ext_disjoint [OF assms(1) n] by (auto simp: ref_copy_def Let_def)
qed

lemma nat_and_31: "(n :: nat) AND 31 = n mod 32"
  using nat_and_mask [of n 5] by simp

lemma lzfd_step_literal:
  assumes "unat c = n" "n < 32" "length bs = n + 1" "length bs \<le> length rest"
  shows "lzfd_step (pre @ c # bs @ post) (length pre) (length acc) (acc @ rest)
    = Some (Inr (length pre + 1 + length bs, length acc + length bs, acc @ bs @ drop (length bs) rest))"
proof -
  have r: "mem_read (length pre + 1) (n + 1) (pre @ c # bs @ post) = Some bs" using assms(3) by (simp add: mem_read_def)
  have w: "mem_write (length acc) bs (acc @ rest) = Some (acc @ bs @ drop (length bs) rest)"
    using assms(4) by (simp add: mem_write_def)
  show ?thesis unfolding lzfd_step_def mem_get_append Option.bind.bind_lunit Let_def assms(1) lzfd_literal_def r w
    using assms(2,3,4) by simp
qed

lemma lzfd_step_Lit:
  assumes "tok_ok acc (Lit bs)" "length bs \<le> length rest"
  shows "lzfd_step (pre @ enc_tok (Lit bs) @ post) (length pre) (length acc) (acc @ rest)
    = Some (Inr (length (pre @ enc_tok (Lit bs)), length (acc @ bs), (acc @ bs) @ drop (length bs) rest))"
proof -
  have "unat (of_nat (length bs - 1) :: byte) = length bs - 1" using assms by (intro unat_of_nat_byte) auto
  moreover have "length bs - 1 < 32" "length bs = length bs - 1 + 1" using assms(1) by auto
  ultimately show ?thesis using lzfd_step_literal [OF _ _ _ assms(2), of _ "length bs - 1" pre post acc]
    by (simp del: of_nat_diff)
qed

lemma lzfd_ref_tok:
  assumes "off < length acc" "len + 2 \<le> length rest"
  shows "lzfd_ref (pre @ of_nat off # post) len (int (length acc) - int (off div 256 * 256) - 1) (length pre) (length acc) (acc @ rest)
    = Some (Inr (length pre + 1, length acc + len + 2, ref_ext off (len + 2) acc @ drop (len + 2) rest))"
proof -
  have o: "off div 256 * 256 + off mod 256 = off" by simp
  have r: "int (length acc) - int (off div 256 * 256) - 1 - int (unat (of_nat off :: byte)) = int (length acc - off - 1)"
    using assms(1) o unat_of_nat_mod [of off] by linarith
  show ?thesis using assms(2) ref_copy_ext [OF assms]
    unfolding lzfd_ref_def mem_get_append Option.bind.bind_lunit Let_def r by simp
qed

lemma ctrl_bits:
  fixes off k :: nat
  assumes "off < 2 ^ 13"
  shows "drop_bit 5 (off div 256 + k * 32) = k" "push_bit 8 ((off div 256 + k * 32) AND 31) = off div 256 * 256"
  using assms by (simp_all add: drop_bit_eq_div nat_and_31 push_bit_eq_mult)

lemma lzfd_step_short:
  assumes "unat c = off div 256 + k * 32" "1 \<le> k" "k < 7" "off < 2 ^ 13" "off < length acc" "k + 2 \<le> length rest"
  shows "lzfd_step (pre @ c # of_nat off # post) (length pre) (length acc) (acc @ rest)
    = Some (Inr (length pre + 2, length acc + k + 2, ref_ext off (k + 2) acc @ drop (k + 2) rest))"
proof -
  note r = lzfd_ref_tok [OF assms(5,6), of "pre @ [c]" post]
  have b: "lzfd_backref (pre @ c # of_nat off # post) (off div 256 + k * 32) (length pre + 1) (length acc) (acc @ rest)
    = lzfd_ref ((pre @ [c]) @ of_nat off # post) k (int (length acc) - int (off div 256 * 256) - 1) (length (pre @ [c])) (length acc) (acc @ rest)"
    unfolding lzfd_backref_def Let_def ctrl_bits [OF assms(4)] using assms(3) by simp
  have "\<not> off div 256 + k * 32 < 32" using assms(2) by simp
  then show ?thesis unfolding lzfd_step_def mem_get_append Option.bind.bind_lunit Let_def assms(1) b r by simp
qed

lemma lzfd_step_long:
  assumes "unat c = off div 256 + 7 * 32" "unat d = k - 7" "7 \<le> k" "off < 2 ^ 13" "off < length acc" "k + 2 \<le> length rest"
  shows "lzfd_step (pre @ c # d # of_nat off # post) (length pre) (length acc) (acc @ rest)
    = Some (Inr (length pre + 3, length acc + k + 2, ref_ext off (k + 2) acc @ drop (k + 2) rest))"
proof -
  note r = lzfd_ref_tok [OF assms(5,6), of "pre @ [c, d]" post]
  have g: "mem_get (length pre + 1) (pre @ c # d # of_nat off # post) = Some d"
    using mem_get_append(2) [of "pre @ [c]" d "of_nat off # post"] by simp
  have b: "lzfd_backref (pre @ c # d # of_nat off # post) (off div 256 + 7 * 32) (length pre + 1) (length acc) (acc @ rest)
    = lzfd_ref ((pre @ [c, d]) @ of_nat off # post) k (int (length acc) - int (off div 256 * 256) - 1) (length (pre @ [c, d])) (length acc) (acc @ rest)"
    unfolding lzfd_backref_def Let_def ctrl_bits [OF assms(4)] g Option.bind.bind_lunit using assms(2,3) by simp
  have "\<not> off div 256 + 7 * 32 < 32" by simp
  then show ?thesis unfolding lzfd_step_def mem_get_append Option.bind.bind_lunit Let_def assms(1) b r by simp
qed

lemma lzfd_step_Ref:
  assumes ok: "tok_ok acc (Ref off len)" "len \<le> length rest"
  shows "lzfd_step (pre @ enc_tok (Ref off len) @ post) (length pre) (length acc) (acc @ rest)
    = Some (Inr (length (pre @ enc_tok (Ref off len)), length acc + len, ref_ext off len acc @ drop len rest))"
proof -
  define k where "k = len - 2"
  have len: "len = k + 2" and k: "1 \<le> k" "k \<le> 262" using ok by (auto simp: k_def)
  have off: "off div 256 < 32" "off < 2 ^ 13" "off < length acc" "k + 2 \<le> length rest" using ok by (auto simp: len)
  show ?thesis
  proof (cases "k < 7")
    case True
    have "unat (of_nat (off div 256 + k * 32) :: byte) = off div 256 + k * 32"
      using off(1) True by (intro unat_of_nat_byte) linarith
    from lzfd_step_short [OF this k(1) True off(2,3,4), of pre post] show ?thesis
      using True by (simp only: enc_tok.simps len append_Cons append_Nil add_diff_cancel_right' if_True length_append list.size add_2_eq_Suc') simp
  next
    case False
    have "unat (of_nat (off div 256 + 7 * 32) :: byte) = off div 256 + 7 * 32"
      using off(1) by (intro unat_of_nat_byte) linarith
    moreover have "unat (of_nat (k - 7) :: byte) = k - 7"
      using k by (intro unat_of_nat_byte) linarith
    ultimately have "lzfd_step (pre @ of_nat (off div 256 + 7 * 32) # of_nat (k - 7) # of_nat off # post) (length pre) (length acc) (acc @ rest)
      = Some (Inr (length pre + 3, length acc + k + 2, ref_ext off (k + 2) acc @ drop (k + 2) rest))"
      using False by (intro lzfd_step_long off) simp_all
    with False show ?thesis
      by (simp only: enc_tok.simps len append_Cons append_Nil add_diff_cancel_right' if_False length_append list.size not_less) simp
  qed
qed

lemma exec_tok_length: "tok_ok acc t \<Longrightarrow> length acc < length (exec_tok acc t)"
  by (cases t) auto

lemma lzfd_step_tok:
  assumes "tok_ok acc t" "length (exec_tok acc t) \<le> length (acc @ rest)"
  shows "\<exists>rest'. lzfd_step (pre @ enc_tok t @ post) (length pre) (length acc) (acc @ rest)
    = Some (Inr (length (pre @ enc_tok t), length (exec_tok acc t), exec_tok acc t @ rest')) \<and>
    length (exec_tok acc t @ rest') = length (acc @ rest)"
proof (cases t)
  case (Lit bs)
  then show ?thesis using assms lzfd_step_Lit [of acc bs rest pre post]
    by (intro exI [of _ "drop (length bs) rest"]) auto
next
  case (Ref off len)
  then show ?thesis using assms lzfd_step_Ref [of acc off len rest pre post]
    by (intro exI [of _ "drop len rest"]) auto
qed

lemma enc_tok_not_Nil [simp]: "enc_tok t \<noteq> []"
  by (cases t) simp_all

lemma exec_toks_length: "toks_ok acc ts \<Longrightarrow> length acc \<le> length (exec_toks acc ts)"
proof (induction ts arbitrary: acc)
  case (Cons t ts)
  then have "length acc < length (exec_tok acc t)" "length (exec_tok acc t) \<le> length (exec_toks (exec_tok acc t) ts)"
    using exec_tok_length [of acc t] by simp_all
  then show ?case by simp
qed simp

lemma lzfd_loop_toks:
  assumes "toks_ok acc ts" "length (exec_toks acc ts) \<le> length (acc @ rest)"
  shows "\<exists>rest'. lzfd_loop (pre @ enc_toks ts) (length pre) (length acc) (acc @ rest)
    = Some (Inr (length (exec_toks acc ts), exec_toks acc ts @ rest'))"
  using assms
proof (induction ts arbitrary: acc rest pre)
  case Nil
  then show ?case by (subst lzfd_loop.simps) (simp add: enc_toks_def)
next
  case (Cons t ts)
  have ok: "tok_ok acc t" "toks_ok (exec_tok acc t) ts" using Cons.prems by simp_all
  have l: "length (exec_tok acc t) \<le> length (acc @ rest)" using exec_toks_length [OF ok(2)] Cons.prems(2) by simp
  obtain rest1 where s: "lzfd_step (pre @ enc_tok t @ enc_toks ts) (length pre) (length acc) (acc @ rest)
      = Some (Inr (length (pre @ enc_tok t), length (exec_tok acc t), exec_tok acc t @ rest1))"
    "length (exec_tok acc t @ rest1) = length (acc @ rest)"
    using lzfd_step_tok [OF ok(1) l] by blast
  have "length (exec_toks (exec_tok acc t) ts) \<le> length (exec_tok acc t @ rest1)" using Cons.prems(2) s(2) by simp
  from Cons.IH [OF ok(2) this, of "pre @ enc_tok t"] obtain rest' where
    "lzfd_loop (pre @ enc_tok t @ enc_toks ts) (length (pre @ enc_tok t)) (length (exec_tok acc t)) (exec_tok acc t @ rest1)
      = Some (Inr (length (exec_toks (exec_tok acc t) ts), exec_toks (exec_tok acc t) ts @ rest'))" by auto
  with s(1) show ?case by (subst lzfd_loop.simps) (simp add: enc_toks_def)
qed

section \<open>The compressor\<close>

definition agree :: "mem \<Rightarrow> nat \<Rightarrow> nat \<Rightarrow> nat \<Rightarrow> bool" where
  "agree inp ref ip n \<longleftrightarrow> (\<forall>j < n. inp ! (ref + j) = inp ! (ip + j))"

lemma agree_Suc: "agree inp ref ip (Suc n) \<longleftrightarrow> agree inp ref ip n \<and> inp ! (ref + n) = inp ! (ip + n)"
  by (auto simp: agree_def less_Suc_eq)

lemma unrolled_agree:
  "ref < ip \<Longrightarrow> ip + len + k < length inp \<Longrightarrow> agree inp ref ip (Suc len) \<Longrightarrow>
     \<exists>len' stop. unrolled inp ref ip k len = Some (len', stop) \<and> len \<le> len' \<and> len' \<le> len + k \<and>
       (if stop then len < len' \<and> agree inp ref ip len' else len' = len + k \<and> agree inp ref ip (Suc len'))"
proof (induction k arbitrary: len)
  case (Suc k)
  have g: "mem_get (ref + (len + 1)) inp = Some (inp ! (ref + Suc len))" "mem_get (ip + (len + 1)) inp = Some (inp ! (ip + Suc len))"
    using Suc.prems by (simp_all add: mem_simps)
  show ?case
  proof (cases "inp ! (ref + Suc len) = inp ! (ip + Suc len)")
    case True
    then have "agree inp ref ip (Suc (Suc len))" using Suc.prems(3) agree_Suc by simp
    from Suc.IH [OF Suc.prems(1) _ this] Suc.prems(2) have "\<exists>len' stop. unrolled inp ref ip k (Suc len) = Some (len', stop) \<and>
        Suc len \<le> len' \<and> len' \<le> Suc len + k \<and>
        (if stop then Suc len < len' \<and> agree inp ref ip len' else len' = Suc len + k \<and> agree inp ref ip (Suc len'))" by simp
    moreover have "unrolled inp ref ip (Suc k) len = unrolled inp ref ip k (Suc len)" using g True by (simp add: Let_def)
    ultimately obtain len' stop where "unrolled inp ref ip (Suc k) len = Some (len', stop)" "len \<le> len'" "len' \<le> len + Suc k"
        "if stop then Suc len < len' \<and> agree inp ref ip len' else len' = Suc len + k \<and> agree inp ref ip (Suc len')"
      by (metis Suc_leD add_Suc_shift)
    then show ?thesis by (intro exI [of _ len'] exI [of _ stop]) (cases stop; auto simp del: unrolled.simps)
  next
    case False
    then show ?thesis using Suc.prems g by (auto simp: Let_def)
  qed
qed auto

lemma do_len_agree:
  "ref < ip \<Longrightarrow> ip + maxlen \<le> length inp \<Longrightarrow> agree inp ref ip (Suc len) \<Longrightarrow>
     \<exists>l. do_len inp ref ip maxlen len = Some l \<and> len < l \<and> (l \<le> maxlen \<or> l = Suc len) \<and> agree inp ref ip l"
proof (induction inp ref ip maxlen len rule: do_len.induct)
  case (1 inp ref ip maxlen len)
  show ?case
  proof (cases "len + 1 < maxlen")
    case False
    then show ?thesis using 1(4) by (subst do_len.simps) simp
  next
    case True
    have g: "mem_get (ref + (len + 1)) inp = Some (inp ! (ref + Suc len))" "mem_get (ip + (len + 1)) inp = Some (inp ! (ip + Suc len))"
      using 1(2,3) True by (simp_all add: mem_simps)
    show ?thesis
    proof (cases "inp ! (ref + Suc len) = inp ! (ip + Suc len)")
      case eq: True
      then have "agree inp ref ip (Suc (len + 1))" using 1(4) agree_Suc by simp
      from 1(1) [OF True g eq 1(2,3) this] True obtain l where
        "do_len inp ref ip maxlen (len + 1) = Some l" "len < l" "l \<le> maxlen" "agree inp ref ip l" by auto
      then show ?thesis using True g eq by (subst do_len.simps) simp
    next
      case False
      then show ?thesis using True g 1(4) by (subst do_len.simps) simp
    qed
  qed
qed

lemma match_len_agree:
  assumes "ref < ip" "ip + 2 < length inp" "agree inp ref ip 3"
  shows "\<exists>l. match_len inp ref ip = Some l \<and> 3 \<le> l \<and> l \<le> 264 \<and> ip + l \<le> length inp \<and> agree inp ref ip l"
proof -
  define maxlen where "maxlen = (if length inp - ip - 2 > MAX_REF then MAX_REF else length inp - ip - 2)"
  have m: "maxlen \<le> 264" "ip + maxlen \<le> length inp" "ip + maxlen + 2 \<le> length inp"
    using assms(2) by (auto simp: maxlen_def MAX_REF_def)
  have e: "match_len inp ref ip = (if maxlen > 16 then do {
        (len, stop) \<leftarrow> unrolled inp ref ip 16 2;
        if stop then Some len else do_len inp ref ip maxlen len
      } else do_len inp ref ip maxlen 2)"
    by (simp only: match_len_def Let_def maxlen_def)
  have a: "agree inp ref ip (Suc 2)" using assms(3) by (simp add: numeral_3_eq_3 numeral_2_eq_2)
  show ?thesis
  proof (cases "maxlen > 16")
    case False
    obtain l where "do_len inp ref ip maxlen 2 = Some l" "2 < l" "l \<le> maxlen \<or> l = Suc 2" "agree inp ref ip l"
      using do_len_agree [OF assms(1) m(2) a] by blast
    then show ?thesis using False m assms(2) by (intro exI [of _ l]) (simp add: e, linarith)
  next
    case True
    obtain len stop where u: "unrolled inp ref ip 16 2 = Some (len, stop)" "len \<le> 18"
      "if stop then 2 < len \<and> agree inp ref ip len else len = 2 + 16 \<and> agree inp ref ip (Suc len)"
      using unrolled_agree [OF assms(1) _ a, of 16] True m(3) by auto
    show ?thesis
    proof (cases stop)
      case stop: True
      then show ?thesis using u True m by (intro exI [of _ len]) (simp add: e)
    next
      case False
      then obtain l where "do_len inp ref ip maxlen len = Some l" "18 < l" "l \<le> maxlen \<or> l = 19" "agree inp ref ip l"
        using do_len_agree [OF assms(1) m(2), of len] u by auto
      then show ?thesis using u(1) False True m by (intro exI [of _ l]) (simp add: e, linarith)
    qed
  qed
qed

lemma lz_found_agree:
  assumes "ip + 2 < length inp" "length inp < 2 ^ 32" "ref < 2 ^ 32"
  shows "\<exists>f. lz_found inp ref ip = Some f \<and> (f \<longrightarrow> ref < ip \<and> ip - ref - 1 < 2 ^ 13 \<and> agree inp ref ip 3)"
proof (cases "ref < ip")
  case True
  have r: "mem_read ref 2 inp = Some [inp ! ref, inp ! (ref + 1)]" "mem_read ip 2 inp = Some [inp ! ip, inp ! (ip + 1)]"
    using True assms(1) by (auto simp: mem_read_def numeral_2_eq_2 Cons_nth_drop_Suc [symmetric])
  have g: "mem_get (ref + 2) inp = Some (inp ! (ref + 2))" "mem_get (ip + 2) inp = Some (inp ! (ip + 2))"
    using True assms(1) by (simp_all add: mem_simps)
  have "(int ip - int ref - 1) mod 2 ^ 64 = int (ip - ref - 1)"
    using True assms(1,2) by (subst mod_pos_pos_trivial) auto
  then show ?thesis using r g True
    by (auto simp: lz_found_def MAX_OFF_def agree_def numeral_3_eq_3 less_Suc_eq)
next
  case False
  have "(int ip - int ref - 1) mod 2 ^ 64 = (int ip - int ref - 1 + 2 ^ 64) mod 2 ^ 64" by (simp only: mod_add_self2)
  also have "\<dots> = int ip - int ref - 1 + 2 ^ 64"
    using False assms by (intro mod_pos_pos_trivial) auto
  finally show ?thesis using False assms(3) by (intro exI [of _ False]) (simp add: lz_found_def MAX_OFF_def)
qed

lemma ref_ext_match:
  "off < ip \<Longrightarrow> ip + n \<le> length inp \<Longrightarrow> agree inp (ip - off - 1) ip n \<Longrightarrow> ref_ext off n (take ip inp) = take (ip + n) inp"
proof (induction n arbitrary: ip)
  case (Suc n)
  note ag = Suc.prems(3) [unfolded agree_def, rule_format]
  have "inp ! (ip - off - 1) = inp ! ip" using ag [of 0] by simp
  then have "take ip inp @ [take ip inp ! (length (take ip inp) - off - 1)] = take (Suc ip) inp"
    using Suc.prems by (simp add: take_Suc_conv_app_nth)
  moreover have "agree inp (Suc ip - off - 1) (Suc ip) n"
    unfolding agree_def
  proof (intro allI impI)
    fix j assume "j < n"
    then have "inp ! (ip - off - 1 + Suc j) = inp ! (ip + Suc j)" by (intro ag) simp
    moreover have "ip - off - 1 + Suc j = Suc ip - off - 1 + j" using Suc.prems(1) by simp
    ultimately show "inp ! (Suc ip - off - 1 + j) = inp ! (Suc ip + j)" by (simp only: add_Suc_right add_Suc)
  qed
  ultimately show ?case using Suc.IH [of "Suc ip"] Suc.prems by simp
qed simp

text \<open>Between two steps of the compressor: the output starts with complete tokens for all of the input
but the current run of literals, which follows a place left for its control octet.\<close>

definition lzc_inv :: "mem \<Rightarrow> nat \<Rightarrow> lzc \<Rightarrow> bool" where
  "lzc_inv inp n s \<longleftrightarrow> (\<exists>ts run tl.
     toks_ok [] ts \<and> exec_toks [] ts @ run = take (c_ip s) inp \<and> c_ip s \<le> length inp \<and>
     c_out s = enc_toks ts @ tl \<and> length (c_out s) = n \<and>
     c_lit s = length run \<and> length run < 32 \<and> c_op s = length (enc_toks ts) + 1 + length run \<and>
     (tl = [] \<and> run = [] \<or> (\<exists>x post. tl = x # run @ post)))"

lemma enc_toks_snoc: "enc_toks (ts @ [t]) = enc_toks ts @ enc_tok t"
  by (simp add: enc_toks_def)

lemma exec_toks_snoc: "exec_toks acc (ts @ [t]) = exec_tok (exec_toks acc ts) t"
  by (induction ts arbitrary: acc) simp_all

lemma toks_ok_snoc: "toks_ok acc (ts @ [t]) \<longleftrightarrow> toks_ok acc ts \<and> tok_ok (exec_toks acc ts) t"
  by (induction ts arbitrary: acc) simp_all

lemmas toks_snoc = enc_toks_snoc exec_toks_snoc toks_ok_snoc

lemma mem_put_mid: "k = length p \<Longrightarrow> mem_put k b (p @ q # r) = Some (p @ b # r)"
  by (simp add: mem_put_def)

lemma lit_byte: "xs \<noteq> [] \<Longrightarrow> word_of_int (int (length xs) - 1) = (of_nat (length xs - 1) :: byte)"
  by (cases xs) simp_all

text \<open>Writing the control octet of the current run.\<close>

lemma flush_run:
  assumes inv: "lzc_inv inp n s" and op: "c_op s \<le> n"
  shows "\<exists>ts post. put_back (c_op s) (c_lit s + 1) (word_of_int (int (c_lit s) - 1)) (c_out s) = Some (enc_toks ts @ post) \<and>
    toks_ok [] ts \<and> exec_toks [] ts = take (c_ip s) inp \<and> length (enc_toks ts @ post) = n \<and>
    length (enc_toks ts) = c_op s - (if c_lit s = 0 then 1 else 0)"
proof -
  obtain ts run tl where i: "toks_ok [] ts" "exec_toks [] ts @ run = take (c_ip s) inp" "c_out s = enc_toks ts @ tl"
    "length (c_out s) = n" "c_lit s = length run" "length run < 32" "c_op s = length (enc_toks ts) + 1 + length run"
    "tl = [] \<and> run = [] \<or> (\<exists>x post. tl = x # run @ post)" using inv unfolding lzc_inv_def by blast
  have "tl \<noteq> []" using i op by auto
  then obtain x post where tl: "tl = x # run @ post" using i(8) by blast
  have w: "put_back (c_op s) (c_lit s + 1) b (c_out s) = Some (enc_toks ts @ b # run @ post)" for b
    using i by (simp add: put_back_def tl mem_put_mid)
  show ?thesis
  proof (cases "run = []")
    case True
    then show ?thesis using w i by (intro exI [of _ ts] exI [of _ "word_of_int (int (c_lit s) - 1) # run @ post"]) (simp add: tl)
  next
    case False
    then have "enc_toks (ts @ [Lit run]) = enc_toks ts @ word_of_int (int (c_lit s) - 1) # run"
      by (simp only: enc_toks_snoc enc_tok.simps i(5) lit_byte [OF False])
    then show ?thesis using w i False
      by (intro exI [of _ "ts @ [Lit run]"] exI [of _ post]) (simp add: tl toks_ok_snoc exec_toks_snoc Suc_le_eq)
  qed
qed

lemma copy_literal_inv:
  assumes inv: "lzc_inv inp n s" and op: "c_op s < n" and ip: "c_ip s < length inp"
  shows "\<exists>s'. lz_copy_literal inp s = Some s' \<and> lzc_inv inp n s' \<and> c_ip s' = c_ip s + 1 \<and>
    (if c_lit s + 1 = 32 then c_op s' = c_op s + 2 \<and> c_lit s' = 0 else c_op s' = c_op s + 1 \<and> c_lit s' = c_lit s + 1)"
proof -
  obtain ts run tl where i: "toks_ok [] ts" "exec_toks [] ts @ run = take (c_ip s) inp" "c_out s = enc_toks ts @ tl"
    "length (c_out s) = n" "c_lit s = length run" "length run < 32" "c_op s = length (enc_toks ts) + 1 + length run"
    "tl = [] \<and> run = [] \<or> (\<exists>x post. tl = x # run @ post)" using inv unfolding lzc_inv_def by blast
  then obtain x post' where tl': "tl = x # run @ post'" using op by auto
  then obtain y post where "post' = y # post" using op i by (cases post') auto
  with tl' have tl: "tl = x # run @ y # post" by simp
  let ?b = "inp ! c_ip s"
  let ?s = "s\<lparr>c_lit := c_lit s + 1, c_op := c_op s + 1, c_ip := c_ip s + 1, c_out := enc_toks ts @ x # (run @ [?b]) @ post\<rparr>"
  have "mem_put (c_op s) ?b (c_out s) = Some (enc_toks ts @ x # (run @ [?b]) @ post)"
    using mem_put_mid [of "c_op s" "enc_toks ts @ x # run" ?b y post] i by (simp add: tl)
  then have c: "lz_copy_literal inp s = end_run ?s" using ip by (simp add: lz_copy_literal_def mem_simps)
  have e: "exec_toks [] ts @ run @ [?b] = take (c_ip s + 1) inp" using i(2) ip by (simp add: take_Suc_conv_app_nth)
  show ?thesis
  proof (cases "length run + 1 = 32")
    case False
    then have "end_run ?s = Some ?s" by (simp add: end_run_def MAX_LIT_def i(5))
    moreover have "lzc_inv inp n ?s" unfolding lzc_inv_def
      by (rule exI [of _ ts], rule exI [of _ "run @ [?b]"], rule exI [of _ "x # (run @ [?b]) @ post"])
        (use i e False ip in \<open>simp add: tl\<close>)
    ultimately show ?thesis using c False by (simp add: i(5))
  next
    case True
    let ?t = "Lit (run @ [?b])"
    have t: "enc_toks (ts @ [?t]) = enc_toks ts @ 31 # run @ [?b]" using True by (simp add: enc_toks_snoc)
    let ?s' = "s\<lparr>c_lit := 0, c_op := c_op s + 2, c_ip := c_ip s + 1, c_out := enc_toks (ts @ [?t]) @ post\<rparr>"
    have "put_back (c_op s + 1) (c_lit s + 2) 31 (enc_toks ts @ x # (run @ [?b]) @ post) = Some (enc_toks (ts @ [?t]) @ post)"
      using i by (simp add: put_back_def mem_put_mid t)
    then have "end_run ?s = Some ?s'" using True by (simp add: end_run_def MAX_LIT_def i(5))
    moreover have "lzc_inv inp n ?s'" unfolding lzc_inv_def
      by (rule exI [of _ "ts @ [?t]"], rule exI [of _ "[]"], rule exI [of _ post])
        (use i e True ip in \<open>cases post; simp add: tl t exec_toks_snoc toks_ok_snoc\<close>)
    ultimately show ?thesis using c True by (simp add: i(5))
  qed
qed

text \<open>The octets that \<open>lz_match\<close> writes for a back reference.\<close>

lemma put_ref_tok:
  fixes P :: mem
  assumes "length P + 3 < length (P @ Q)" "2 \<le> len"
  shows "(if len - 2 < 7 then do {
            out \<leftarrow> mem_put (length P) (of_nat (drop_bit 8 off + push_bit 5 (len - 2))) (P @ Q);
            Some (length P + 1, out)
          } else do {
            out \<leftarrow> mem_put (length P) (of_nat (drop_bit 8 off + push_bit 5 7)) (P @ Q);
            out \<leftarrow> mem_put (length P + 1) (of_nat (len - 2 - 7)) out;
            Some (length P + 2, out)
          }) \<bind> (\<lambda>(op, out). mem_put op (of_nat off) out \<bind> (\<lambda>out. Some (op + 1, out)))
    = Some (length (P @ enc_tok (Ref off len)), P @ enc_tok (Ref off len) @ drop (length (enc_tok (Ref off len))) Q)"
proof -
  obtain a b c Q' where Q: "Q = a # b # c # Q'"
    using assms(1) by (cases Q; cases "tl Q"; cases "tl (tl Q)") auto
  have m: "mem_put (Suc (length P)) y (P @ x # q # r) = Some (P @ x # y # r)"
    "mem_put (Suc (Suc (length P))) z (P @ x # y # q # r) = Some (P @ x # y # z # r)" for x y z q r
    by (simp_all add: mem_put_def nth_append list_update_append)
  have e: "drop_bit 8 off + push_bit 5 k = off div 256 + k * 32" for k :: nat
    by (simp add: drop_bit_eq_div push_bit_eq_mult)
  show ?thesis unfolding e by (simp add: Q mem_put_mid m del: of_nat_add of_nat_diff of_nat_mult)
qed

lemma lz_match_inv:
  assumes inv: "lzc_inv inp n s" and ip: "c_ip s + 2 < length inp" and ref: "ref < c_ip s"
    and off: "c_ip s - ref - 1 < 2 ^ 13" and ag: "agree inp ref (c_ip s) 3"
  shows "\<exists>r. lz_match inp ref s = Some r \<and>
    (case r of Inl s' \<Rightarrow> length (c_out s') = n | Inr s' \<Rightarrow> lzc_inv inp n s' \<and> c_ip s + 3 \<le> c_ip s')"
proof (cases "c_op s - (if c_lit s = 0 then 1 else 0) + 3 + 1 \<ge> n")
  case True
  have "length (c_out s) = n" using inv unfolding lzc_inv_def by blast
  moreover have "c_op s + 3 + 1 \<ge> n" using True by auto
  ultimately have "lz_match inp ref s = Some (Inl s)" using True unfolding lz_match_def Let_def by simp
  then show ?thesis using \<open>length (c_out s) = n\<close> by simp
next
  case False
  have n: "length (c_out s) = n" using inv unfolding lzc_inv_def by blast
  have op: "c_op s \<le> n" using False by (simp split: if_splits)
  obtain ts post where f: "put_back (c_op s) (c_lit s + 1) (word_of_int (int (c_lit s) - 1)) (c_out s) = Some (enc_toks ts @ post)"
    "toks_ok [] ts" "exec_toks [] ts = take (c_ip s) inp" "length (enc_toks ts @ post) = n"
    "length (enc_toks ts) = c_op s - (if c_lit s = 0 then 1 else 0)"
    using flush_run [OF inv op] by blast
  obtain l where l: "match_len inp ref (c_ip s) = Some l" "3 \<le> l" "l \<le> 264" "c_ip s + l \<le> length inp" "agree inp ref (c_ip s) l"
    using match_len_agree [OF ref ip ag] by blast
  define o1 where "o1 = c_ip s - ref - 1"
  define t where "t = Ref o1 l"
  have t: "tok_ok (exec_toks [] ts) t" "exec_tok (exec_toks [] ts) t = take (c_ip s + l) inp"
    using off ref l ip f(3) ref_ext_match [of o1 "c_ip s" l inp] by (auto simp: t_def o1_def)
  define s' where "s' = s\<lparr>c_ip := c_ip s + l, c_op := length (enc_toks (ts @ [t])) + 1, c_lit := 0,
      c_out := enc_toks (ts @ [t]) @ drop (length (enc_tok t)) post\<rparr>"
  have lt: "length (enc_tok t) \<le> 3" by (simp add: t_def)
  have "drop (length (enc_tok t)) post \<noteq> []" using False f(4,5) lt by auto
  then obtain x q where ne: "drop (length (enc_tok t)) post = x # q" by (cases "drop (length (enc_tok t)) post") auto
  have "length post = length (enc_tok t) + length (drop (length (enc_tok t)) post)" using False f(4,5) lt by auto
  then have lp: "length post = Suc (length (enc_tok t) + length q)" by (simp add: ne)
  have "lz_match inp ref s = Some (Inr s')"
  proof -
    have p: "length (enc_toks ts) + 3 < length (enc_toks ts @ post)" "2 \<le> l" using False f(4,5) l(2) by auto
    have ll: "c_ip s + 1 + (l - 2 + 1) = c_ip s + l" using l(2) by simp
    have "(do {
        (op, out) \<leftarrow> (if l - 2 < 7 then do {
            out \<leftarrow> mem_put (length (enc_toks ts)) (of_nat (drop_bit 8 o1 + push_bit 5 (l - 2))) (enc_toks ts @ post);
            Some (length (enc_toks ts) + 1, out)
          } else do {
            out \<leftarrow> mem_put (length (enc_toks ts)) (of_nat (drop_bit 8 o1 + push_bit 5 7)) (enc_toks ts @ post);
            out \<leftarrow> mem_put (length (enc_toks ts) + 1) (of_nat (l - 2 - 7)) out;
            Some (length (enc_toks ts) + 2, out)
          });
        out \<leftarrow> mem_put op (of_nat o1) out;
        Some (op + 1, out)
      }) = Some (length (enc_toks ts @ enc_tok t), enc_toks ts @ enc_tok t @ drop (length (enc_tok t)) post)" (is "?W = _")
      unfolding t_def by (rule put_ref_tok [OF p])
    moreover have "lz_match inp ref s = ?W \<bind> (\<lambda>(op, out). Some (Inr (s\<lparr>c_ip := c_ip s + l, c_op := op + 1, c_lit := 0, c_out := out\<rparr>)))"
      using False f(1) l(1) unfolding lz_match_def Let_def o1_def [symmetric] f(5) [symmetric] f(1) l(1) Option.bind.bind_lunit ll
      by (simp add: n bind_assoc case_prod_unfold)
    ultimately show ?thesis by (simp add: s'_def enc_toks_snoc)
  qed
  moreover have "lzc_inv inp n s'" unfolding lzc_inv_def
    by (rule exI [of _ "ts @ [t]"], rule exI [of _ "[]"], rule exI [of _ "drop (length (enc_tok t)) post"])
      (use f t l ne lp in \<open>simp add: s'_def toks_snoc\<close>)
  moreover have "c_ip s + 3 \<le> c_ip s'" using l(2) by (simp add: s'_def)
  ultimately show ?thesis by simp
qed

lemma lzc_inv_hash [simp]: "lzc_inv inp n (s\<lparr>c_hval := v, c_htab := h\<rparr>) = lzc_inv inp n s"
  "lzc_inv inp n (s\<lparr>c_ip := c_ip s, c_hval := v, c_htab := h\<rparr>) = lzc_inv inp n s"
  by (simp_all add: lzc_inv_def)

lemma lz_ip_hash: "c_ip (s\<lparr>c_hval := v, c_htab := h\<rparr>) = c_ip s"
  by simp

lemma lz_literal_inv:
  assumes inv: "lzc_inv inp n s" and ip: "c_ip s < length inp"
  shows "\<exists>r. lz_literal inp s = Some r \<and>
    (case r of Inl s' \<Rightarrow> length (c_out s') = n | Inr s' \<Rightarrow> lzc_inv inp n s' \<and> c_ip s' = c_ip s + 1)"
proof (cases "c_op s < n")
  case True
  have n: "length (c_out s) = n" using inv unfolding lzc_inv_def by blast
  from copy_literal_inv [OF inv True ip] True show ?thesis by (auto simp: lz_literal_def n)
next
  case False
  have n: "length (c_out s) = n" using inv unfolding lzc_inv_def by blast
  then show ?thesis using False by (simp add: lz_literal_def)
qed

lemma lz_rehash_Some:
  assumes "2 \<le> c_ip s" "c_ip s + 2 < length inp"
  shows "\<exists>v h. lz_rehash inp s = Some (s\<lparr>c_ip := c_ip s, c_hval := v, c_htab := h\<rparr>)"
proof -
  have "Suc (Suc (c_ip s - Suc (Suc 0))) = c_ip s" using assms(1) by simp
  then show ?thesis using assms by (simp add: lz_rehash_def FRST_def NEXT_def mem_simps Let_def) blast
qed

lemma lzfc_loop_inv:
  assumes "lzc_inv inp n s" and len: "length inp < 2 ^ 32"
  shows "\<exists>r. lzfc_loop inp s = Some r \<and>
    (case r of Inl s' \<Rightarrow> length (c_out s') = n | Inr s' \<Rightarrow> lzc_inv inp n s' \<and> length inp \<le> c_ip s' + 2)"
  using assms(1)
proof (induction "length inp - c_ip s" arbitrary: s rule: less_induct)
  case less
  show ?case
  proof (cases "c_ip s + 2 < length inp")
    case False
    then show ?thesis using less.prems by (subst lzfc_loop.simps) simp
  next
    case True
    obtain hval where h: "NEXT (c_hval s) inp (c_ip s) = Some hval" using True by (simp add: NEXT_def mem_simps)
    let ?ref = "unat (c_htab s (IDX hval))"
    let ?s = "s\<lparr>c_hval := hval, c_htab := (c_htab s)(IDX hval := of_nat (c_ip s))\<rparr>"
    have ref: "?ref < 2 ^ 32" using unsigned_less [of "c_htab s (IDX hval)"] by simp
    obtain f where f: "lz_found inp ?ref (c_ip s) = Some f"
      "f \<longrightarrow> ?ref < c_ip s \<and> c_ip s - ?ref - 1 < 2 ^ 13 \<and> agree inp ?ref (c_ip s) 3"
      using lz_found_agree [OF True len ref] by blast
    have inv: "lzc_inv inp n ?s" and ip1: "c_ip ?s < length inp" and ip2: "c_ip ?s + 2 < length inp"
      using less.prems True by simp_all
    show ?thesis
    proof (cases f)
      case False
      obtain r where r: "lz_literal inp ?s = Some r" "case r of Inl s' \<Rightarrow> length (c_out s') = n | Inr s' \<Rightarrow> lzc_inv inp n s' \<and> c_ip s' = c_ip ?s + 1"
        using lz_literal_inv [OF inv ip1] by blast
      have u: "lzfc_loop inp s = (case r of Inl s \<Rightarrow> Some (Inl s) | Inr s \<Rightarrow> lzfc_loop inp s)"
        using True h f(1) False r(1) by (subst lzfc_loop.simps) (simp add: Let_def)
      show ?thesis
      proof (cases r)
        case (Inl s')
        then show ?thesis using u r(2) by simp
      next
        case (Inr s')
        then have s': "lzc_inv inp n s'" "c_ip s' = c_ip s + 1" using r(2) by simp_all
        then have "length inp - c_ip s' < length inp - c_ip s" using True by simp
        from less.hyps [OF this s'(1)] show ?thesis by (simp add: u Inr)
      qed
    next
      case f1: True
      then have f2: "?ref < c_ip ?s" "c_ip ?s - ?ref - 1 < 2 ^ 13" "agree inp ?ref (c_ip ?s) 3" using f(2) by simp_all
      obtain r where r: "lz_match inp ?ref ?s = Some r" "case r of Inl s' \<Rightarrow> length (c_out s') = n | Inr s' \<Rightarrow> lzc_inv inp n s' \<and> c_ip ?s + 3 \<le> c_ip s'"
        using lz_match_inv [OF inv ip2, of ?ref] f2 by blast
      have u: "lzfc_loop inp s = (case r of Inl s \<Rightarrow> Some (Inl s)
          | Inr s \<Rightarrow> if c_ip s + 2 \<ge> length inp then Some (Inr s) else do { s \<leftarrow> lz_rehash inp s; lzfc_loop inp s })"
        using True h f(1) f1 r(1) by (subst lzfc_loop.simps) (simp add: Let_def split: sum.split)
      show ?thesis
      proof (cases r)
        case (Inl s')
        then show ?thesis using u r(2) by simp
      next
        case (Inr s')
        then have s': "lzc_inv inp n s'" "c_ip s + 3 \<le> c_ip s'" using r(2) by simp_all
        show ?thesis
        proof (cases "c_ip s' + 2 \<ge> length inp")
          case True
          then show ?thesis using s' by (simp add: u Inr)
        next
          case False
          then obtain v hh where rh: "lz_rehash inp s' = Some (s'\<lparr>c_ip := c_ip s', c_hval := v, c_htab := hh\<rparr>)"
            using lz_rehash_Some [of s' inp] s'(2) by auto
          let ?t = "s'\<lparr>c_ip := c_ip s', c_hval := v, c_htab := hh\<rparr>"
          have "length inp - c_ip ?t < length inp - c_ip s" using False s'(2) by simp
          from less.hyps [OF this] s'(1) show ?thesis using False by (simp add: u Inr rh)
        qed
      qed
    qed
  qed
qed

lemma lzfc_tail_inv:
  assumes "lzc_inv inp n s" "length inp \<le> c_ip s + 2"
    and "c_op s + (length inp - c_ip s) + (if c_lit s + (length inp - c_ip s) \<ge> 32 then 1 else 0) \<le> n"
  shows "\<exists>s'. lzfc_tail inp s = Some s' \<and> lzc_inv inp n s' \<and> c_ip s' = length inp \<and> c_op s' \<le> n"
  using assms
proof (induction "length inp - c_ip s" arbitrary: s rule: less_induct)
  case less
  show ?case
  proof (cases "c_ip s < length inp")
    case False
    have "c_ip s \<le> length inp" using less.prems(1) unfolding lzc_inv_def by blast
    then show ?thesis using False less.prems by (subst lzfc_tail.simps) simp
  next
    case True
    have op: "c_op s < n" using True less.prems(3) by (simp split: if_splits)
    obtain s' where c: "lz_copy_literal inp s = Some s'" "lzc_inv inp n s'" "c_ip s' = c_ip s + 1"
      "if c_lit s + 1 = 32 then c_op s' = c_op s + 2 \<and> c_lit s' = 0 else c_op s' = c_op s + 1 \<and> c_lit s' = c_lit s + 1"
      using copy_literal_inv [OF less.prems(1) op True] by blast
    have "c_op s' + (length inp - c_ip s') + (if c_lit s' + (length inp - c_ip s') \<ge> 32 then 1 else 0) \<le> n"
      using less.prems(2,3) c(3,4) True by (simp split: if_splits)
    from less.hyps [OF _ c(2) _ this] c(1,3) less.prems(2) True show ?thesis
      by (subst lzfc_tail.simps) simp
  qed
qed

lemma lzf_compress_ok:
  assumes "2 \<le> length inp" "length inp < 2 ^ 32"
  shows "\<exists>k out'. lzf_compress htab inp out = Some (k, out') \<and> length out' = length out \<and> k \<le> length out \<and>
    (k \<noteq> 0 \<longrightarrow> (\<exists>ts. take k out' = enc_toks ts \<and> toks_ok [] ts \<and> exec_toks [] ts = inp))"
proof (cases "out = []")
  case True
  then show ?thesis by (simp add: lzf_compress_def)
next
  case False
  have ne: "inp \<noteq> []" using assms(1) by auto
  obtain hval where h: "FRST inp 0 = Some hval" using assms(1) ne by (auto simp: FRST_def mem_get_def)
  let ?s = "\<lparr>c_ip = 0, c_op = 1, c_lit = 0, c_hval = hval, c_htab = htab, c_out = out\<rparr>"
  have "lzc_inv inp (length out) ?s" unfolding lzc_inv_def
    by (rule exI [of _ "[]"], rule exI [of _ "[]"], rule exI [of _ out])
      (use False in \<open>cases out; simp add: enc_toks_def\<close>)
  then obtain r where r: "lzfc_loop inp ?s = Some r"
    "case r of Inl s' \<Rightarrow> length (c_out s') = length out | Inr s' \<Rightarrow> lzc_inv inp (length out) s' \<and> length inp \<le> c_ip s' + 2"
    using lzfc_loop_inv [OF _ assms(2)] by blast
  show ?thesis
  proof (cases r)
    case (Inl s')
    then show ?thesis using r ne False h by (simp add: lzf_compress_def)
  next
    case (Inr s')
    then have s': "lzc_inv inp (length out) s'" "length inp \<le> c_ip s' + 2" using r(2) by simp_all
    then have n: "length (c_out s') = length out" unfolding lzc_inv_def by blast
    show ?thesis
    proof (cases "c_op s' + 3 > length out")
      case True
      then show ?thesis using r ne False h n by (simp add: lzf_compress_def Inr)
    next
      case fits: False
      have "c_op s' + (length inp - c_ip s') + (if c_lit s' + (length inp - c_ip s') \<ge> 32 then 1 else 0) \<le> length out"
        using fits s'(2) by auto
      then obtain t where t: "lzfc_tail inp s' = Some t" "lzc_inv inp (length out) t" "c_ip t = length inp" "c_op t \<le> length out"
        using lzfc_tail_inv [OF s'] by blast
      obtain ts post where f: "put_back (c_op t) (c_lit t + 1) (word_of_int (int (c_lit t) - 1)) (c_out t) = Some (enc_toks ts @ post)"
        "toks_ok [] ts" "exec_toks [] ts = inp" "length (enc_toks ts @ post) = length out"
        "length (enc_toks ts) = c_op t - (if c_lit t = 0 then 1 else 0)"
        using flush_run [OF t(2,4)] t(3) by auto
      have "lzf_compress htab inp out = Some (length (enc_toks ts), enc_toks ts @ post)"
        using r(1) ne False h n fits t(1) f(1,5) by (simp add: lzf_compress_def Inr)
      then show ?thesis using f by (intro exI [of _ "length (enc_toks ts)"] exI [of _ "enc_toks ts @ post"]) auto
    qed
  qed
qed

declare lzfc_loop.simps [code] lzfc_tail.simps [code] lzfd_loop.simps [code]

section \<open>Properties\<close>

text \<open>
  C6: compression is lossless. For every input of at least two and less than \<open>2 ^ 32\<close> octets, every
  output buffer and every initial content of the hash table, which is not initialised, the compressor
  stays within its buffers, and when it reports a size, decompressing that many octets of the output
  into any buffer that is large enough gives the input back.
\<close>

theorem lzf_roundtrip:
  assumes "2 \<le> length inp" "length inp < 2 ^ 32" "length inp \<le> length buf"
  shows "\<exists>k out'. lzf_compress htab inp out = Some (k, out') \<and> length out' = length out \<and> k \<le> length out \<and>
    (k \<noteq> 0 \<longrightarrow> (\<exists>rest. lzf_decompress (take k out') buf = Some (Inr (length inp, inp @ rest))))"
proof -
  obtain k out' where c: "lzf_compress htab inp out = Some (k, out')" "length out' = length out" "k \<le> length out"
    "k \<noteq> 0 \<longrightarrow> (\<exists>ts. take k out' = enc_toks ts \<and> toks_ok [] ts \<and> exec_toks [] ts = inp)"
    using lzf_compress_ok [OF assms(1,2)] by blast
  have "\<exists>rest. lzf_decompress (take k out') buf = Some (Inr (length inp, inp @ rest))" if nz: "k \<noteq> 0"
  proof -
    obtain ts where ts: "take k out' = enc_toks ts" "toks_ok [] ts" "exec_toks [] ts = inp" using c(4) nz by blast
    from lzfd_loop_toks [of "[]" ts buf "[]"] ts assms(3) show ?thesis by (simp add: lzf_decompress_def)
  qed
  with c(1-3) show ?thesis by blast
qed

lemma lzf_sample:
  "lzf_compress (\<lambda>_. 0) (replicate 12 7) (replicate 12 0) = Some (8, [1, 7, 7, of_nat 192, of_nat 0, 1, 7, 7, 0, 0, 0, 0])"
  by code_simp

theorem lzf_roundtrip_witness:
  "\<exists>rest. lzf_decompress [1, 7, 7, 192, 0, 1, 7, 7] (replicate 12 0) = Some (Inr (12, replicate 12 7 @ rest))"
  using lzf_roundtrip [of "replicate 12 7" "replicate 12 0" "\<lambda>_. 0" "replicate 12 0"]
  by (simp add: lzf_sample)

text \<open>
  C14: decompression of arbitrary octets, as they come with a corrupted file or a hostile
  \<open>RESTORE\<close>, always ends, reads and writes inside its buffers only, and reports an error or a size
  within the output buffer.
\<close>

theorem lzf_decompress_safe:
  "\<exists>r. lzf_decompress inp out = Some r \<and>
     (case r of Inl e \<Rightarrow> True | Inr (n, out') \<Rightarrow> n \<le> length out \<and> length out' = length out)"
  using lzfd_loop_Some [of 0 out inp 0] by (simp add: lzf_decompress_def lzfd_done_def)

end
