(* ===== verification/Rdb.thy ===== *)
theory Rdb
  imports Lzf Objects
begin

text \<open>
  How \<open>rdb.c\<close> writes and reads lengths, integers, times, types and strings: the part of the RDB
  format that every object is made of, also used by \<open>DUMP\<close> and \<open>RESTORE\<close>. Strings are saved as
  integers, compressed with LZF or verbatim, and the main result is that loading gives the saved
  string back in each case.

  The stream written to is a \<open>rio\<close> with a number of octets it still accepts; the stream read from
  is the list of its octets. \<open>can_alloc\<close> tells which sizes \<open>ztrymalloc\<close> can allocate, \<open>htab\<close> is the
  uninitialised table of the compressor. The machine is little endian.
\<close>

section \<open>Streams\<close>

record rio =
  written :: mem
  room :: nat

text \<open>\<open>rdb\<close> may be \<open>NULL\<close>, then the octets are only counted. The second component is the return
value, \<open>-1\<close> for an error.\<close>

definition rdbWriteRaw :: "rio option \<Rightarrow> mem \<Rightarrow> rio option \<times> int" where
  "rdbWriteRaw rdb p = (case rdb of
     None \<Rightarrow> (None, int (length p))
   | Some r \<Rightarrow>
       if length p \<le> room r then (Some \<lparr>written = written r @ p, room = room r - length p\<rparr>, int (length p))
       else (rdb, - 1))"

text \<open>\<open>if ((n = ...) == -1) return -1;\<close>\<close>

definition or_fail :: "rio option \<times> int \<Rightarrow> (rio option \<Rightarrow> int \<Rightarrow> rio option \<times> int) \<Rightarrow> rio option \<times> int" where
  "or_fail w k = (case w of (rdb, n) \<Rightarrow> if n = - 1 then (rdb, - 1) else k rdb n)"

datatype rdb_error = ShortRead | CorruptRDB | NoMemory

text \<open>\<open>rioRead\<close>: the octets read and the rest of the stream.\<close>

definition rioRead :: "nat \<Rightarrow> mem \<Rightarrow> rdb_error + mem \<times> mem" where
  "rioRead n s = (if n \<le> length s then Inr (take n s, drop n s) else Inl ShortRead)"

definition or_null :: "rdb_error + 'a \<times> mem \<Rightarrow> ('a \<Rightarrow> mem \<Rightarrow> rdb_error + 'b) \<Rightarrow> rdb_error + 'b" where
  "or_null r k = (case r of Inl e \<Rightarrow> Inl e | Inr (x, s) \<Rightarrow> k x s)"

section \<open>Types and times\<close>

definition rdbSaveType :: "rio option \<Rightarrow> byte \<Rightarrow> rio option \<times> int" where
  "rdbSaveType rdb type = rdbWriteRaw rdb [type]"

definition rdbLoadType :: "mem \<Rightarrow> rdb_error + byte \<times> mem" where
  "rdbLoadType s = or_null (rioRead 1 s) (\<lambda>b s. Inr (hd b, s))"

definition rdbLoadTime :: "mem \<Rightarrow> rdb_error + int \<times> mem" where
  "rdbLoadTime s = or_null (rioRead 4 s) (\<lambda>b s. Inr (le_sint b, s))"

definition rdbSaveMillisecondTime :: "rio option \<Rightarrow> int \<Rightarrow> rio option \<times> int" where
  "rdbSaveMillisecondTime rdb t = rdbWriteRaw rdb (le_bytes 8 t)"

definition rdbLoadMillisecondTime :: "mem \<Rightarrow> rdb_error + int \<times> mem" where
  "rdbLoadMillisecondTime s = or_null (rioRead 8 s) (\<lambda>b s. Inr (le_sint b, s))"

section \<open>Lengths\<close>

definition RDB_6BITLEN :: byte where "RDB_6BITLEN = 0"
definition RDB_14BITLEN :: byte where "RDB_14BITLEN = 1"
definition RDB_32BITLEN :: byte where "RDB_32BITLEN = 0x80"
definition RDB_64BITLEN :: byte where "RDB_64BITLEN = 0x81"
definition RDB_ENCVAL :: byte where "RDB_ENCVAL = 3"
definition RDB_LENERR :: nat where "RDB_LENERR = 2 ^ 64 - 1"
definition RDB_ENC_INT8 :: nat where "RDB_ENC_INT8 = 0"
definition RDB_ENC_INT16 :: nat where "RDB_ENC_INT16 = 1"
definition RDB_ENC_INT32 :: nat where "RDB_ENC_INT32 = 2"
definition RDB_ENC_LZF :: nat where "RDB_ENC_LZF = 3"

text \<open>\<open>htonl\<close>, \<open>htonu64\<close>: most significant octet first.\<close>

definition be_bytes :: "nat \<Rightarrow> nat \<Rightarrow> mem" where
  "be_bytes n v = rev (le_bytes n (int v))"

definition be_uint :: "mem \<Rightarrow> nat" where
  "be_uint bs = nat (le_uint (rev bs))"

definition rdbSaveLen :: "rio option \<Rightarrow> nat \<Rightarrow> rio option \<times> int" where
  "rdbSaveLen rdb len =
     (if len < 2 ^ 6 then
        or_fail (rdbWriteRaw rdb [of_nat len OR push_bit 6 RDB_6BITLEN]) (\<lambda>rdb _. (rdb, 1))
      else if len < 2 ^ 14 then
        or_fail (rdbWriteRaw rdb [of_nat (drop_bit 8 len) OR push_bit 6 RDB_14BITLEN, of_nat len]) (\<lambda>rdb _. (rdb, 2))
      else if len \<le> 2 ^ 32 - 1 then
        or_fail (rdbWriteRaw rdb [RDB_32BITLEN])
          (\<lambda>rdb _. or_fail (rdbWriteRaw rdb (be_bytes 4 len)) (\<lambda>rdb _. (rdb, 1 + 4)))
      else
        or_fail (rdbWriteRaw rdb [RDB_64BITLEN])
          (\<lambda>rdb _. or_fail (rdbWriteRaw rdb (be_bytes 8 len)) (\<lambda>rdb _. (rdb, 1 + 8))))"

text \<open>The flag is \<open>isencoded\<close>.\<close>

definition rdbLoadLenByRef :: "mem \<Rightarrow> rdb_error + (bool \<times> nat) \<times> mem" where
  "rdbLoadLenByRef s = or_null (rioRead 1 s) (\<lambda>b s.
     let buf0 = unat (hd b);
         type = drop_bit 6 (buf0 AND 0xC0) in
     if type = unat RDB_ENCVAL then Inr ((True, buf0 AND 0x3F), s)
     else if type = unat RDB_6BITLEN then Inr ((False, buf0 AND 0x3F), s)
     else if type = unat RDB_14BITLEN then
       or_null (rioRead 1 s) (\<lambda>b1 s. Inr ((False, push_bit 8 (buf0 AND 0x3F) OR unat (hd b1)), s))
     else if hd b = RDB_32BITLEN then or_null (rioRead 4 s) (\<lambda>l s. Inr ((False, be_uint l), s))
     else if hd b = RDB_64BITLEN then or_null (rioRead 8 s) (\<lambda>l s. Inr ((False, be_uint l), s))
     else Inl CorruptRDB)"

text \<open>A length that equals \<open>RDB_LENERR\<close> is taken for an error.\<close>

definition rdbLoadLen :: "mem \<Rightarrow> rdb_error + (bool \<times> nat) \<times> mem" where
  "rdbLoadLen s = or_null (rdbLoadLenByRef s) (\<lambda>(isencoded, len) s.
     if len = RDB_LENERR then Inl ShortRead else Inr ((isencoded, len), s))"

section \<open>Integers\<close>

definition rdbEncodeInteger :: "int \<Rightarrow> mem option" where
  "rdbEncodeInteger value =
     (if value \<ge> - (2 ^ 7) \<and> value \<le> 2 ^ 7 - 1 then
        Some [push_bit 6 RDB_ENCVAL OR of_nat RDB_ENC_INT8, word_of_int value]
      else if value \<ge> - (2 ^ 15) \<and> value \<le> 2 ^ 15 - 1 then
        Some [push_bit 6 RDB_ENCVAL OR of_nat RDB_ENC_INT16, word_of_int value, word_of_int (drop_bit 8 value)]
      else if value \<ge> - (2 ^ 31) \<and> value \<le> 2 ^ 31 - 1 then
        Some [push_bit 6 RDB_ENCVAL OR of_nat RDB_ENC_INT32, word_of_int value, word_of_int (drop_bit 8 value),
              word_of_int (drop_bit 16 value), word_of_int (drop_bit 24 value)]
      else None)"

text \<open>What a loaded string is returned as.\<close>

datatype rdb_flags = RDB_LOAD_NONE | RDB_LOAD_ENC | RDB_LOAD_PLAIN | RDB_LOAD_SDS

datatype rdb_value = Plain mem | Sds mem | Obj sobj

definition rdbLoadIntegerObject :: "bool \<Rightarrow> mem \<Rightarrow> nat \<Rightarrow> rdb_flags \<Rightarrow> (rdb_error + rdb_value \<times> mem) option" where
  "rdbLoadIntegerObject share s enctype flags =
     (let val = (if enctype = RDB_ENC_INT8 then or_null (rioRead 1 s) (\<lambda>b s. Inr (le_sint b, s))
                 else if enctype = RDB_ENC_INT16 then or_null (rioRead 2 s) (\<lambda>b s. Inr (le_sint b, s))
                 else if enctype = RDB_ENC_INT32 then or_null (rioRead 4 s) (\<lambda>b s. Inr (le_sint b, s))
                 else Inl CorruptRDB) in
      case val of
        Inl e \<Rightarrow> Some (Inl e)
      | Inr (v, s) \<Rightarrow>
          if flags = RDB_LOAD_PLAIN \<or> flags = RDB_LOAD_SDS then do {
            buf \<leftarrow> ll_buf 21 v;
            Some (Inr (if flags = RDB_LOAD_PLAIN then Plain buf else Sds buf, s))
          }
          else if flags = RDB_LOAD_ENC then Some (Inr (Obj (createStringObjectFromLongLongForValue share v), s))
          else Some (Inr (Obj (createRawStringObject (dec_int v)), s)))"

text \<open>\<open>strtoll\<close> in base 10 on a zero-terminated string: the value, clamped to a \<open>long long\<close>, and the
octets from the end pointer to the terminating zero.\<close>

definition strtoll10 :: "mem \<Rightarrow> int \<times> mem" where
  "strtoll10 s0 =
     (let s = takeWhile (\<lambda>c. c \<noteq> 0) s0;
          p = dropWhile is_space s;
          neg = (p \<noteq> [] \<and> hd p = ch CHR ''-'');
          p = (if p \<noteq> [] \<and> (hd p = ch CHR ''-'' \<or> hd p = ch CHR ''+'') then tl p else p);
          ds = takeWhile is_digit p;
          v = (if neg then - int (dec_val 0 ds) else int (dec_val 0 ds)) in
      if ds = [] then (0, s) else (max LLONG_MIN (min LLONG_MAX v), dropWhile is_digit p))"

definition rdbTryIntegerEncoding :: "mem \<Rightarrow> mem option option" where
  "rdbTryIntegerEncoding s =
     (let (value, endptr) = strtoll10 s in
      if endptr \<noteq> [] then Some None
      else do {
        (_, buf) \<leftarrow> ll2string (replicate 32 0) 32 value;
        let buf = takeWhile (\<lambda>c. c \<noteq> 0) buf;
        if length buf \<noteq> length s \<or> memcmp buf s (length s) \<noteq> 0 then Some None
        else Some (rdbEncodeInteger value)
      })"

section \<open>Compressed strings\<close>

definition rdbSaveLzfBlob :: "rio option \<Rightarrow> mem \<Rightarrow> nat \<Rightarrow> rio option \<times> int" where
  "rdbSaveLzfBlob rdb data original_len =
     or_fail (rdbWriteRaw rdb [push_bit 6 RDB_ENCVAL OR of_nat RDB_ENC_LZF]) (\<lambda>rdb n1.
       or_fail (rdbSaveLen rdb (length data)) (\<lambda>rdb n2.
         or_fail (rdbSaveLen rdb original_len) (\<lambda>rdb n3.
           or_fail (rdbWriteRaw rdb data) (\<lambda>rdb n4. (rdb, n1 + n2 + n3 + n4)))))"

text \<open>\<open>lzf_compress\<close> takes its sizes as \<open>unsigned int\<close>. A return value of 0 is "not compressed".\<close>

definition rdbSaveLzfStringObject ::
  "(32 word \<Rightarrow> 32 word) \<Rightarrow> byte \<Rightarrow> rio option \<Rightarrow> mem \<Rightarrow> (rio option \<times> int) option" where
  "rdbSaveLzfStringObject htab junk rdb s =
     (if length s \<le> 4 then Some (rdb, 0)
      else do {
        let outlen = length s - 4;
        (comprlen, out) \<leftarrow> lzf_compress htab (take (u32 (length s)) s) (replicate (u32 outlen) junk);
        if comprlen = 0 then Some (rdb, 0)
        else Some (rdbSaveLzfBlob rdb (take comprlen out) (length s))
      })"

definition rdbLoadLzfStringObject ::
  "(nat \<Rightarrow> bool) \<Rightarrow> byte \<Rightarrow> mem \<Rightarrow> rdb_flags \<Rightarrow> (rdb_error + rdb_value \<times> mem) option" where
  "rdbLoadLzfStringObject can_alloc junk s flags =
     (case or_null (rdbLoadLen s) (\<lambda>(_, clen) s. or_null (rdbLoadLen s) (\<lambda>(_, len) s. Inr ((clen, len), s))) of
        Inl e \<Rightarrow> Some (Inl e)
      | Inr ((clen, len), s) \<Rightarrow>
          if \<not> can_alloc clen \<or> \<not> can_alloc len then Some (Inl NoMemory)
          else (case rioRead clen s of
            Inl e \<Rightarrow> Some (Inl e)
          | Inr (c, s) \<Rightarrow> do {
              r \<leftarrow> lzf_decompress (take (u32 clen) c) (replicate (u32 len) junk);
              case r of
                Inl _ \<Rightarrow> Some (if len = 0 then Inr (if flags = RDB_LOAD_PLAIN then Plain [] else if flags = RDB_LOAD_SDS then Sds []
                             else Obj (createRawStringObject []), s) else Inl CorruptRDB)
              | Inr (n, val) \<Rightarrow>
                  if n \<noteq> len then Some (Inl CorruptRDB)
                  else Some (Inr (if flags = RDB_LOAD_PLAIN then Plain val else if flags = RDB_LOAD_SDS then Sds val
                             else Obj (createRawStringObject val), s))
            }))"

section \<open>Strings\<close>

definition rdbSaveRawString ::
  "(32 word \<Rightarrow> 32 word) \<Rightarrow> byte \<Rightarrow> bool \<Rightarrow> rio option \<Rightarrow> mem \<Rightarrow> (rio option \<times> int) option" where
  "rdbSaveRawString htab junk rdb_compression rdb s = do {
     enc \<leftarrow> (if length s \<le> 11 then rdbTryIntegerEncoding s else Some None);
     case enc of
       Some buf \<Rightarrow> Some (or_fail (rdbWriteRaw rdb buf) (\<lambda>rdb _. (rdb, int (length buf))))
     | None \<Rightarrow> do {
         (rdb, n) \<leftarrow> (if rdb_compression \<and> length s > 20 then rdbSaveLzfStringObject htab junk rdb s else Some (rdb, 0));
         if n = - 1 then Some (rdb, - 1)
         else if n > 0 then Some (rdb, n)
         else Some (or_fail (rdbSaveLen rdb (length s)) (\<lambda>rdb n.
           if length s > 0 then or_fail (rdbWriteRaw rdb s) (\<lambda>rdb _. (rdb, n + int (length s))) else (rdb, n)))
       }
   }"

definition rdbSaveLongLongAsStringObject :: "rio option \<Rightarrow> int \<Rightarrow> (rio option \<times> int) option" where
  "rdbSaveLongLongAsStringObject rdb value = (case rdbEncodeInteger value of
     Some buf \<Rightarrow> Some (rdbWriteRaw rdb buf)
   | None \<Rightarrow> do {
       buf \<leftarrow> ll_buf 32 value;
       Some (or_fail (rdbSaveLen rdb (length buf)) (\<lambda>rdb n1.
         or_fail (rdbWriteRaw rdb buf) (\<lambda>rdb n2. (rdb, n1 + n2))))
     })"

definition rdbSaveStringObject ::
  "(32 word \<Rightarrow> 32 word) \<Rightarrow> byte \<Rightarrow> bool \<Rightarrow> rio option \<Rightarrow> sobj \<Rightarrow> (rio option \<times> int) option" where
  "rdbSaveStringObject htab junk rdb_compression rdb obj = (case enc obj of
     EncInt v \<Rightarrow> rdbSaveLongLongAsStringObject rdb v
   | Raw s _ \<Rightarrow> rdbSaveRawString htab junk rdb_compression rdb s
   | Embstr s \<Rightarrow> rdbSaveRawString htab junk rdb_compression rdb s)"

definition rdbGenericLoadStringObject ::
  "(nat \<Rightarrow> bool) \<Rightarrow> byte \<Rightarrow> bool \<Rightarrow> mem \<Rightarrow> rdb_flags \<Rightarrow> (rdb_error + rdb_value \<times> mem) option" where
  "rdbGenericLoadStringObject can_alloc junk share s flags = (case rdbLoadLen s of
     Inl e \<Rightarrow> Some (Inl e)
   | Inr ((isencoded, len), s) \<Rightarrow>
       if isencoded then
         (if len = RDB_ENC_INT8 \<or> len = RDB_ENC_INT16 \<or> len = RDB_ENC_INT32 then rdbLoadIntegerObject share s len flags
          else if len = RDB_ENC_LZF then rdbLoadLzfStringObject can_alloc junk s flags
          else Some (Inl CorruptRDB))
       else if flags = RDB_LOAD_PLAIN \<or> flags = RDB_LOAD_SDS then
         (if \<not> can_alloc len then Some (Inl NoMemory)
          else Some (or_null (rioRead len s) (\<lambda>buf s. Inr (if flags = RDB_LOAD_PLAIN then Plain buf else Sds buf, s))))
       else Some (or_null (rioRead len s) (\<lambda>buf s.
         Inr (Obj (if flags = RDB_LOAD_ENC then createStringObject buf else createRawStringObject buf), s))))"

definition rdbLoadStringObject :: "(nat \<Rightarrow> bool) \<Rightarrow> byte \<Rightarrow> bool \<Rightarrow> mem \<Rightarrow> (rdb_error + rdb_value \<times> mem) option" where
  "rdbLoadStringObject can_alloc junk share s = rdbGenericLoadStringObject can_alloc junk share s RDB_LOAD_NONE"

definition rdbLoadEncodedStringObject :: "(nat \<Rightarrow> bool) \<Rightarrow> byte \<Rightarrow> bool \<Rightarrow> mem \<Rightarrow> (rdb_error + rdb_value \<times> mem) option" where
  "rdbLoadEncodedStringObject can_alloc junk share s = rdbGenericLoadStringObject can_alloc junk share s RDB_LOAD_ENC"

section \<open>The type of an object\<close>

datatype obj_type = OBJ_STRING | OBJ_LIST | OBJ_SET | OBJ_ZSET | OBJ_HASH | OBJ_MODULE | OBJ_STREAM

datatype obj_encoding = OBJ_ENCODING_RAW | OBJ_ENCODING_INT | OBJ_ENCODING_HT | OBJ_ENCODING_ZIPMAP | OBJ_ENCODING_LINKEDLIST
  | OBJ_ENCODING_ZIPLIST | OBJ_ENCODING_INTSET | OBJ_ENCODING_SKIPLIST | OBJ_ENCODING_EMBSTR | OBJ_ENCODING_QUICKLIST
  | OBJ_ENCODING_STREAM

definition RDB_TYPE_STRING :: byte where "RDB_TYPE_STRING = 0"
definition RDB_TYPE_SET :: byte where "RDB_TYPE_SET = 2"
definition RDB_TYPE_HASH :: byte where "RDB_TYPE_HASH = 4"
definition RDB_TYPE_ZSET_2 :: byte where "RDB_TYPE_ZSET_2 = 5"
definition RDB_TYPE_MODULE_2 :: byte where "RDB_TYPE_MODULE_2 = 7"
definition RDB_TYPE_SET_INTSET :: byte where "RDB_TYPE_SET_INTSET = 11"
definition RDB_TYPE_ZSET_ZIPLIST :: byte where "RDB_TYPE_ZSET_ZIPLIST = 12"
definition RDB_TYPE_HASH_ZIPLIST :: byte where "RDB_TYPE_HASH_ZIPLIST = 13"
definition RDB_TYPE_LIST_QUICKLIST :: byte where "RDB_TYPE_LIST_QUICKLIST = 14"
definition RDB_TYPE_STREAM_LISTPACKS :: byte where "RDB_TYPE_STREAM_LISTPACKS = 15"

definition rdbIsObjectType :: "byte \<Rightarrow> bool" where
  "rdbIsObjectType t \<longleftrightarrow> t \<le> 7 \<or> (t \<ge> 9 \<and> t \<le> 15)"

text \<open>\<open>None\<close> is \<open>serverPanic\<close>.\<close>

fun rdbSaveObjectType :: "rio option \<Rightarrow> obj_type \<Rightarrow> obj_encoding \<Rightarrow> (rio option \<times> int) option" where
  "rdbSaveObjectType rdb OBJ_STRING e = Some (rdbSaveType rdb RDB_TYPE_STRING)"
| "rdbSaveObjectType rdb OBJ_LIST e =
     (if e = OBJ_ENCODING_QUICKLIST then Some (rdbSaveType rdb RDB_TYPE_LIST_QUICKLIST) else None)"
| "rdbSaveObjectType rdb OBJ_SET e =
     (if e = OBJ_ENCODING_INTSET then Some (rdbSaveType rdb RDB_TYPE_SET_INTSET)
      else if e = OBJ_ENCODING_HT then Some (rdbSaveType rdb RDB_TYPE_SET) else None)"
| "rdbSaveObjectType rdb OBJ_ZSET e =
     (if e = OBJ_ENCODING_ZIPLIST then Some (rdbSaveType rdb RDB_TYPE_ZSET_ZIPLIST)
      else if e = OBJ_ENCODING_SKIPLIST then Some (rdbSaveType rdb RDB_TYPE_ZSET_2) else None)"
| "rdbSaveObjectType rdb OBJ_HASH e =
     (if e = OBJ_ENCODING_ZIPLIST then Some (rdbSaveType rdb RDB_TYPE_HASH_ZIPLIST)
      else if e = OBJ_ENCODING_HT then Some (rdbSaveType rdb RDB_TYPE_HASH) else None)"
| "rdbSaveObjectType rdb OBJ_STREAM e = Some (rdbSaveType rdb RDB_TYPE_STREAM_LISTPACKS)"
| "rdbSaveObjectType rdb OBJ_MODULE e = Some (rdbSaveType rdb RDB_TYPE_MODULE_2)"

definition rdbLoadObjectType :: "mem \<Rightarrow> rdb_error + byte \<times> mem" where
  "rdbLoadObjectType s = or_null (rdbLoadType s) (\<lambda>type s. if \<not> rdbIsObjectType type then Inl CorruptRDB else Inr (type, s))"

section \<open>What is written\<close>

definition push :: "rio \<Rightarrow> mem \<Rightarrow> rio" where
  "push r bs = \<lparr>written = written r @ bs, room = room r - length bs\<rparr>"

text \<open>A save that writes \<open>bs\<close> and returns \<open>n\<close>, or fails because the stream is full.\<close>

definition appends :: "rio \<Rightarrow> mem \<Rightarrow> nat \<Rightarrow> rio option \<times> int \<Rightarrow> bool" where
  "appends r bs n w \<longleftrightarrow> (if length bs \<le> room r then w = (Some (push r bs), int n) else snd w = - 1)"

lemma push_push [simp]: "push (push r bs) cs = push r (bs @ cs)"
  by (simp add: push_def)

lemma appends_raw: "n = length bs \<Longrightarrow> appends r bs n (rdbWriteRaw (Some r) bs)"
  by (simp add: appends_def rdbWriteRaw_def push_def)

lemma appends_bind:
  assumes "appends r bs n w" "appends (push r bs) cs m (k (Some (push r bs)) (int n))"
  shows "appends r (bs @ cs) m (or_fail w k)"
proof (cases "length bs \<le> room r")
  case True
  then have "w = (Some (push r bs), int n)" using assms(1) by (simp add: appends_def)
  then show ?thesis using assms(2) True by (auto simp: appends_def or_fail_def push_def split: if_splits)
next
  case False
  then show ?thesis using assms(1) by (cases w) (simp add: appends_def or_fail_def)
qed

lemma appends_done: "appends r [] n (Some r, int n)"
  by (simp add: appends_def push_def)

lemma appends_last: "appends r bs n w \<Longrightarrow> appends r bs m (or_fail w (\<lambda>rdb _. (rdb, int m)))"
  using appends_bind [of r bs n w "[]" m "\<lambda>rdb _. (rdb, int m)"] appends_done [of "push r bs" m] by simp

lemma appends_sum: "appends r bs n w \<Longrightarrow> appends r bs (k + n) (or_fail w (\<lambda>rdb m. (rdb, int k + m)))"
  using appends_bind [of r bs n w "[]" "k + n" "\<lambda>rdb m. (rdb, int k + m)"] appends_done [of "push r bs" "k + n"] by simp

definition enc_len :: "nat \<Rightarrow> mem" where
  "enc_len len =
     (if len < 2 ^ 6 then [of_nat len OR push_bit 6 RDB_6BITLEN]
      else if len < 2 ^ 14 then [of_nat (drop_bit 8 len) OR push_bit 6 RDB_14BITLEN, of_nat len]
      else if len \<le> 2 ^ 32 - 1 then RDB_32BITLEN # be_bytes 4 len
      else RDB_64BITLEN # be_bytes 8 len)"

lemma length_be_bytes [simp]: "length (be_bytes n v) = n"
  by (simp add: be_bytes_def)

lemma rdbSaveLen_appends: "appends r (enc_len len) (length (enc_len len)) (rdbSaveLen (Some r) len)"
proof -
  have two: "appends r (c # bs) m (or_fail (rdbWriteRaw (Some r) [c]) (\<lambda>rdb _. or_fail (rdbWriteRaw rdb bs) (\<lambda>rdb _. (rdb, int m))))" for c bs m
    using appends_bind [OF appends_raw [of 1 "[c]" r], of bs m "\<lambda>rdb _. or_fail (rdbWriteRaw rdb bs) (\<lambda>rdb _. (rdb, int m))"]
      appends_last [OF appends_raw [of "length bs" bs "push r [c]"]] by simp
  have one: "appends r bs m (or_fail (rdbWriteRaw (Some r) bs) (\<lambda>rdb _. (rdb, int m)))" for bs m
    using appends_last [OF appends_raw [of "length bs" bs r]] by simp
  show ?thesis
    using one [of "[of_nat len OR push_bit 6 RDB_6BITLEN]" 1]
      one [of "[of_nat (drop_bit 8 len) OR push_bit 6 RDB_14BITLEN, of_nat len]" 2]
      two [of RDB_32BITLEN "be_bytes 4 len" 5] two [of RDB_64BITLEN "be_bytes 8 len" 9]
    by (simp add: rdbSaveLen_def enc_len_def numeral_2_eq_2)
qed

section \<open>Codes\<close>

text \<open>
  An encoding that can be followed by anything: the decoder gives back what was encoded (up to
  \<open>rel\<close>) and the rest of the stream.
\<close>

locale codec =
  fixes encode :: "'a \<Rightarrow> mem" and decode :: "mem \<Rightarrow> rdb_error + 'b \<times> mem"
    and valid :: "'a \<Rightarrow> bool" and rel :: "'a \<Rightarrow> 'b \<Rightarrow> bool"
  assumes decode_encode: "valid x \<Longrightarrow> \<exists>y. decode (encode x @ rest) = Inr (y, rest) \<and> rel x y"

primrec decode_n :: "(mem \<Rightarrow> rdb_error + 'b \<times> mem) \<Rightarrow> nat \<Rightarrow> mem \<Rightarrow> rdb_error + 'b list \<times> mem" where
  "decode_n d 0 s = Inr ([], s)"
| "decode_n d (Suc n) s = or_null (d s) (\<lambda>y s. or_null (decode_n d n s) (\<lambda>ys s. Inr (y # ys, s)))"

context codec
begin

lemma decode_list:
  "list_all valid xs \<Longrightarrow>
     \<exists>ys. decode_n decode (length xs) (concat (map encode xs) @ rest) = Inr (ys, rest) \<and> list_all2 rel xs ys"
proof (induction xs)
  case (Cons x xs)
  obtain y where "decode (encode x @ concat (map encode xs) @ rest) = Inr (y, concat (map encode xs) @ rest)" "rel x y"
    using decode_encode [of x "concat (map encode xs) @ rest"] Cons.prems by auto
  with Cons show ?case by (auto simp: or_null_def)
qed simp

end

lemma be_uint_be_bytes: "v < 256 ^ n \<Longrightarrow> be_uint (be_bytes n v) = v"
  using le_uint_le_bytes [of n "int v"] by (simp add: be_uint_def be_bytes_def flip: of_nat_power)

lemma rioRead_append: "n = length bs \<Longrightarrow> rioRead n (bs @ s) = Inr (bs, s)"
  by (simp add: rioRead_def)

lemma rioRead_one: "rioRead 1 (b # s) = Inr ([b], s)" "rioRead (Suc 0) (b # s) = Inr ([b], s)"
  by (simp_all add: rioRead_def)

lemma type_bits: "n < 256 \<Longrightarrow> drop_bit 6 ((n :: nat) AND 0xC0) = n div 64"
  using nat_and_mask [of "n div 64" 2] by (simp add: drop_bit_and) (simp add: drop_bit_eq_div)

lemma low_bits: "(n :: nat) AND 0x3F = n mod 64"
  using nat_and_mask [of n 6] by simp

lemma unat_or_byte: "unat (a OR b :: byte) = unat a OR unat b"
  by (simp add: unsigned_or_eq)

lemma head_14: "len < 2 ^ 14 \<Longrightarrow> unat (of_nat (drop_bit 8 len) OR push_bit 6 RDB_14BITLEN :: byte) = 64 + len div 256"
proof -
  assume l: "len < 2 ^ 14"
  have "unat (of_nat (drop_bit 8 len) :: byte) = len div 256"
    using l by (subst unat_of_nat_byte) (simp_all add: drop_bit_eq_div)
  moreover have "push_bit 6 1 OR (len div 256) = 1 * 2 ^ 6 + len div 256" using l by (intro nat_push_or) simp
  ultimately show ?thesis by (simp add: unat_or_byte RDB_14BITLEN_def or.commute [of _ 64])
qed

lemma rdbLoadLenByRef_enc:
  assumes "len < 2 ^ 64"
  shows "rdbLoadLenByRef (enc_len len @ rest) = Inr ((False, len), rest)"
proof -
  consider "len < 2 ^ 6" | "2 ^ 6 \<le> len" "len < 2 ^ 14" | "2 ^ 14 \<le> len" "len \<le> 2 ^ 32 - 1" | "2 ^ 32 - 1 < len" by linarith
  then show ?thesis
  proof cases
    case 1
    then have "unat (of_nat len :: byte) = len" by (intro unat_of_nat_byte) simp
    then show ?thesis using 1 type_bits [of len] low_bits [of len]
      by (simp add: enc_len_def rdbLoadLenByRef_def rioRead_one or_null_def Let_def RDB_6BITLEN_def RDB_ENCVAL_def)
  next
    case 2
    note h = head_14 [OF 2(2)]
    have d: "(64 + len div 256) div 64 = 1" "(64 + len div 256) mod 64 = len div 256" "64 + len div 256 < 256" using 2 by auto
    have "push_bit 8 (len div 256) OR len mod 256 = len div 256 * 2 ^ 8 + len mod 256" by (intro nat_push_or) simp
    also have "\<dots> = len" by simp
    finally show ?thesis using 2 h d type_bits [OF d(3)] low_bits [of "64 + len div 256"]
      by (simp add: enc_len_def rdbLoadLenByRef_def rioRead_one or_null_def Let_def RDB_ENCVAL_def RDB_6BITLEN_def
          RDB_14BITLEN_def unat_of_nat_mod)
  next
    case 3
    then show ?thesis using be_uint_be_bytes [of len 4] rioRead_append [of 4 "be_bytes 4 len" rest]
      by (simp add: enc_len_def rdbLoadLenByRef_def rioRead_one or_null_def Let_def RDB_ENCVAL_def RDB_6BITLEN_def RDB_14BITLEN_def RDB_32BITLEN_def)
  next
    case 4
    then show ?thesis using assms be_uint_be_bytes [of len 8] rioRead_append [of 8 "be_bytes 8 len" rest]
      by (simp add: enc_len_def rdbLoadLenByRef_def rioRead_one or_null_def Let_def RDB_ENCVAL_def RDB_6BITLEN_def RDB_14BITLEN_def RDB_32BITLEN_def RDB_64BITLEN_def)
  qed
qed

lemma rdbLoadLen_enc:
  "len < 2 ^ 64 - 1 \<Longrightarrow> rdbLoadLen (enc_len len @ rest) = Inr ((False, len), rest)"
  by (simp add: rdbLoadLen_def rdbLoadLenByRef_enc or_null_def RDB_LENERR_def)

interpretation rdb_length: codec enc_len rdbLoadLen "\<lambda>len. len < 2 ^ 64 - 1" "\<lambda>len y. y = (False, len)"
  by unfold_locales (simp only: rdbLoadLen_enc, simp)

interpretation rdb_time: codec "le_bytes 8" rdbLoadMillisecondTime in_int64 "\<lambda>t y. y = t"
proof
  fix t rest assume "in_int64 t"
  then have "le_sint (le_bytes 8 t) = t" by (intro le_sint_le_bytes) (simp_all add: in_int64_def)
  then show "\<exists>y. rdbLoadMillisecondTime (le_bytes 8 t @ rest) = Inr (y, rest) \<and> y = t"
    by (simp add: rdbLoadMillisecondTime_def rioRead_append or_null_def)
qed

section \<open>Loading what was saved\<close>

primrec value_bytes :: "rdb_value \<Rightarrow> mem" where
  "value_bytes (Plain s) = s"
| "value_bytes (Sds s) = s"
| "value_bytes (Obj ob) = obj_bytes ob"

text \<open>\<open>bs\<close> is loaded as the string \<open>s\<close>, whatever follows and whatever the caller asks for, when
blocks of up to \<open>length s\<close> octets can be allocated.\<close>

definition loads_as :: "mem \<Rightarrow> mem \<Rightarrow> bool" where
  "loads_as bs s \<longleftrightarrow> (\<forall>can_alloc junk share rest flags. (\<forall>n \<le> length s. can_alloc n) \<longrightarrow>
     (\<exists>v. rdbGenericLoadStringObject can_alloc junk share (bs @ rest) flags = Some (Inr (v, rest)) \<and> value_bytes v = s))"

lemma enc_header:
  "k < 64 \<Longrightarrow> rdbLoadLen ((push_bit 6 RDB_ENCVAL OR of_nat k) # rest) = Inr ((True, k), rest)"
proof -
  assume k: "k < 64"
  have "unat (push_bit 6 RDB_ENCVAL OR of_nat k :: byte) = 192 OR k"
    using k by (simp add: unat_or_byte RDB_ENCVAL_def unat_of_nat_byte)
  also have "\<dots> = 192 + k" using k nat_push_or [of k 6 3] by simp
  finally have u: "unat (push_bit 6 RDB_ENCVAL OR of_nat k :: byte) = 192 + k" .
  have "(k + 3 * 64) div 64 = 3" "(k + 3 * 64) mod 64 = k" using k by (simp_all only: div_mult_self1 mod_mult_self1) simp_all
  then have "(192 + k) div 64 = 3" "(192 + k) mod 64 = k" by (simp_all add: add.commute)
  then show ?thesis using k type_bits [of "192 + k"] low_bits [of "192 + k"]
    by (simp add: rdbLoadLen_def rdbLoadLenByRef_def rioRead_one or_null_def Let_def u RDB_LENERR_def) (simp add: RDB_ENCVAL_def)
qed

lemma rdbEncodeInteger_bytes:
  assumes "rdbEncodeInteger v = Some bs"
  obtains k where "bs = (push_bit 6 RDB_ENCVAL OR of_nat k) # le_bytes (2 ^ k) v" "k = 0 \<or> k = 1 \<or> k = 2"
    "- (256 ^ (2 ^ k)) \<le> 2 * v" "2 * v < 256 ^ (2 ^ k)"
proof -
  have d: "drop_bit 8 v = v div 256" "drop_bit 16 v = v div 256 div 256" "drop_bit 24 v = v div 256 div 256 div 256"
    by (simp_all add: drop_bit_eq_div flip: zdiv_zmult2_eq)
  have l: "le_bytes 1 v = [word_of_int v]" "le_bytes 2 v = [word_of_int v, word_of_int (v div 256)]"
    "le_bytes 4 v = [word_of_int v, word_of_int (v div 256), word_of_int (v div 256 div 256), word_of_int (v div 256 div 256 div 256)]"
    by (simp_all add: numeral_eq_Suc)
  consider "- (2 ^ 7) \<le> v" "v \<le> 2 ^ 7 - 1" | "\<not> (- (2 ^ 7) \<le> v \<and> v \<le> 2 ^ 7 - 1)" "- (2 ^ 15) \<le> v" "v \<le> 2 ^ 15 - 1"
    | "\<not> (- (2 ^ 7) \<le> v \<and> v \<le> 2 ^ 7 - 1)" "\<not> (- (2 ^ 15) \<le> v \<and> v \<le> 2 ^ 15 - 1)" "- (2 ^ 31) \<le> v" "v \<le> 2 ^ 31 - 1"
    using assms by (auto simp: rdbEncodeInteger_def split: if_splits)
  then show thesis
  proof cases
    case 1
    then show thesis using assms that [of 0] l by (simp add: rdbEncodeInteger_def RDB_ENC_INT8_def)
  next
    case 2
    then have "bs = [push_bit 6 RDB_ENCVAL OR 1, word_of_int v, word_of_int (v div 256)]"
      using assms d by (auto simp: rdbEncodeInteger_def RDB_ENC_INT16_def)
    then show thesis using 2 that [of 1] l by simp
  next
    case 3
    then have "bs = [push_bit 6 RDB_ENCVAL OR 2, word_of_int v, word_of_int (v div 256), word_of_int (v div 256 div 256),
        word_of_int (v div 256 div 256 div 256)]"
      using assms d by (auto simp: rdbEncodeInteger_def RDB_ENC_INT32_def)
    then show thesis using 3 that [of 2] l by simp
  qed
qed

lemma encode_integer_loads:
  assumes "rdbEncodeInteger v = Some bs"
  shows "loads_as bs (dec_int v)"
proof -
  obtain k where k: "bs = (push_bit 6 RDB_ENCVAL OR of_nat k) # le_bytes (2 ^ k) v" "k = 0 \<or> k = 1 \<or> k = 2"
    and b: "- (256 ^ (2 ^ k)) \<le> 2 * v" "2 * v < 256 ^ (2 ^ k)" using rdbEncodeInteger_bytes [OF assms] by blast
  have i: "in_int64 v" using b k(2) by (auto simp: in_int64_def)
  have "k < 64" using k(2) by auto
  note h = enc_header [OF this]
  have s: "le_sint (le_bytes (2 ^ k) v) = v" using le_sint_le_bytes [OF b] .
  have r: "rdbLoadIntegerObject share (le_bytes (2 ^ k) v @ rest) k flags =
      (if flags = RDB_LOAD_PLAIN \<or> flags = RDB_LOAD_SDS then do {
         buf \<leftarrow> ll_buf 21 v; Some (Inr (if flags = RDB_LOAD_PLAIN then Plain buf else Sds buf, rest)) }
       else if flags = RDB_LOAD_ENC then Some (Inr (Obj (createStringObjectFromLongLongForValue share v), rest))
       else Some (Inr (Obj (createRawStringObject (dec_int v)), rest)))" for share rest flags
    using k(2) s rioRead_append [of "2 ^ k" "le_bytes (2 ^ k) v" rest]
    by (auto simp: rdbLoadIntegerObject_def RDB_ENC_INT8_def RDB_ENC_INT16_def RDB_ENC_INT32_def or_null_def Let_def)
  have o: "obj_bytes (createRawStringObject (dec_int v)) = dec_int v" by (simp add: createRawStringObject_def obj_bytes_def)
  show ?thesis unfolding loads_as_def
  proof (intro allI impI)
    fix can_alloc junk share rest flags assume "\<forall>n \<le> length (dec_int v). can_alloc n"
    have "rdbGenericLoadStringObject can_alloc junk share (bs @ rest) flags = rdbLoadIntegerObject share (le_bytes (2 ^ k) v @ rest) k flags"
      using h [of "le_bytes (2 ^ k) v @ rest"] k by (auto simp: rdbGenericLoadStringObject_def RDB_ENC_INT8_def RDB_ENC_INT16_def RDB_ENC_INT32_def)
    then show "\<exists>v'. rdbGenericLoadStringObject can_alloc junk share (bs @ rest) flags = Some (Inr (v', rest)) \<and> value_bytes v' = dec_int v"
      using r [of share rest flags] i o fromLongLong_ok [OF i, of share True]
      by (cases flags) (auto simp: ll_buf_dec createStringObjectFromLongLongForValue_def)
  qed
qed

lemma strtoll10_int64: "in_int64 (fst (strtoll10 s))"
  by (auto simp: strtoll10_def Let_def in_int64_def LLONG_MIN_def LLONG_MAX_def)

lemma rdbTryIntegerEncoding_ok:
  "rdbTryIntegerEncoding s = Some None \<or> (\<exists>v bs. rdbTryIntegerEncoding s = Some (Some bs) \<and> rdbEncodeInteger v = Some bs \<and> s = dec_int v)"
proof -
  obtain v e where v: "strtoll10 s = (v, e)" by fastforce
  then have i: "in_int64 v" using strtoll10_int64 [of s] by simp
  obtain buf where b: "ll2string (replicate 32 0) 32 v = Some (buf)" "takeWhile (\<lambda>c. c \<noteq> 0) (snd buf) = dec_int v"
    using i length_dec_int_le [OF i] dec_int_no_zero [of _ v]
    by (auto simp: ll2string_dec takeWhile_append)
  then show ?thesis using v memcmp_eq [of "dec_int v" s]
    by (cases "rdbEncodeInteger v") (auto simp: rdbTryIntegerEncoding_def Let_def split: prod.splits)
qed

lemma lzf_header: "push_bit 6 RDB_ENCVAL OR of_nat RDB_ENC_LZF = (push_bit 6 RDB_ENCVAL OR of_nat 3 :: byte)"
  by (simp add: RDB_ENC_LZF_def)

definition lzf_blob :: "mem \<Rightarrow> nat \<Rightarrow> mem" where
  "lzf_blob data len = (push_bit 6 RDB_ENCVAL OR of_nat RDB_ENC_LZF) # enc_len (length data) @ enc_len len @ data"

lemma rdbSaveLzfBlob_appends:
  "appends r (lzf_blob data len) (length (lzf_blob data len)) (rdbSaveLzfBlob (Some r) data len)"
proof -
  have "appends r ([push_bit 6 RDB_ENCVAL OR of_nat RDB_ENC_LZF] @ enc_len (length data) @ enc_len len @ data)
     (1 + length (enc_len (length data)) + length (enc_len len) + length data) (rdbSaveLzfBlob (Some r) data len)"
    unfolding rdbSaveLzfBlob_def
    by (rule appends_bind [OF appends_raw [OF refl]], rule appends_bind [OF rdbSaveLen_appends], rule appends_bind [OF rdbSaveLen_appends])
      (use appends_sum [OF appends_raw [OF refl], where k = "1 + length (enc_len (length data)) + length (enc_len len)"] in \<open>simp add: add.assoc\<close>)
  then show ?thesis by (simp add: lzf_blob_def add.assoc)
qed

lemma lzf_blob_loads:
  assumes d: "toks_ok [] ts" "exec_toks [] ts = s" and l: "length s < 2 ^ 32" "length (enc_toks ts) \<le> length s"
  shows "loads_as (lzf_blob (enc_toks ts) (length s)) s"
  unfolding loads_as_def
proof (intro allI impI)
  fix can_alloc junk share rest flags assume c: "\<forall>n \<le> length s. can_alloc n"
  let ?d = "enc_toks ts"
  have u: "u32 (length ?d) = length ?d" "u32 (length s) = length s" using l by (simp_all add: u32_def)
  obtain x where "lzf_decompress ?d (replicate (length s) junk) = Some (Inr (length s, s @ x))"
    using lzfd_loop_toks [of "[]" ts "replicate (length s) junk" "[]"] d by (auto simp: lzf_decompress_def)
  moreover have "x = []" using calculation lzfd_loop_Some [of 0 "replicate (length s) junk" ?d 0]
    by (simp add: lzf_decompress_def lzfd_done_def)
  ultimately have z: "lzf_decompress ?d (replicate (length s) junk) = Some (Inr (length s, s))" by simp
  have e: "rdbLoadLen (enc_len (length ?d) @ enc_len (length s) @ ?d @ rest) = Inr ((False, length ?d), enc_len (length s) @ ?d @ rest)"
    "rdbLoadLen (enc_len (length s) @ ?d @ rest) = Inr ((False, length s), ?d @ rest)"
    using l by (simp_all add: rdbLoadLen_enc)
  have "rdbLoadLzfStringObject can_alloc junk (enc_len (length ?d) @ enc_len (length s) @ ?d @ rest) flags =
    Some (Inr (if flags = RDB_LOAD_PLAIN then Plain s else if flags = RDB_LOAD_SDS then Sds s
                             else Obj (createRawStringObject s), rest))"
    using c l(2) z u e by (simp add: rdbLoadLzfStringObject_def or_null_def rioRead_append)
  then show "\<exists>v. rdbGenericLoadStringObject can_alloc junk share (lzf_blob ?d (length s) @ rest) flags = Some (Inr (v, rest)) \<and> value_bytes v = s"
    using enc_header [of 3 "enc_len (length ?d) @ enc_len (length s) @ ?d @ rest"]
    by (auto simp: rdbGenericLoadStringObject_def lzf_blob_def lzf_header RDB_ENC_INT8_def RDB_ENC_INT16_def RDB_ENC_INT32_def RDB_ENC_LZF_def
        createRawStringObject_def obj_bytes_def)
qed

lemma verbatim_loads:
  assumes "length s < 2 ^ 64 - 1"
  shows "loads_as (enc_len (length s) @ s) s"
  using rdbLoadLen_enc [OF assms] createStringObject_ok [of s]
  by (auto simp: loads_as_def rdbGenericLoadStringObject_def or_null_def rioRead_append createRawStringObject_def obj_bytes_def)

section \<open>The round trip of strings\<close>

text \<open>A saver writes the octets \<open>bs\<close>, the same whatever the stream, and returns their number.\<close>

definition saves :: "(rio option \<Rightarrow> (rio option \<times> int) option) \<Rightarrow> mem \<Rightarrow> bool" where
  "saves save bs \<longleftrightarrow> (\<forall>r. \<exists>w. save (Some r) = Some w \<and> appends r bs (length bs) w)"

lemma rdbSaveLzfStringObject_ok:
  assumes "20 < length s" "length s < 2 ^ 32"
  shows "(\<forall>rdb. rdbSaveLzfStringObject htab junk rdb s = Some (rdb, 0)) \<or>
    (\<exists>bs. saves (\<lambda>rdb. rdbSaveLzfStringObject htab junk rdb s) bs \<and> bs \<noteq> [] \<and> loads_as bs s)"
proof -
  have u: "u32 (length s) = length s" "u32 (length s - 4) = length s - 4" using assms(2) by (simp_all add: u32_def)
  let ?out = "replicate (length s - 4) junk"
  have a: "2 \<le> length s" "\<not> length s \<le> 4" using assms(1) by simp_all
  obtain k out' where k: "lzf_compress htab s ?out = Some (k, out')" "length out' = length ?out" "k \<le> length ?out"
    and t: "k \<noteq> 0 \<longrightarrow> (\<exists>ts. take k out' = enc_toks ts \<and> toks_ok [] ts \<and> exec_toks [] ts = s)"
    using lzf_compress_ok [OF a(1) assms(2), of htab ?out] by blast
  show ?thesis
  proof (cases "k = 0")
    case True
    then show ?thesis using k(1) u a by (simp add: rdbSaveLzfStringObject_def)
  next
    case False
    then obtain ts where ts: "take k out' = enc_toks ts" "toks_ok [] ts" "exec_toks [] ts = s" using t by blast
    have l: "length (enc_toks ts) \<le> length s" using k(2,3) ts(1) [symmetric] by simp
    have "saves (\<lambda>rdb. rdbSaveLzfStringObject htab junk rdb s) (lzf_blob (enc_toks ts) (length s))"
      using rdbSaveLzfBlob_appends [of _ "enc_toks ts" "length s"] k(1) u a False ts(1)
      by (simp add: saves_def rdbSaveLzfStringObject_def)
    moreover have "loads_as (lzf_blob (enc_toks ts) (length s)) s" by (rule lzf_blob_loads [OF ts(2,3) assms(2) l])
    ultimately show ?thesis by (auto simp: lzf_blob_def)
  qed
qed

lemma verbatim_appends:
  "appends r (enc_len (length s) @ s) (length (enc_len (length s) @ s)) (or_fail (rdbSaveLen (Some r) (length s)) (\<lambda>rdb n.
     if length s > 0 then or_fail (rdbWriteRaw rdb s) (\<lambda>rdb _. (rdb, n + int (length s))) else (rdb, n)))"
proof (rule appends_bind [OF rdbSaveLen_appends])
  let ?r = "push r (enc_len (length s))"
  show "appends ?r s (length (enc_len (length s) @ s))
    (if length s > 0 then or_fail (rdbWriteRaw (Some ?r) s) (\<lambda>rdb _. (rdb, int (length (enc_len (length s))) + int (length s)))
     else (Some ?r, int (length (enc_len (length s)))))"
    using appends_last [OF appends_raw [OF refl], of ?r s "length (enc_len (length s) @ s)"] appends_done by (cases s) (auto simp: algebra_simps)
qed

lemma rdbSaveRawString_ok:
  assumes "length s < 2 ^ 32"
  shows "\<exists>bs. saves (\<lambda>rdb. rdbSaveRawString htab junk c rdb s) bs \<and> loads_as bs s"
proof -
  let ?enc = "if length s \<le> 11 then rdbTryIntegerEncoding s else Some None"
  have "?enc = Some None \<or> (\<exists>v bs. ?enc = Some (Some bs) \<and> rdbEncodeInteger v = Some bs \<and> s = dec_int v)"
    using rdbTryIntegerEncoding_ok [of s] by (cases "length s \<le> 11") (simp_all only: if_True if_False simp_thms)
  then consider v bs where "?enc = Some (Some bs)" "rdbEncodeInteger v = Some bs" "s = dec_int v" | "?enc = Some None"
    by blast
  then show ?thesis
  proof cases
    case (1 v bs)
    have "saves (\<lambda>rdb. rdbSaveRawString htab junk c rdb s) bs"
      unfolding saves_def rdbSaveRawString_def 1(1)
      using appends_last [OF appends_raw [OF refl], of _ bs "length bs"] by simp
    then show ?thesis using encode_integer_loads [OF 1(2)] 1(3) by blast
  next
    case 2
    let ?z = "\<lambda>rdb. if c \<and> length s > 20 then rdbSaveLzfStringObject htab junk rdb s else Some (rdb, 0)"
    have v: "loads_as (enc_len (length s) @ s) s" using assms by (intro verbatim_loads) simp
    consider "\<forall>rdb. ?z rdb = Some (rdb, 0)" | bs where "saves ?z bs" "bs \<noteq> []" "loads_as bs s"
      using rdbSaveLzfStringObject_ok [of s htab junk] assms by (cases "c \<and> length s > 20") auto
    then show ?thesis
    proof cases
      case 1
      then have "saves (\<lambda>rdb. rdbSaveRawString htab junk c rdb s) (enc_len (length s) @ s)"
        using 2 verbatim_appends [of _ s] by (simp add: saves_def rdbSaveRawString_def)
      then show ?thesis using v by blast
    next
      case (2 bs)
      have "\<exists>w. rdbSaveRawString htab junk c (Some r) s = Some w \<and> appends r bs (length bs) w" for r
      proof -
        obtain w where w: "?z (Some r) = Some w" "appends r bs (length bs) w" using 2(1) unfolding saves_def by blast
        moreover have "snd w = - 1 \<or> snd w > 0" using w(2) 2(2) by (auto simp: appends_def split: if_splits)
        ultimately show ?thesis unfolding rdbSaveRawString_def \<open>?enc = Some None\<close> w(1) by (cases w) (auto simp: appends_def split: if_splits)
      qed
      then show ?thesis using 2(3) by (auto simp: saves_def)
    qed
  qed
qed

lemma rdbSaveStringObject_ok:
  assumes "obj_ok obj" "length (obj_bytes obj) < 2 ^ 32"
  shows "\<exists>bs. saves (\<lambda>rdb. rdbSaveStringObject htab junk c rdb obj) bs \<and> loads_as bs (obj_bytes obj)"
proof (cases "enc obj")
  case (Raw s a)
  then show ?thesis using rdbSaveRawString_ok [of s htab junk c] assms(2) by (simp add: rdbSaveStringObject_def obj_bytes_def)
next
  case (Embstr s)
  then show ?thesis using rdbSaveRawString_ok [of s htab junk c] assms(2) by (simp add: rdbSaveStringObject_def obj_bytes_def)
next
  case (EncInt v)
  then have i: "in_int64 v" and b: "obj_bytes obj = dec_int v" using assms(1) by (simp_all add: obj_ok_def obj_bytes_def)
  show ?thesis
  proof (cases "rdbEncodeInteger v")
    case None
    let ?bs = "enc_len (length (dec_int v)) @ dec_int v"
    have "appends r ?bs (length ?bs) (or_fail (rdbSaveLen (Some r) (length (dec_int v))) (\<lambda>rdb n1.
         or_fail (rdbWriteRaw rdb (dec_int v)) (\<lambda>rdb n2. (rdb, n1 + n2))))" for r
      using appends_sum [OF appends_raw [OF refl], where bs = "dec_int v" and k = "length (enc_len (length (dec_int v)))"]
      by (intro appends_bind [OF rdbSaveLen_appends]) simp
    then have "saves (\<lambda>rdb. rdbSaveStringObject htab junk c rdb obj) ?bs"
      using EncInt None i by (simp add: saves_def rdbSaveStringObject_def rdbSaveLongLongAsStringObject_def ll_buf_dec)
    moreover have "loads_as ?bs (dec_int v)" using assms(2) b by (intro verbatim_loads) simp
    ultimately show ?thesis using b by auto
  next
    case (Some bs)
    then have "saves (\<lambda>rdb. rdbSaveStringObject htab junk c rdb obj) bs"
      using EncInt appends_raw [OF refl, of _ bs] by (simp add: saves_def rdbSaveStringObject_def rdbSaveLongLongAsStringObject_def)
    then show ?thesis using encode_integer_loads [OF Some] b by auto
  qed
qed

section \<open>Reading what was never written\<close>

lemma rioRead_used: "rioRead n s = Inr (b, rest) \<Longrightarrow> s = b @ rest \<and> length b = n"
  by (auto simp: rioRead_def split: if_splits)

lemma rdbLoadLen_used:
  assumes "rdbLoadLen s = Inr (x, rest)"
  shows "\<exists>used. s = used @ rest \<and> used \<noteq> []"
proof -
  obtain b where b: "rdbLoadLenByRef s = Inr (b, rest)"
    using assms by (auto simp: rdbLoadLen_def or_null_def split: sum.splits prod.splits if_splits)
  then obtain c s1 where c: "rioRead 1 s = Inr (c, s1)"
    by (auto simp: rdbLoadLenByRef_def or_null_def split: sum.splits)
  have "\<exists>d. s1 = d @ rest" using b c
    by (auto simp: rdbLoadLenByRef_def or_null_def Let_def dest!: rioRead_used split: sum.splits if_splits)
  then show ?thesis using rioRead_used [OF c] by (metis append.assoc append_is_Nil_conv length_0_conv zero_neq_one)
qed

definition load_result :: "mem \<Rightarrow> (rdb_error + 'a \<times> mem) option \<Rightarrow> bool" where
  "load_result s r \<longleftrightarrow> (\<exists>q. r = Some q \<and> (\<forall>v rest. q = Inr (v, rest) \<longrightarrow> (\<exists>used. s = used @ rest)))"

lemma load_result_simps [simp]:
  "load_result s (Some (Inl e))" "load_result s (Some (Inr (v, rest))) \<longleftrightarrow> (\<exists>used. s = used @ rest)"
  by (auto simp: load_result_def)

lemma load_result_append: "load_result s r \<Longrightarrow> load_result (used @ s) r"
  by (auto simp: load_result_def)

lemma load_result_if [simp]:
  "load_result s (if c then a else b) \<longleftrightarrow> (if c then load_result s a else load_result s b)"
  by simp

lemma le_sint_int64: "b \<noteq> [] \<Longrightarrow> length b \<le> 4 \<Longrightarrow> in_int64 (le_sint b)"
proof -
  assume b: "b \<noteq> []" "length b \<le> 4"
  have "(256 :: int) ^ length b \<le> 256 ^ 4" using b(2) by (intro power_increasing) auto
  then show ?thesis using le_sint_bounds [OF b(1)] by (simp add: in_int64_def)
qed

lemma rdbLoadIntegerObject_result: "load_result s (rdbLoadIntegerObject share s enctype flags)"
proof -
  let ?val = "if enctype = RDB_ENC_INT8 then or_null (rioRead 1 s) (\<lambda>b s. Inr (le_sint b, s))
     else if enctype = RDB_ENC_INT16 then or_null (rioRead 2 s) (\<lambda>b s. Inr (le_sint b, s))
     else if enctype = RDB_ENC_INT32 then or_null (rioRead 4 s) (\<lambda>b s. Inr (le_sint b, s))
     else Inl CorruptRDB"
  have v: "in_int64 v \<and> (\<exists>used. s = used @ rest)" if a: "?val = Inr (v, rest)" for v rest
  proof -
    obtain n b where "n = 1 \<or> n = 2 \<or> n = 4" "rioRead n s = Inr (b, rest)" "v = le_sint b"
      using a by (auto simp: or_null_def split: if_splits sum.splits)
    then show ?thesis using le_sint_int64 [of b] rioRead_used [of n s b rest] by (cases b) auto
  qed
  show ?thesis
  proof (cases ?val)
    case (Inr x)
    obtain w rest where x: "x = (w, rest)" by fastforce
    then show ?thesis using Inr v [of w rest] by (simp add: rdbLoadIntegerObject_def ll_buf_dec)
  qed (simp add: rdbLoadIntegerObject_def)
qed

lemma rdbLoadLzfStringObject_result: "load_result s (rdbLoadLzfStringObject can_alloc junk s flags)"
proof -
  let ?val = "or_null (rdbLoadLen s) (\<lambda>(_, clen) s. or_null (rdbLoadLen s) (\<lambda>(_, len) s. Inr ((clen, len), s)))"
  show ?thesis
  proof (cases ?val)
    case (Inr x)
    then obtain clen len rest where x: "x = ((clen, len), rest)" by (metis prod.exhaust)
    have "\<exists>used. s = used @ rest" using Inr x
      by (auto simp: or_null_def dest!: rdbLoadLen_used split: sum.splits prod.splits)
    then obtain used where u: "s = used @ rest" by blast
    show ?thesis
    proof (cases "rioRead clen rest")
      case (Inl e)
      then show ?thesis using Inr x by (simp add: rdbLoadLzfStringObject_def)
    next
      case (Inr y)
      then obtain c rest' where y: "rioRead clen rest = Inr (c, rest')" by (metis prod.exhaust)
      obtain r where "lzf_decompress (take (u32 clen) c) (replicate (u32 len) junk) = Some r"
        using lzfd_loop_Some [of 0 "replicate (u32 len) junk" "take (u32 clen) c" 0] by (auto simp: lzf_decompress_def)
      then show ?thesis using \<open>?val = Inr x\<close> x y u rioRead_used [OF y]
        by (cases r) (auto simp: rdbLoadLzfStringObject_def)
    qed
  qed (simp add: rdbLoadLzfStringObject_def)
qed

lemma rdbGenericLoadStringObject_result: "load_result s (rdbGenericLoadStringObject can_alloc junk share s flags)"
proof (cases "rdbLoadLen s")
  case (Inr x)
  obtain e len rest where x: "x = ((e, len), rest)" by (metis prod.exhaust)
  obtain used where u: "s = used @ rest" using rdbLoadLen_used Inr x by blast
  have v: "load_result rest (Some (or_null (rioRead len rest) (\<lambda>buf s. Inr (f buf, s))))" for f :: "mem \<Rightarrow> rdb_value"
    by (auto simp: or_null_def dest!: rioRead_used split: sum.splits)
  have "load_result rest (rdbGenericLoadStringObject can_alloc junk share s flags)"
    unfolding rdbGenericLoadStringObject_def Inr x sum.case prod.case load_result_if
    by (simp only: v rdbLoadIntegerObject_result rdbLoadLzfStringObject_result load_result_simps if_cancel)
  then show ?thesis using u load_result_append by blast
qed (simp add: rdbGenericLoadStringObject_def)

section \<open>Properties\<close>




text \<open>
  C27: a length below \<open>2 ^ 64 - 1\<close> is written in one, two, five or nine octets and read back;
  so is every sequence of lengths.
\<close>

theorem rdb_length_roundtrip:
  assumes "list_all (\<lambda>len. len < 2 ^ 64 - 1) lens"
  shows "\<exists>bss. list_all2 (\<lambda>len bs. length bs \<in> {1, 2, 5, 9} \<and>
       (\<forall>r. 9 \<le> room r \<longrightarrow> rdbSaveLen (Some r) len =
          (Some \<lparr>written = written r @ bs, room = room r - length bs\<rparr>, int (length bs)))) lens bss \<and>
    decode_n rdbLoadLen (length lens) (concat bss @ rest) = Inr (map (Pair False) lens, rest)"
proof -
  have l: "length (enc_len len) \<in> {1, 2, 5, 9}" for len by (simp add: enc_len_def be_bytes_def)
  have a: "rdbSaveLen (Some r) len = (Some \<lparr>written = written r @ enc_len len, room = room r - length (enc_len len)\<rparr>,
      int (length (enc_len len)))" if "9 \<le> room r" for r len
    using rdbSaveLen_appends [of r len] l [of len] that by (auto simp: appends_def push_def)
  have "list_all2 (\<lambda>len y. y = (False, len)) lens ys \<longleftrightarrow> ys = map (Pair False) lens" for ys
    by (auto simp: list_all2_conv_all_nth intro: nth_equalityI)
  then have "decode_n rdbLoadLen (length lens) (concat (map enc_len lens) @ rest) = Inr (map (Pair False) lens, rest)"
    using rdb_length.decode_list [OF assms, of rest] by auto
  moreover have "list_all2 (\<lambda>len bs. length bs \<in> {1, 2, 5, 9} \<and>
       (\<forall>r. 9 \<le> room r \<longrightarrow> rdbSaveLen (Some r) len =
          (Some \<lparr>written = written r @ bs, room = room r - length bs\<rparr>, int (length bs)))) lens (map enc_len lens)"
    using l a by (simp add: list_all2_conv_all_nth)
  ultimately show ?thesis by blast
qed

theorem rdb_length_roundtrip_witness:
  "\<exists>bss. decode_n rdbLoadLen 3 (concat bss @ [9]) = Inr (map (Pair False) [5, 300, 70000], [9])"
  using rdb_length_roundtrip [of "[5, 300, 70000]" "[9]"] by (auto simp: numeral_3_eq_3)

definition valid_encoding :: "obj_type \<Rightarrow> obj_encoding \<Rightarrow> bool" where
  "valid_encoding t e \<longleftrightarrow> (case t of
     OBJ_STRING \<Rightarrow> e \<in> {OBJ_ENCODING_RAW, OBJ_ENCODING_INT, OBJ_ENCODING_EMBSTR}
   | OBJ_LIST \<Rightarrow> e = OBJ_ENCODING_QUICKLIST
   | OBJ_SET \<Rightarrow> e \<in> {OBJ_ENCODING_INTSET, OBJ_ENCODING_HT}
   | OBJ_ZSET \<Rightarrow> e \<in> {OBJ_ENCODING_ZIPLIST, OBJ_ENCODING_SKIPLIST}
   | OBJ_HASH \<Rightarrow> e \<in> {OBJ_ENCODING_ZIPLIST, OBJ_ENCODING_HT}
   | OBJ_STREAM \<Rightarrow> e = OBJ_ENCODING_STREAM
   | OBJ_MODULE \<Rightarrow> e = OBJ_ENCODING_RAW)"

text \<open>The octet a type and encoding are saved as.\<close>

definition type_octet :: "obj_type \<Rightarrow> obj_encoding \<Rightarrow> mem" where
  "type_octet t e = (case rdbSaveObjectType (Some \<lparr>written = [], room = 1\<rparr>) t e of
     Some (Some r, _) \<Rightarrow> written r | _ \<Rightarrow> [])"

lemmas rdb_types = RDB_TYPE_STRING_def RDB_TYPE_SET_def RDB_TYPE_HASH_def RDB_TYPE_ZSET_2_def RDB_TYPE_MODULE_2_def
  RDB_TYPE_SET_INTSET_def RDB_TYPE_ZSET_ZIPLIST_def RDB_TYPE_HASH_ZIPLIST_def RDB_TYPE_LIST_QUICKLIST_def
  RDB_TYPE_STREAM_LISTPACKS_def

lemmas type_saving = type_octet_def rdbSaveType_def rdbWriteRaw_def rdb_types

lemma rdbLoadObjectType_octet:
  "valid_encoding t e \<Longrightarrow> \<exists>b. type_octet t e = [b] \<and> rdbLoadObjectType (b # rest) = Inr (b, rest)"
  by (cases t) (auto simp: valid_encoding_def type_saving rdbLoadObjectType_def rdbLoadType_def or_null_def rioRead_one rdbIsObjectType_def)

lemma type_octet_inj:
  assumes "valid_encoding t e" "valid_encoding t' e'" "type_octet t e = type_octet t' e'"
  shows "t = t' \<and> (t = OBJ_STRING \<or> e = e')"
  using assms by (cases t; cases t') (auto simp: valid_encoding_def type_saving)

text \<open>
  C28: each type and encoding that an object of the data set can have is saved, without a panic, as
  one octet; loading accepts it as the type of an object, and it determines the type and, except for
  strings, the encoding.
\<close>

theorem rdb_object_type_sound:
  assumes "valid_encoding t e" "valid_encoding t' e'"
  shows "(\<exists>b. type_octet t e = [b] \<and> rdbLoadObjectType (b # rest) = Inr (b, rest)) \<and>
    (type_octet t e = type_octet t' e' \<longrightarrow> t = t' \<and> (t = OBJ_STRING \<or> e = e'))"
  using rdbLoadObjectType_octet [OF assms(1)] type_octet_inj [OF assms] by blast

theorem rdb_object_type_sound_witness:
  "\<exists>b. type_octet OBJ_ZSET OBJ_ENCODING_SKIPLIST = [b] \<and> rdbLoadObjectType [b, 1] = Inr (b, [1])"
  using rdb_object_type_sound [of OBJ_ZSET OBJ_ENCODING_SKIPLIST OBJ_HASH OBJ_ENCODING_HT "[1]"] by (auto simp: valid_encoding_def)

end
