(* ===== verification/Sds.thy ===== *)
theory Sds
  imports Glob Objects
begin

text \<open>
  The dynamic strings of \<open>sds.c\<close> and \<open>sds.h\<close>: a header of one of five widths, the length, the
  allocated size and the octets with a terminating zero. A string is the record of its header and its
  buffer, and an access outside of the buffer gives \<open>None\<close>, as does a failing \<open>assert\<close>.

  The allocator is a parameter: \<open>usable n\<close> is the size of the block that a request for \<open>n\<close> octets
  returns and \<open>junk\<close> what a fresh block holds. Running out of memory, which ends the process, is not
  modelled. \<open>size_t\<close> arithmetic wraps at \<open>2 ^ 64\<close> where the source computes sizes.
\<close>

section \<open>Headers\<close>

datatype sds_hdr = SDS_TYPE_5 | SDS_TYPE_8 | SDS_TYPE_16 | SDS_TYPE_32 | SDS_TYPE_64

definition u64 :: "nat \<Rightarrow> nat" where "u64 n = n mod 2 ^ 64"

primrec sdsHdrSize :: "sds_hdr \<Rightarrow> nat" where
  "sdsHdrSize SDS_TYPE_5 = 1"
| "sdsHdrSize SDS_TYPE_8 = 3"
| "sdsHdrSize SDS_TYPE_16 = 5"
| "sdsHdrSize SDS_TYPE_32 = 9"
| "sdsHdrSize SDS_TYPE_64 = 17"

definition sdsReqType :: "nat \<Rightarrow> sds_hdr" where
  "sdsReqType string_size =
     (if string_size < 2 ^ 5 then SDS_TYPE_5
      else if string_size < 2 ^ 8 then SDS_TYPE_8
      else if string_size < 2 ^ 16 then SDS_TYPE_16
      else if string_size < 2 ^ 32 then SDS_TYPE_32
      else SDS_TYPE_64)"

primrec sdsTypeMaxSize :: "sds_hdr \<Rightarrow> nat" where
  "sdsTypeMaxSize SDS_TYPE_5 = 2 ^ 5 - 1"
| "sdsTypeMaxSize SDS_TYPE_8 = 2 ^ 8 - 1"
| "sdsTypeMaxSize SDS_TYPE_16 = 2 ^ 16 - 1"
| "sdsTypeMaxSize SDS_TYPE_32 = 2 ^ 32 - 1"
| "sdsTypeMaxSize SDS_TYPE_64 = 2 ^ 64 - 1"

text \<open>\<open>sds_alloc\<close> is not stored for \<open>SDS_TYPE_5\<close>. The buffer starts at the first octet of the string.\<close>

record sds =
  sds_flags :: sds_hdr
  sds_len :: nat
  sds_alloc :: nat
  sds_buf :: mem

definition sdslen :: "sds \<Rightarrow> nat" where
  "sdslen s = sds_len s"

definition sdsavail :: "sds \<Rightarrow> nat" where
  "sdsavail s = (case sds_flags s of
     SDS_TYPE_5 \<Rightarrow> 0
   | SDS_TYPE_32 \<Rightarrow> u32_sub (sds_alloc s) (sds_len s)
   | _ \<Rightarrow> nat ((int (sds_alloc s) - int (sds_len s)) mod 2 ^ 64))"

text \<open>A value is cut to the width of the field it is stored in.\<close>

definition hdr_field :: "sds_hdr \<Rightarrow> nat \<Rightarrow> nat" where
  "hdr_field t n = n mod (sdsTypeMaxSize t + 1)"

definition sdssetlen :: "sds \<Rightarrow> nat \<Rightarrow> sds" where
  "sdssetlen s newlen = s\<lparr>sds_len := hdr_field (sds_flags s) newlen\<rparr>"

definition sdsinclen :: "sds \<Rightarrow> nat \<Rightarrow> sds" where
  "sdsinclen s n = s\<lparr>sds_len := hdr_field (sds_flags s) (sds_len s + n)\<rparr>"

definition sdsalloc :: "sds \<Rightarrow> nat" where
  "sdsalloc s = (if sds_flags s = SDS_TYPE_5 then sds_len s else sds_alloc s)"

definition sdssetalloc :: "sds \<Rightarrow> nat \<Rightarrow> sds" where
  "sdssetalloc s newlen = (if sds_flags s = SDS_TYPE_5 then s else s\<lparr>sds_alloc := hdr_field (sds_flags s) newlen\<rparr>)"

text \<open>Writing octets of the buffer.\<close>

definition sds_write :: "nat \<Rightarrow> mem \<Rightarrow> sds \<Rightarrow> sds option" where
  "sds_write i bs s = map_option (\<lambda>b. s\<lparr>sds_buf := b\<rparr>) (mem_write i bs (sds_buf s))"

section \<open>Creation\<close>

text \<open>What \<open>init\<close> points to: \<open>NULL\<close>, \<open>SDS_NOINIT\<close> or octets.\<close>

datatype sds_init = Zeros | NoInit | Octets mem

definition sdsnewlen_gen :: "(nat \<Rightarrow> nat) \<Rightarrow> byte \<Rightarrow> sds_init \<Rightarrow> nat \<Rightarrow> sds option" where
  "sdsnewlen_gen usable junk init initlen =
     (let type = (if sdsReqType initlen = SDS_TYPE_5 \<and> initlen = 0 then SDS_TYPE_8 else sdsReqType initlen);
          hdrlen = sdsHdrSize type in
      if \<not> u64 (initlen + hdrlen + 1) > initlen then None
      else do {
        let u = usable (hdrlen + initlen + 1);
        let b = (if init = Zeros then replicate (initlen + 1) 0 @ replicate (u - hdrlen - (initlen + 1)) junk
                 else replicate (u - hdrlen) junk);
        let alloc = min (u - hdrlen - 1) (sdsTypeMaxSize type);
        let s = \<lparr>sds_flags = type, sds_len = hdr_field type initlen, sds_alloc = hdr_field type alloc, sds_buf = b\<rparr>;
        s \<leftarrow> (case init of Octets p \<Rightarrow> do { bs \<leftarrow> mem_read 0 initlen p; sds_write 0 bs s } | _ \<Rightarrow> Some s);
        sds_write initlen [0] s
      })"

definition sdsnewlen :: "(nat \<Rightarrow> nat) \<Rightarrow> byte \<Rightarrow> sds_init \<Rightarrow> nat \<Rightarrow> sds option" where
  "sdsnewlen usable junk init initlen = sdsnewlen_gen usable junk init initlen"

text \<open>The inner \<open>None\<close> is the \<open>NULL\<close> of a failed allocation.\<close>

definition sdstrynewlen :: "(nat \<Rightarrow> bool) \<Rightarrow> (nat \<Rightarrow> nat) \<Rightarrow> byte \<Rightarrow> sds_init \<Rightarrow> nat \<Rightarrow> sds option option" where
  "sdstrynewlen can_alloc usable junk init initlen =
     (let type = (if sdsReqType initlen = SDS_TYPE_5 \<and> initlen = 0 then SDS_TYPE_8 else sdsReqType initlen) in
      if u64 (initlen + sdsHdrSize type + 1) > initlen \<and> \<not> can_alloc (sdsHdrSize type + initlen + 1) then Some None
      else map_option Some (sdsnewlen_gen usable junk init initlen))"

definition sdsempty :: "(nat \<Rightarrow> nat) \<Rightarrow> byte \<Rightarrow> sds option" where
  "sdsempty usable junk = sdsnewlen usable junk (Octets []) 0"

text \<open>A C string: the octets before the first zero.\<close>

definition cstring :: "mem \<Rightarrow> mem" where
  "cstring p = takeWhile (\<lambda>c. c \<noteq> 0) p"

definition sdsnew :: "(nat \<Rightarrow> nat) \<Rightarrow> byte \<Rightarrow> mem option \<Rightarrow> sds option" where
  "sdsnew usable junk init = (case init of
     None \<Rightarrow> sdsnewlen usable junk Zeros 0
   | Some p \<Rightarrow> sdsnewlen usable junk (Octets p) (length (cstring p)))"

definition sdsdup :: "(nat \<Rightarrow> nat) \<Rightarrow> byte \<Rightarrow> sds \<Rightarrow> sds option" where
  "sdsdup usable junk s = sdsnewlen usable junk (Octets (sds_buf s)) (sdslen s)"

definition sdsupdatelen :: "sds \<Rightarrow> sds" where
  "sdsupdatelen s = sdssetlen s (length (cstring (sds_buf s)))"

definition sdsclear :: "sds \<Rightarrow> sds option" where
  "sdsclear s = sds_write 0 [0] (sdssetlen s 0)"

section \<open>Room at the end\<close>

definition SDS_MAX_PREALLOC :: nat where "SDS_MAX_PREALLOC = 1024 * 1024"

definition sdsMakeRoomFor :: "(nat \<Rightarrow> nat) \<Rightarrow> byte \<Rightarrow> sds \<Rightarrow> nat \<Rightarrow> sds option" where
  "sdsMakeRoomFor usable junk s addlen =
     (let avail = sdsavail s; oldtype = sds_flags s; len = sdslen s in
      if avail \<ge> addlen then Some s
      else let newlen = u64 (len + addlen) in
      if \<not> newlen > len then None
      else let newlen = (if newlen < SDS_MAX_PREALLOC then newlen * 2 else u64 (newlen + SDS_MAX_PREALLOC));
               type = (if sdsReqType newlen = SDS_TYPE_5 then SDS_TYPE_8 else sdsReqType newlen);
               hdrlen = sdsHdrSize type in
      if \<not> u64 (hdrlen + newlen + 1) > len then None
      else do {
        let u = usable (u64 (hdrlen + newlen + 1));
        s \<leftarrow> (if oldtype = type then Some (s\<lparr>sds_buf := mem_resize junk (u - hdrlen) (sds_buf s)\<rparr>)
             else do {
               bs \<leftarrow> mem_read 0 (len + 1) (sds_buf s);
               s \<leftarrow> sds_write 0 bs (s\<lparr>sds_buf := replicate (u - hdrlen) junk, sds_flags := type\<rparr>);
               Some (sdssetlen s len)
             });
        Some (sdssetalloc s (min (u - hdrlen - 1) (sdsTypeMaxSize type)))
      })"

definition hdr_code :: "sds_hdr \<Rightarrow> nat" where
  "hdr_code t = (case t of SDS_TYPE_5 \<Rightarrow> 0 | SDS_TYPE_8 \<Rightarrow> 1 | SDS_TYPE_16 \<Rightarrow> 2 | SDS_TYPE_32 \<Rightarrow> 3 | SDS_TYPE_64 \<Rightarrow> 4)"

definition sdsRemoveFreeSpace :: "(nat \<Rightarrow> nat) \<Rightarrow> byte \<Rightarrow> sds \<Rightarrow> sds option" where
  "sdsRemoveFreeSpace usable junk s =
     (let oldtype = sds_flags s; oldhdrlen = sdsHdrSize oldtype; len = sdslen s; type = sdsReqType len in
      if sdsavail s = 0 then Some s
      else do {
        s \<leftarrow> (if oldtype = type \<or> hdr_code type > hdr_code SDS_TYPE_8 then
               Some (s\<lparr>sds_buf := mem_resize junk (usable (oldhdrlen + len + 1) - oldhdrlen) (sds_buf s)\<rparr>)
             else do {
               bs \<leftarrow> mem_read 0 (len + 1) (sds_buf s);
               let hdrlen = sdsHdrSize type;
               s \<leftarrow> sds_write 0 bs (s\<lparr>sds_buf := replicate (usable (hdrlen + len + 1) - hdrlen) junk, sds_flags := type\<rparr>);
               Some (sdssetlen s len)
             });
        Some (sdssetalloc s len)
      })"

definition sdsAllocSize :: "sds \<Rightarrow> nat" where
  "sdsAllocSize s = sdsHdrSize (sds_flags s) + sdsalloc s + 1"

definition sdsIncrLen :: "sds \<Rightarrow> int \<Rightarrow> sds option" where
  "sdsIncrLen s incr =
     (let len = int (sds_len s); alloc = int (sds_alloc s);
          ok = (case sds_flags s of
             SDS_TYPE_5 \<Rightarrow> (incr > 0 \<and> len + incr < 32) \<or> (incr < 0 \<and> sds_len s \<ge> to_u32 (- incr))
           | SDS_TYPE_32 \<Rightarrow> (incr \<ge> 0 \<and> u32_sub (sds_alloc s) (sds_len s) \<ge> to_u32 incr) \<or> (incr < 0 \<and> sds_len s \<ge> to_u32 (- incr))
           | SDS_TYPE_64 \<Rightarrow> (incr \<ge> 0 \<and> (alloc - len) mod 2 ^ 64 \<ge> incr) \<or> (incr < 0 \<and> len \<ge> - incr)
           | _ \<Rightarrow> (incr \<ge> 0 \<and> alloc - len \<ge> incr) \<or> (incr < 0 \<and> sds_len s \<ge> to_u32 (- incr)));
          newlen = nat ((len + incr) mod (int (sdsTypeMaxSize (sds_flags s)) + 1)) in
      if \<not> ok then None else sds_write newlen [0] (s\<lparr>sds_len := newlen\<rparr>))"

definition sdsgrowzero :: "(nat \<Rightarrow> nat) \<Rightarrow> byte \<Rightarrow> sds \<Rightarrow> nat \<Rightarrow> sds option" where
  "sdsgrowzero usable junk s len =
     (let curlen = sdslen s in
      if len \<le> curlen then Some s
      else do {
        s \<leftarrow> sdsMakeRoomFor usable junk s (len - curlen);
        s \<leftarrow> sds_write curlen (replicate (len - curlen + 1) 0) s;
        Some (sdssetlen s len)
      })"

section \<open>Appending and copying\<close>

text \<open>\<open>t\<close> is the \<open>len\<close> octets that are appended.\<close>

definition sdscatlen :: "(nat \<Rightarrow> nat) \<Rightarrow> byte \<Rightarrow> sds \<Rightarrow> mem \<Rightarrow> sds option" where
  "sdscatlen usable junk s t = do {
     let curlen = sdslen s;
     s \<leftarrow> sdsMakeRoomFor usable junk s (length t);
     s \<leftarrow> sds_write curlen t s;
     sds_write (curlen + length t) [0] (sdssetlen s (curlen + length t))
   }"

definition sdscat :: "(nat \<Rightarrow> nat) \<Rightarrow> byte \<Rightarrow> sds \<Rightarrow> mem \<Rightarrow> sds option" where
  "sdscat usable junk s t = sdscatlen usable junk s (cstring t)"

definition sdscatsds :: "(nat \<Rightarrow> nat) \<Rightarrow> byte \<Rightarrow> sds \<Rightarrow> sds \<Rightarrow> sds option" where
  "sdscatsds usable junk s t = do { bs \<leftarrow> mem_read 0 (sdslen t) (sds_buf t); sdscatlen usable junk s bs }"

definition sdscpylen :: "(nat \<Rightarrow> nat) \<Rightarrow> byte \<Rightarrow> sds \<Rightarrow> mem \<Rightarrow> sds option" where
  "sdscpylen usable junk s t = do {
     s \<leftarrow> (if sdsalloc s < length t then sdsMakeRoomFor usable junk s (length t - sdslen s) else Some s);
     s \<leftarrow> sds_write 0 t s;
     s \<leftarrow> sds_write (length t) [0] s;
     Some (sdssetlen s (length t))
   }"

definition sdscpy :: "(nat \<Rightarrow> nat) \<Rightarrow> byte \<Rightarrow> sds \<Rightarrow> mem \<Rightarrow> sds option" where
  "sdscpy usable junk s t = sdscpylen usable junk s (cstring t)"

section \<open>Parts of a string\<close>

text \<open>\<open>strchr (cset, c)\<close> also finds the terminating zero of \<open>cset\<close>.\<close>

definition in_cset :: "mem \<Rightarrow> byte \<Rightarrow> bool" where
  "in_cset cset c \<longleftrightarrow> c \<in> set (cstring cset) \<or> c = 0"

definition sdstrim :: "sds \<Rightarrow> mem \<Rightarrow> sds option" where
  "sdstrim s cset = do {
     v \<leftarrow> mem_read 0 (sdslen s) (sds_buf s);
     let sp = length (takeWhile (in_cset cset) v);
     let ep = int (sdslen s) - 1 - int (length (takeWhile (in_cset cset) (rev (drop (sp + 1) v))));
     let len = (if int sp > ep then 0 else nat (ep - int sp + 1));
     bs \<leftarrow> mem_read sp len (sds_buf s);
     s \<leftarrow> (if sp \<noteq> 0 then sds_write 0 bs s else Some s);
     s \<leftarrow> sds_write len [0] s;
     Some (sdssetlen s len)
   }"

definition sdsrange :: "sds \<Rightarrow> int \<Rightarrow> int \<Rightarrow> sds option" where
  "sdsrange s start end =
     (let len = int (sdslen s) in
      if len = 0 then Some s
      else do {
        let start = (if start < 0 then max 0 (len + start) else start);
        let end = (if end < 0 then max 0 (len + end) else end);
        let newlen = (if start > end then 0 else end - start + 1);
        let newlen =
          (if newlen \<noteq> 0 then
             (if start \<ge> len then 0
              else if end \<ge> len then (if start > len - 1 then 0 else len - 1 - start + 1)
              else newlen)
           else newlen);
        s \<leftarrow> (if start \<noteq> 0 \<and> newlen \<noteq> 0 then do { bs \<leftarrow> mem_read (nat start) (nat newlen) (sds_buf s); sds_write 0 bs s } else Some s);
        s \<leftarrow> sds_write (nat newlen) [0] s;
        Some (sdssetlen s (nat newlen))
      })"

definition toupper :: "byte \<Rightarrow> byte" where
  "toupper c = (if ch CHR ''a'' \<le> c \<and> c \<le> ch CHR ''z'' then c - 32 else c)"

definition sdstolower :: "sds \<Rightarrow> sds option" where
  "sdstolower s = do { bs \<leftarrow> mem_read 0 (sdslen s) (sds_buf s); sds_write 0 (map tolower bs) s }"

definition sdstoupper :: "sds \<Rightarrow> sds option" where
  "sdstoupper s = do { bs \<leftarrow> mem_read 0 (sdslen s) (sds_buf s); sds_write 0 (map toupper bs) s }"

definition sdscmp :: "sds \<Rightarrow> sds \<Rightarrow> int" where
  "sdscmp s1 s2 =
     (let l1 = sdslen s1; l2 = sdslen s2;
          minlen = (if l1 < l2 then l1 else l2);
          cmp = memcmp (sds_buf s1) (sds_buf s2) minlen in
      if cmp = 0 then (if l1 > l2 then 1 else if l1 < l2 then - 1 else 0) else cmp)"

text \<open>\<open>sdsmapchars\<close>: \<open>from\<close> and \<open>to\<close> are the \<open>setlen\<close> octets of the two sets.\<close>

fun map_char :: "mem \<Rightarrow> mem \<Rightarrow> byte \<Rightarrow> byte" where
  "map_char (f # fs) (t # ts) c = (if c = f then t else map_char fs ts c)"
| "map_char _ _ c = c"

definition sdsmapchars :: "sds \<Rightarrow> mem \<Rightarrow> mem \<Rightarrow> sds option" where
  "sdsmapchars s from to = do { bs \<leftarrow> mem_read 0 (sdslen s) (sds_buf s); sds_write 0 (map (map_char from to) bs) s }"

fun join_loop :: "(nat \<Rightarrow> nat) \<Rightarrow> byte \<Rightarrow> sds \<Rightarrow> mem list \<Rightarrow> mem \<Rightarrow> sds option" where
  "join_loop usable junk join [] sep = Some join"
| "join_loop usable junk join [a] sep = sdscat usable junk join a"
| "join_loop usable junk join (a # as) sep = do {
     join \<leftarrow> sdscat usable junk join a;
     join \<leftarrow> sdscat usable junk join sep;
     join_loop usable junk join as sep
   }"

definition sdsjoin :: "(nat \<Rightarrow> nat) \<Rightarrow> byte \<Rightarrow> mem list \<Rightarrow> mem \<Rightarrow> sds option" where
  "sdsjoin usable junk argv sep = do { join \<leftarrow> sdsempty usable junk; join_loop usable junk join argv sep }"

section \<open>Numbers\<close>

definition SDS_LLSTR_SIZE :: nat where "SDS_LLSTR_SIZE = 21"

fun rev_digits :: "nat \<Rightarrow> mem" where
  "rev_digits v = (ch CHR ''0'' + of_nat (v mod 10)) # (if v div 10 \<noteq> 0 then rev_digits (v div 10) else [])"

declare rev_digits.simps [simp del]

text \<open>\<open>s\<close> and \<open>p\<close> are the two ends that are exchanged.\<close>

function swap_loop :: "nat \<Rightarrow> nat \<Rightarrow> mem \<Rightarrow> mem option" where
  "swap_loop s p m =
     (if s < p then do {
        aux \<leftarrow> mem_get s m;
        b \<leftarrow> mem_get p m;
        m \<leftarrow> mem_put s b m;
        m \<leftarrow> mem_put p aux m;
        swap_loop (s + 1) (p - 1) m
      }
      else Some m)"
  by pat_completeness auto
termination
  by (relation "measure (\<lambda>(s, p, _). p - s)") auto

declare swap_loop.simps [simp del]

text \<open>The octets before the terminating zero, of a buffer of \<open>SDS_LLSTR_SIZE\<close>.\<close>

definition sdsll2str :: "int \<Rightarrow> mem option" where
  "sdsll2str value =
     (let m = rev_digits (nat \<bar>value\<bar>) @ (if value < 0 then [ch CHR ''-''] else []) in
      if length m + 1 > SDS_LLSTR_SIZE then None else swap_loop 0 (length m - 1) m)"

definition sdsull2str :: "nat \<Rightarrow> mem option" where
  "sdsull2str v = (let m = rev_digits v in if length m + 1 > SDS_LLSTR_SIZE then None else swap_loop 0 (length m - 1) m)"

definition sdsfromlonglong :: "(nat \<Rightarrow> nat) \<Rightarrow> byte \<Rightarrow> int \<Rightarrow> sds option" where
  "sdsfromlonglong usable junk value = do { b \<leftarrow> sdsll2str value; sdsnewlen usable junk (Octets b) (length b) }"

section \<open>Splitting at a separator\<close>

text \<open>\<open>NULL\<close> for an empty separator; the tokens are given by their octets.\<close>

function splitlen_loop :: "mem \<Rightarrow> mem \<Rightarrow> nat \<Rightarrow> nat \<Rightarrow> mem list \<Rightarrow> mem list" where
  "splitlen_loop s sep start j tokens =
     (if sep \<noteq> [] \<and> int j < int (length s) - (int (length sep) - 1) then
        (if (length sep = 1 \<and> s ! j = sep ! 0) \<or> memcmp (drop j s) sep (length sep) = 0 then
           splitlen_loop s sep (j + length sep) (j + length sep - 1 + 1) (tokens @ [take (j - start) (drop start s)])
         else splitlen_loop s sep start (j + 1) tokens)
      else tokens @ [drop start s])"
  by pat_completeness auto
termination
  by (relation "measure (\<lambda>(s, sep, start, j, tokens). length s - j)") (auto simp: neq_Nil_conv)

declare splitlen_loop.simps [simp del]

definition sdssplitlen :: "mem \<Rightarrow> mem \<Rightarrow> mem list option" where
  "sdssplitlen s sep =
     (if length sep < 1 then None
      else if length s = 0 then Some []
      else Some (splitlen_loop s sep 0 0 []))"

section \<open>Printing and parsing\<close>

definition isprint :: "byte \<Rightarrow> bool" where
  "isprint c \<longleftrightarrow> 32 \<le> c \<and> c \<le> 126"

definition hex_char :: "nat \<Rightarrow> byte" where
  "hex_char n = (if n < 10 then ch CHR ''0'' + of_nat n else ch CHR ''a'' + of_nat (n - 10))"

text \<open>What one octet is printed as.\<close>

definition repr_char :: "byte \<Rightarrow> mem" where
  "repr_char c =
     (if c = ch (CHR 0x5C) \<or> c = ch (CHR 0x22) then [ch (CHR 0x5C), c]
      else if c = 10 then [ch (CHR 0x5C), ch CHR ''n'']
      else if c = 13 then [ch (CHR 0x5C), ch CHR ''r'']
      else if c = 9 then [ch (CHR 0x5C), ch CHR ''t'']
      else if c = 7 then [ch (CHR 0x5C), ch CHR ''a'']
      else if c = 8 then [ch (CHR 0x5C), ch CHR ''b'']
      else if isprint c then [c]
      else [ch (CHR 0x5C), ch CHR ''x'', hex_char (unat c div 16), hex_char (unat c mod 16)])"

fun repr_loop :: "(nat \<Rightarrow> nat) \<Rightarrow> byte \<Rightarrow> sds \<Rightarrow> mem \<Rightarrow> sds option" where
  "repr_loop usable junk s [] = Some s"
| "repr_loop usable junk s (c # p) = do { s \<leftarrow> sdscatlen usable junk s (repr_char c); repr_loop usable junk s p }"

definition sdscatrepr :: "(nat \<Rightarrow> nat) \<Rightarrow> byte \<Rightarrow> sds \<Rightarrow> mem \<Rightarrow> sds option" where
  "sdscatrepr usable junk s p = do {
     s \<leftarrow> sdscatlen usable junk s [ch (CHR 0x22)];
     s \<leftarrow> repr_loop usable junk s p;
     sdscatlen usable junk s [ch (CHR 0x22)]
   }"

definition is_hex_digit :: "byte \<Rightarrow> bool" where
  "is_hex_digit c \<longleftrightarrow> (ch CHR ''0'' \<le> c \<and> c \<le> ch CHR ''9'') \<or> (ch CHR ''a'' \<le> c \<and> c \<le> ch CHR ''f'') \<or>
     (ch CHR ''A'' \<le> c \<and> c \<le> ch CHR ''F'')"

definition hex_digit_to_int :: "byte \<Rightarrow> nat" where
  "hex_digit_to_int c =
     (if ch CHR ''0'' \<le> c \<and> c \<le> ch CHR ''9'' then unat (c - ch CHR ''0'')
      else if ch CHR ''a'' \<le> c \<and> c \<le> ch CHR ''f'' then unat (c - ch CHR ''a'') + 10
      else if ch CHR ''A'' \<le> c \<and> c \<le> ch CHR ''F'' then unat (c - ch CHR ''A'') + 10
      else 0)"

text \<open>
  One token of \<open>sdssplitargs\<close>: the state of the quotes, the rest of the zero-terminated line, whose
  end is the terminator, and the octets of the token so far. \<open>None\<close> is the label \<open>err\<close>.
\<close>

datatype quotes = NoQuotes | InQuotes | InSingleQuotes

definition hex_escape :: "mem \<Rightarrow> bool" where
  "hex_escape p \<longleftrightarrow> (case p of c # h # l # _ \<Rightarrow> c = ch CHR ''x'' \<and> is_hex_digit h \<and> is_hex_digit l | _ \<Rightarrow> False)"

definition unescape :: "byte \<Rightarrow> byte" where
  "unescape c =
     (if c = ch CHR ''n'' then 10 else if c = ch CHR ''r'' then 13 else if c = ch CHR ''t'' then 9
      else if c = ch CHR ''b'' then 8 else if c = ch CHR ''a'' then 7 else c)"

definition token_end :: "mem \<Rightarrow> bool" where
  "token_end p \<longleftrightarrow> p = [] \<or> is_space (hd p)"

function split_token :: "quotes \<Rightarrow> mem \<Rightarrow> mem \<Rightarrow> (mem \<times> mem) option" where
  "split_token InQuotes [] current = None"
| "split_token InQuotes (c # p) current =
     (if c = ch (CHR 0x5C) \<and> hex_escape p then
        split_token InQuotes (drop 3 p) (current @ [of_nat (hex_digit_to_int (p ! 1) * 16 + hex_digit_to_int (p ! 2))])
      else if c = ch (CHR 0x5C) \<and> p \<noteq> [] then split_token InQuotes (tl p) (current @ [unescape (hd p)])
      else if c = ch (CHR 0x22) then (if \<not> token_end p then None else Some (current, p))
      else split_token InQuotes p (current @ [c]))"
| "split_token InSingleQuotes [] current = None"
| "split_token InSingleQuotes (c # p) current =
     (if c = ch (CHR 0x5C) \<and> p \<noteq> [] \<and> hd p = ch (CHR 0x27) then split_token InSingleQuotes (tl p) (current @ [ch (CHR 0x27)])
      else if c = ch (CHR 0x27) then (if \<not> token_end p then None else Some (current, p))
      else split_token InSingleQuotes p (current @ [c]))"
| "split_token NoQuotes [] current = Some (current, [])"
| "split_token NoQuotes (c # p) current =
     (if c \<in> {32, 10, 13, 9} then Some (current, p)
      else if c = ch (CHR 0x22) then split_token InQuotes p current
      else if c = ch (CHR 0x27) then split_token InSingleQuotes p current
      else split_token NoQuotes p (current @ [c]))"
  by pat_completeness auto
termination
  by (relation "measure (\<lambda>(_, p, _). length p)") auto

lemma split_token_length: "split_token q p current = Some (t, r) \<Longrightarrow> length r \<le> length p - 1"
  by (induction q p current rule: split_token.induct) (auto split: if_splits)

function splitargs_loop :: "mem \<Rightarrow> mem list \<Rightarrow> mem list option" where
  "splitargs_loop p vector =
     (case dropWhile is_space p of
        [] \<Rightarrow> Some vector
      | c # p' \<Rightarrow> (case split_token NoQuotes (c # p') [] of
          None \<Rightarrow> None
        | Some (current, r) \<Rightarrow> splitargs_loop r (vector @ [current])))"
  by pat_completeness auto
termination
proof (relation "measure (\<lambda>(p, _). length p)")
  fix p :: mem and c p' x current r
  assume "dropWhile is_space p = c # p'" "split_token NoQuotes (c # p') [] = Some x" "(current, r) = x"
  then have "length r \<le> length p'" "length p' < length p"
    using split_token_length [of NoQuotes "c # p'" "[]" current r] length_dropWhile_le [of is_space p] by auto
  then show "((r, vector @ [current]), p, vector) \<in> measure (\<lambda>(p, _). length p)" for vector by simp
qed simp

declare splitargs_loop.simps [simp del]

definition sdssplitargs :: "mem \<Rightarrow> mem list option" where
  "sdssplitargs line = splitargs_loop (cstring line) []"

section \<open>Well-formed strings\<close>

text \<open>A length the header and the buffer have room for.\<close>

definition sds_fits :: "sds \<Rightarrow> nat \<Rightarrow> bool" where
  "sds_fits s n \<longleftrightarrow> n < length (sds_buf s) \<and> n \<le> sdsTypeMaxSize (sds_flags s) \<and>
     (sds_flags s \<noteq> SDS_TYPE_5 \<longrightarrow> n \<le> sds_alloc s \<and> sds_alloc s \<le> sdsTypeMaxSize (sds_flags s) \<and> sds_alloc s < length (sds_buf s))"

definition sds_ok :: "sds \<Rightarrow> bool" where
  "sds_ok s \<longleftrightarrow> sds_fits s (sds_len s) \<and> sds_buf s ! sds_len s = 0"

definition sds_val :: "sds \<Rightarrow> mem" where
  "sds_val s = take (sds_len s) (sds_buf s)"

definition holds :: "mem \<Rightarrow> sds option \<Rightarrow> bool" where
  "holds v r \<longleftrightarrow> (\<exists>s. r = Some s \<and> sds_ok s \<and> sds_val s = v)"

lemma holds_Some [simp]: "holds v (Some s) \<longleftrightarrow> sds_ok s \<and> sds_val s = v"
  by (simp add: holds_def)

lemma holdsE: "holds v r \<Longrightarrow> (\<And>s. r = Some s \<Longrightarrow> sds_ok s \<Longrightarrow> sds_val s = v \<Longrightarrow> thesis) \<Longrightarrow> thesis"
  by (auto simp: holds_def)

lemma holds_bind: "holds v r \<Longrightarrow> (\<And>s. sds_ok s \<Longrightarrow> sds_val s = v \<Longrightarrow> holds w (k s)) \<Longrightarrow> holds w (r \<bind> k)"
  by (auto simp: holds_def)

lemma hdr_field_id [simp]: "n \<le> sdsTypeMaxSize t \<Longrightarrow> hdr_field t n = n"
  by (simp add: hdr_field_def)

lemma sds_len_val: "sds_ok s \<Longrightarrow> length (sds_val s) = sds_len s"
  by (simp add: sds_ok_def sds_fits_def sds_val_def)

lemma sds_ok_fits: "sds_ok s \<Longrightarrow> n \<le> sds_len s \<Longrightarrow> sds_fits s n"
  by (auto simp: sds_ok_def sds_fits_def)

lemma sds_ok_read: "sds_ok s \<Longrightarrow> i + n \<le> sds_len s \<Longrightarrow> mem_read i n (sds_buf s) = Some (take n (drop i (sds_val s)))"
  by (simp add: sds_ok_def sds_fits_def sds_val_def mem_read_def drop_take)

text \<open>Every operation ends by setting the length and the zero behind the last octet.\<close>

lemma sds_finish:
  assumes "sds_fits s n"
  shows "holds (take n (sds_buf s)) (sds_write n [0] (sdssetlen s n))"
    "holds (take n (sds_buf s)) (sds_write n [0] s \<bind> (\<lambda>s. Some (sdssetlen s n)))"
  using assms by (auto simp: sds_fits_def sds_write_def sdssetlen_def mem_write_def holds_def sds_ok_def sds_val_def nth_append)

lemma sds_write_Some:
  "i + length bs \<le> length (sds_buf s) \<Longrightarrow>
     sds_write i bs s = Some (s\<lparr>sds_buf := take i (sds_buf s) @ bs @ drop (i + length bs) (sds_buf s)\<rparr>)"
  by (simp add: sds_write_def mem_write_def)

lemma sds_fits_buf: "length b = length (sds_buf s) \<Longrightarrow> sds_fits (s\<lparr>sds_buf := b\<rparr>) n = sds_fits s n"
  by (simp add: sds_fits_def)

lemma sds_write_finish:
  assumes "sds_fits s n" "n = i + length bs" "i \<le> n"
  shows "holds (take i (sds_buf s) @ bs) (sds_write i bs s \<bind> (\<lambda>s. sds_write n [0] (sdssetlen s n)))"
    "holds (take i (sds_buf s) @ bs) (sds_write i bs s \<bind> (\<lambda>s. sds_write n [0] s \<bind> (\<lambda>s. Some (sdssetlen s n))))"
proof -
  let ?s = "s\<lparr>sds_buf := take i (sds_buf s) @ bs @ drop (i + length bs) (sds_buf s)\<rparr>"
  have l: "i + length bs \<le> length (sds_buf s)" using assms by (simp add: sds_fits_def)
  then have f: "sds_fits ?s n" using assms(1) by (subst sds_fits_buf) simp_all
  have t: "take n (sds_buf ?s) = take i (sds_buf s) @ bs" using l assms(2) by simp
  show "holds (take i (sds_buf s) @ bs) (sds_write i bs s \<bind> (\<lambda>s. sds_write n [0] (sdssetlen s n)))"
    "holds (take i (sds_buf s) @ bs) (sds_write i bs s \<bind> (\<lambda>s. sds_write n [0] s \<bind> (\<lambda>s. Some (sdssetlen s n))))"
    using sds_finish [OF f] l t by (simp_all add: sds_write_Some)
qed

section \<open>Allocation\<close>

lemma sdsReqType_max: "n < 2 ^ 64 \<Longrightarrow> n \<le> sdsTypeMaxSize (sdsReqType n)"
  by (auto simp: sdsReqType_def)

lemma sdsHdrSize_le: "sdsHdrSize t \<le> 17"
  by (cases t) simp_all

lemma sdssetlen_same: "sds_fits s n \<Longrightarrow> sds_len s = n \<Longrightarrow> sdssetlen s n = s"
  by (simp add: sdssetlen_def sds_fits_def)

lemma sdsnewlen_gen_holds:
  assumes u: "\<And>n. n \<le> usable n" and n: "n + 18 < 2 ^ 64"
    and i: "\<And>p. init = Octets p \<Longrightarrow> n \<le> length p"
  shows "holds (case init of Zeros \<Rightarrow> replicate n 0 | NoInit \<Rightarrow> replicate n junk | Octets p \<Rightarrow> take n p) (sdsnewlen_gen usable junk init n)"
proof -
  define t where "t = (if sdsReqType n = SDS_TYPE_5 \<and> n = 0 then SDS_TYPE_8 else sdsReqType n)"
  define h where "h = sdsHdrSize t"
  define x where "x = usable (h + n + 1)"
  define b where "b = (if init = Zeros then replicate (n + 1) 0 @ replicate (x - h - (n + 1)) junk else replicate (x - h) junk)"
  define a where "a = min (x - h - 1) (sdsTypeMaxSize t)"
  define s where "s = \<lparr>sds_flags = t, sds_len = hdr_field t n, sds_alloc = hdr_field t a, sds_buf = b\<rparr>"
  have m: "n \<le> sdsTypeMaxSize t" using sdsReqType_max [of n] n by (simp add: t_def)
  have o: "u64 (n + h + 1) > n" using sdsHdrSize_le [of t] n by (simp add: u64_def h_def)
  have x: "h + n + 1 \<le> x" using u by (simp add: x_def)
  have e: "sdsnewlen_gen usable junk init n =
      (case init of Octets p \<Rightarrow> do { bs \<leftarrow> mem_read 0 n p; sds_write 0 bs s } | _ \<Rightarrow> Some s) \<bind> sds_write n [0]"
    using o unfolding sdsnewlen_gen_def t_def [symmetric] Let_def h_def [symmetric] x_def [symmetric] b_def [symmetric]
      a_def [symmetric] s_def [symmetric] by simp
  have lb: "length b = x - h" using x by (auto simp: b_def)
  have f: "sds_fits s n" using m x lb by (auto simp: sds_fits_def s_def a_def)
  have l: "sds_len s = n" using m by (simp add: s_def)
  show ?thesis
  proof (cases init)
    case Zeros
    have "take n (sds_buf s) = replicate n 0" using Zeros by (simp add: s_def b_def del: replicate_Suc)
    then show ?thesis using Zeros e sds_finish(1) [OF f] sdssetlen_same [OF f l] by simp
  next
    case NoInit
    have "take n (sds_buf s) = replicate n junk" using NoInit x by (simp add: s_def b_def min_def)
    then show ?thesis using NoInit e sds_finish(1) [OF f] sdssetlen_same [OF f l] by simp
  next
    case (Octets p)
    then have p: "n \<le> length p" using i by simp
    let ?s = "s\<lparr>sds_buf := take n p @ drop n (sds_buf s)\<rparr>"
    have w: "sds_write 0 (take n p) s = Some ?s" using p f by (subst sds_write_Some) (simp_all add: sds_fits_def)
    have f': "sds_fits ?s n" using f p by (subst sds_fits_buf) (simp_all add: sds_fits_def)
    show ?thesis using Octets e w p sds_finish(1) [OF f'] sdssetlen_same [OF f'] l by (simp add: mem_read_def)
  qed
qed

text \<open>The allocator returns at least what was asked for. The sizes are such that \<open>size_t\<close> does not wrap.\<close>

lemma sdsMakeRoomFor_ok:
  assumes u: "\<And>n. n \<le> usable n" and ok: "sds_ok s" and n: "sds_len s + addlen + SDS_MAX_PREALLOC + 18 < 2 ^ 64"
  shows "\<exists>s'. sdsMakeRoomFor usable junk s addlen = Some s' \<and> sds_ok s' \<and> sds_val s' = sds_val s \<and> sds_fits s' (sds_len s + addlen)
    \<and> sds_len s' = sds_len s"
proof (cases "addlen \<le> sdsavail s")
  case True
  have "sds_fits s (sds_len s + addlen)"
  proof (cases "sds_flags s = SDS_TYPE_5")
    case True
    then show ?thesis using \<open>addlen \<le> sdsavail s\<close> ok by (simp add: sdsavail_def sds_ok_def)
  next
    case False
    then have "sds_len s \<le> sds_alloc s" "sds_alloc s < 2 ^ 64" "sds_flags s = SDS_TYPE_32 \<longrightarrow> sds_alloc s < 2 ^ 32"
      using ok by (cases "sds_flags s"; simp add: sds_ok_def sds_fits_def)+
    then have "sdsavail s = sds_alloc s - sds_len s"
      using False by (cases "sds_flags s") (simp_all add: sdsavail_def nat_diff_distrib)
    then show ?thesis using \<open>addlen \<le> sdsavail s\<close> ok False by (auto simp: sds_ok_def sds_fits_def)
  qed
  then show ?thesis using True ok by (simp add: sdsMakeRoomFor_def)
next
  case False
  define n1 where "n1 = sds_len s + addlen"
  define n2 where "n2 = (if n1 < SDS_MAX_PREALLOC then n1 * 2 else n1 + SDS_MAX_PREALLOC)"
  define t where "t = (if sdsReqType n2 = SDS_TYPE_5 then SDS_TYPE_8 else sdsReqType n2)"
  define h where "h = sdsHdrSize t"
  define x where "x = usable (h + n2 + 1)"
  define a where "a = min (x - h - 1) (sdsTypeMaxSize t)"
  have h: "h \<le> 17" using sdsHdrSize_le by (simp add: h_def)
  have n12: "n1 \<le> n2" "n2 + 18 < 2 ^ 64" using n by (auto simp: n1_def n2_def SDS_MAX_PREALLOC_def)
  have w: "u64 (sds_len s + addlen) = n1" "u64 (n1 + SDS_MAX_PREALLOC) = n1 + SDS_MAX_PREALLOC" "u64 (h + n2 + 1) = h + n2 + 1"
    using n n12 h by (simp_all add: u64_def n1_def)
  have x: "h + n2 + 1 \<le> x" using u by (simp add: x_def)
  have t: "n2 \<le> sdsTypeMaxSize t" "t \<noteq> SDS_TYPE_5" using sdsReqType_max [of n2] n12 by (auto simp: t_def split: if_splits)
  have a: "n2 \<le> a" "a \<le> sdsTypeMaxSize t" "a < x - h" using x t by (auto simp: a_def)
  have lt: "n1 > sds_len s" using False by (simp add: n1_def)
  have gt: "h + n2 + 1 > sds_len s" using lt n12 by simp
  define s1 where "s1 = (if sds_flags s = t then s\<lparr>sds_buf := mem_resize junk (x - h) (sds_buf s)\<rparr>
    else s\<lparr>sds_flags := t, sds_buf := take (sds_len s + 1) (sds_buf s) @ replicate (x - h - (sds_len s + 1)) junk\<rparr>)"
  have lb: "sds_len s + 1 \<le> length (sds_buf s)" using ok by (simp add: sds_ok_def sds_fits_def)
  have lx: "sds_len s + 1 \<le> x - h" "sds_len s \<le> sdsTypeMaxSize t" using x lt n12 t by simp_all
  have s1: "sds_flags s1 = t" "sds_len s1 = sds_len s" "length (sds_buf s1) = x - h"
      "take (sds_len s + 1) (sds_buf s1) = take (sds_len s + 1) (sds_buf s)"
    using lb lx by (auto simp: s1_def take_mem_resize simp del: take_Suc)
  have "(if sds_flags s = t then Some (s\<lparr>sds_buf := mem_resize junk (x - h) (sds_buf s)\<rparr>)
       else do { bs \<leftarrow> mem_read 0 (sds_len s + 1) (sds_buf s);
         s \<leftarrow> sds_write 0 bs (s\<lparr>sds_buf := replicate (x - h) junk, sds_flags := t\<rparr>);
         Some (sdssetlen s (sds_len s1)) }) = Some s1"
    using lb lx by (auto simp: s1_def mem_read_def sds_write_Some sdssetlen_def)
  then have e: "sdsMakeRoomFor usable junk s addlen = Some (sdssetalloc s1 a)"
    using False lt gt s1(2) unfolding sdsMakeRoomFor_def Let_def sdslen_def w(1) n2_def [symmetric] w(2) t_def [symmetric]
      h_def [symmetric] w(3) x_def [symmetric] a_def [symmetric]
    by (cases "sds_flags s = t") (auto simp: Option.bind_eq_Some_conv)
  have v: "take (sds_len s) (sds_buf s1) = sds_val s" "sds_buf s1 ! sds_len s = 0"
    using s1(4) lb lx ok by (metis le_add1 min.absorb_iff1 sds_val_def take_take, metis less_add_one nth_take sds_ok_def)
  show ?thesis unfolding e
    using v s1 a t n12 lt lx by (auto simp: sdssetalloc_def sds_ok_def sds_fits_def sds_val_def n1_def)
qed

lemma sdscatlen_holds:
  assumes "\<And>n. n \<le> usable n" "sds_ok s" "sds_len s + length t + SDS_MAX_PREALLOC + 18 < 2 ^ 64"
  shows "holds (sds_val s @ t) (sdscatlen usable junk s t)"
proof -
  obtain s' where s': "sdsMakeRoomFor usable junk s (length t) = Some s'" "sds_ok s'" "sds_val s' = sds_val s"
      "sds_fits s' (sds_len s + length t)" "sds_len s' = sds_len s"
    using sdsMakeRoomFor_ok [OF assms, of junk] by blast
  show ?thesis using sds_write_finish(1) [OF s'(4) refl] s'(1,3,5) by (simp add: sdscatlen_def sdslen_def sds_val_def Let_def)
qed

lemma sdscpylen_holds:
  assumes "\<And>n. n \<le> usable n" "sds_ok s" "length t + SDS_MAX_PREALLOC + 18 < 2 ^ 64"
  shows "holds t (sdscpylen usable junk s t)"
proof -
  have "\<exists>s'. (if sdsalloc s < length t then sdsMakeRoomFor usable junk s (length t - sdslen s) else Some s) = Some s' \<and> sds_fits s' (length t)"
  proof (cases "sdsalloc s < length t")
    case True
    then have l: "sds_len s \<le> length t" using assms(2) by (auto simp: sdsalloc_def sds_ok_def sds_fits_def split: if_splits)
    then have "sds_len s + (length t - sds_len s) + SDS_MAX_PREALLOC + 18 < 2 ^ 64" using assms(3) by simp
    from sdsMakeRoomFor_ok [OF assms(1,2) this, of junk] show ?thesis using True l by (auto simp: sdslen_def)
  next
    case False
    then show ?thesis using assms(2) by (auto simp: sdsalloc_def sds_ok_def sds_fits_def split: if_splits)
  qed
  then obtain s' where "(if sdsalloc s < length t then sdsMakeRoomFor usable junk s (length t - sdslen s) else Some s) = Some s'"
    "sds_fits s' (length t)" by blast
  then show ?thesis using sds_write_finish(2) [of s' "length t" 0 t] by (simp add: sdscpylen_def)
qed

lemma sdsgrowzero_holds:
  assumes "\<And>n. n \<le> usable n" "sds_ok s" "len + SDS_MAX_PREALLOC + 18 < 2 ^ 64"
  shows "holds (sds_val s @ replicate (len - sds_len s) 0) (sdsgrowzero usable junk s len)"
proof (cases "len \<le> sds_len s")
  case True
  then show ?thesis using assms(2) by (simp add: sdsgrowzero_def sdslen_def)
next
  case False
  then have "sds_len s + (len - sds_len s) + SDS_MAX_PREALLOC + 18 < 2 ^ 64" using assms(3) by simp
  from sdsMakeRoomFor_ok [OF assms(1,2) this, of junk] False
  obtain s' where s': "sdsMakeRoomFor usable junk s (len - sds_len s) = Some s'" "sds_val s' = sds_val s" "sds_fits s' len" "sds_len s' = sds_len s"
    by auto
  let ?z = "replicate (len - sds_len s + 1) (0 :: byte)"
  let ?s = "s'\<lparr>sds_buf := take (sds_len s) (sds_buf s') @ ?z @ drop (sds_len s + length ?z) (sds_buf s')\<rparr>"
  have l: "sds_len s + length ?z \<le> length (sds_buf s')" using s'(3) False by (simp add: sds_fits_def)
  have "sdsgrowzero usable junk s len = Some (sdssetlen ?s len)"
    using False s'(1) l unfolding sdsgrowzero_def sdslen_def Let_def by (subst s'(1)) (simp add: sds_write_Some del: replicate_Suc)
  moreover have "sds_fits ?s len" using s'(3) l by (subst sds_fits_buf) simp_all
  moreover have "sds_val s = take (sds_len s) (sds_buf s')" using s'(2,4) by (simp add: sds_val_def)
  ultimately show ?thesis using False l
    by (simp add: sds_ok_def sds_val_def sdssetlen_def sds_fits_def nth_append del: replicate_Suc)
qed

lemma sdsclear_holds: "sds_ok s \<Longrightarrow> holds [] (sdsclear s)"
  using sds_finish(1) [of s 0] sds_ok_fits [of s 0] by (simp add: sdsclear_def)

lemma sdsRemoveFreeSpace_holds:
  assumes u: "\<And>n. n \<le> usable n" and ok: "sds_ok s" and n: "sds_len s < 2 ^ 64"
  shows "holds (sds_val s) (sdsRemoveFreeSpace usable junk s)"
proof (cases "sdsavail s = 0")
  case True
  then show ?thesis using ok by (simp add: sdsRemoveFreeSpace_def)
next
  case False
  define t where "t = sdsReqType (sds_len s)"
  define c where "c \<longleftrightarrow> sds_flags s = t \<or> hdr_code t > hdr_code SDS_TYPE_8"
  define h where "h = (if c then sdsHdrSize (sds_flags s) else sdsHdrSize t)"
  define x where "x = usable (h + sds_len s + 1)"
  have x: "h + sds_len s + 1 \<le> x" using u by (simp add: x_def)
  have f: "sds_fits s (sds_len s)" "sds_buf s ! sds_len s = 0" using ok by (simp_all add: sds_ok_def)
  have m: "sds_len s \<le> sdsTypeMaxSize t" using sdsReqType_max [OF n] by (simp add: t_def)
  define s1 where "s1 = (if c then s\<lparr>sds_buf := mem_resize junk (x - h) (sds_buf s)\<rparr>
    else s\<lparr>sds_flags := t, sds_buf := take (sds_len s + 1) (sds_buf s) @ replicate (x - h - (sds_len s + 1)) junk\<rparr>)"
  have lb: "sds_len s + 1 \<le> length (sds_buf s)" using f by (simp add: sds_fits_def)
  have lx: "sds_len s + 1 \<le> x - h" using x by simp
  have s1: "sds_len s1 = sds_len s" "length (sds_buf s1) = x - h" "sds_len s \<le> sdsTypeMaxSize (sds_flags s1)"
      "take (sds_len s + 1) (sds_buf s1) = take (sds_len s + 1) (sds_buf s)"
    using lb lx m f(1) by (auto simp: s1_def take_mem_resize sds_fits_def simp del: take_Suc)
  have e: "sdsRemoveFreeSpace usable junk s = Some (sdssetalloc s1 (sds_len s))"
  proof (cases c)
    case True
    then show ?thesis using False
      by (simp add: sdsRemoveFreeSpace_def sdslen_def Let_def s1_def x_def h_def flip: t_def c_def)
  next
    case False
    then show ?thesis using \<open>sdsavail s \<noteq> 0\<close> lb lx m
      by (simp add: sdsRemoveFreeSpace_def sdslen_def Let_def s1_def x_def h_def mem_read_def sds_write_Some sdssetlen_def flip: t_def c_def)
  qed
  have v: "take (sds_len s) (sds_buf s1) = sds_val s" "sds_buf s1 ! sds_len s = 0"
    using s1(4) lb lx f by (metis le_add1 min.absorb_iff1 sds_val_def take_take, metis less_add_one nth_take)
  show ?thesis unfolding e
    using v s1 lx by (auto simp: sdssetalloc_def sds_ok_def sds_fits_def sds_val_def)
qed

text \<open>The length is moved over octets that were written behind the end, or cut.\<close>

lemma sdsIncrLen_holds:
  assumes ok: "sds_ok s" and n: "- int (sds_len s) \<le> incr" "- incr < 2 ^ 32 \<or> sds_flags s = SDS_TYPE_64" "incr < 2 ^ 32 \<or> sds_flags s = SDS_TYPE_64"
    and f: "sds_fits s (nat (int (sds_len s) + incr))" and z: "incr \<noteq> 0 \<or> sds_flags s \<noteq> SDS_TYPE_5"
  shows "holds (take (nat (int (sds_len s) + incr)) (sds_buf s)) (sdsIncrLen s incr)"
proof -
  let ?n = "nat (int (sds_len s) + incr)"
  have m: "(int (sds_len s) + incr) mod (int (sdsTypeMaxSize (sds_flags s)) + 1) = int (sds_len s) + incr"
    using f n(1) by (intro mod_pos_pos_trivial) (auto simp: sds_fits_def)
  have u: "to_u32 i = nat i" if "0 \<le> i" "i < 2 ^ 32" for i using that by simp
  have a: "sds_flags s \<noteq> SDS_TYPE_5 \<Longrightarrow> sds_len s \<le> sds_alloc s \<and> int (sds_len s) + incr \<le> int (sds_alloc s)"
    using f ok n(1) by (auto simp: sds_ok_def sds_fits_def)
  have "sdsIncrLen s incr = sds_write ?n [0] (s\<lparr>sds_len := ?n\<rparr>)"
  proof (cases "sds_flags s")
    case SDS_TYPE_5
    then show ?thesis using m n z f u [of "- incr"] by (auto simp: sdsIncrLen_def Let_def sds_fits_def)
  next
    case SDS_TYPE_8
    then show ?thesis using m n a u [of "- incr"] by (auto simp: sdsIncrLen_def Let_def)
  next
    case SDS_TYPE_16
    then show ?thesis using m n a u [of "- incr"] by (auto simp: sdsIncrLen_def Let_def)
  next
    case SDS_TYPE_32
    then have "u32_sub (sds_alloc s) (sds_len s) = sds_alloc s - sds_len s" using a f by (simp add: sds_fits_def)
    then show ?thesis using SDS_TYPE_32 m n a u [of "- incr"] u [of incr] by (auto simp: sdsIncrLen_def Let_def)
  next
    case SDS_TYPE_64
    then have "(int (sds_alloc s) - int (sds_len s)) mod 2 ^ 64 = int (sds_alloc s) - int (sds_len s)" using a f by (simp add: sds_fits_def)
    then show ?thesis using SDS_TYPE_64 m n a by (auto simp: sdsIncrLen_def Let_def)
  qed
  then show ?thesis using sds_finish(1) [OF f] f by (simp add: sdssetlen_def sds_fits_def)
qed

lemma sdstrim_holds:
  assumes ok: "sds_ok s"
  shows "holds (rev (dropWhile (in_cset cset) (rev (dropWhile (in_cset cset) (sds_val s))))) (sdstrim s cset)"
proof -
  let ?P = "in_cset cset"
  define v where "v = sds_val s"
  define w where "w = dropWhile ?P v"
  define sp where "sp = length (takeWhile ?P v)"
  define k where "k = length (takeWhile ?P (rev (drop (sp + 1) v)))"
  define n where "n = length w - k"
  have lv: "length v = sds_len s" "length v = sp + length w" "w = drop sp v"
    using sds_len_val [OF ok] by (simp add: v_def, metis w_def sp_def length_append takeWhile_dropWhile_id)
      (simp add: w_def sp_def dropWhile_eq_drop)
  have r: "rev (dropWhile ?P (rev w)) = take n w" and len: "(if int sp > int (sds_len s) - 1 - int k then 0 else nat (int (sds_len s) - 1 - int k - int sp + 1)) = n"
  proof -
    have "k \<le> length (drop (sp + 1) v)" unfolding k_def using length_takeWhile_le [of ?P "rev (drop (sp + 1) v)"] by simp
    then show "(if int sp > int (sds_len s) - 1 - int k then 0 else nat (int (sds_len s) - 1 - int k - int sp + 1)) = n"
      using lv(1,2) by (auto simp: n_def)
    show "rev (dropWhile ?P (rev w)) = take n w"
    proof (cases w)
      case (Cons x w')
      then have x: "\<not> ?P x" using hd_dropWhile [of ?P v] by (auto simp: w_def)
      have "drop (sp + 1) v = w'" using Cons lv(3) by (metis drop_drop drop_Suc_Cons drop0 Suc_eq_plus1 add.commute plus_1_eq_Suc)
      then have "length (takeWhile ?P (rev w)) = k" using Cons x
        by (simp add: k_def takeWhile_append) (metis length_rev set_rev takeWhile_eq_all_conv)
      then show ?thesis by (simp add: dropWhile_eq_drop rev_drop n_def)
    qed simp
  qed
  have rd: "mem_read sp n (sds_buf s) = Some (take n w)"
    using sds_ok_read [OF ok, of sp n] lv(1,2) unfolding v_def [symmetric] lv(3) [symmetric] by (simp add: n_def)
  have lw: "length (take n w) = n" by (simp add: n_def)
  have f: "sds_fits s n" using sds_ok_fits [OF ok] lv(1,2) by (simp add: n_def)
  have "holds (take n w) (do { s \<leftarrow> (if sp \<noteq> 0 then sds_write 0 (take n w) s else Some s); s \<leftarrow> sds_write n [0] s; Some (sdssetlen s n) })"
  proof (cases "sp = 0")
    case True
    then have "w = v" using lv(3) by simp
    then have "take n (sds_buf s) = take n w" using lv(1) by (simp add: v_def sds_val_def n_def min_def)
    then show ?thesis using sds_finish(2) [OF f] True by simp
  next
    case False
    then show ?thesis using sds_write_finish(2) [OF f, of 0 "take n w"] lw by simp
  qed
  moreover have "mem_read 0 (sds_len s) (sds_buf s) = Some v"
    using sds_ok_read [OF ok, of 0 "sds_len s"] lv(1) by (simp add: v_def)
  ultimately show ?thesis unfolding v_def [symmetric] w_def [symmetric] r
    by (simp only: sdstrim_def sdslen_def Option.bind.simps Let_def sp_def [symmetric] k_def [symmetric] len rd)
qed

definition range_of :: "int \<Rightarrow> int \<Rightarrow> mem \<Rightarrow> mem" where
  "range_of start end v =
     (let n = int (length v);
          a = (if start < 0 then max 0 (n + start) else start);
          b = (if end < 0 then max 0 (n + end) else min end (n - 1)) in
      take (nat (b - a + 1)) (drop (nat a) v))"

lemma sdsrange_holds:
  assumes ok: "sds_ok s"
  shows "holds (range_of start end (sds_val s)) (sdsrange s start end)"
proof (cases "sds_len s = 0")
  case True
  then show ?thesis using ok sds_len_val [OF ok] by (simp add: sdsrange_def sdslen_def range_of_def)
next
  case False
  define n where "n = int (sds_len s)"
  define a where "a = (if start < 0 then max 0 (n + start) else start)"
  define b where "b = (if end < 0 then max 0 (n + end) else end)"
  define m where "m = (if (if a > b then 0 else b - a + 1) \<noteq> 0 then
             (if a \<ge> n then 0 else if b \<ge> n then (if a > n - 1 then 0 else n - 1 - a + 1) else (if a > b then 0 else b - a + 1))
           else (if a > b then 0 else b - a + 1))"
  have n: "n > 0" "n = int (length (sds_val s))" using False sds_len_val [OF ok] by (simp_all add: n_def)
  have m: "0 \<le> m" "m \<noteq> 0 \<longrightarrow> a + m \<le> n" "0 \<le> a" "m \<le> n" using n(1) by (auto simp: m_def a_def b_def)
  have r: "range_of start end (sds_val s) = take (nat m) (drop (nat a) (sds_val s))"
  proof -
    have "range_of start end (sds_val s) = take (nat ((if end < 0 then max 0 (n + end) else min end (n - 1)) - a + 1)) (drop (nat a) (sds_val s))"
      using n by (simp add: range_of_def a_def Let_def)
    also have "\<dots> = take (nat m) (drop (nat a) (sds_val s))"
    proof (cases "a \<ge> n")
      case True
      then have "drop (nat a) (sds_val s) = []" using n(2) by simp
      then show ?thesis by simp
    next
      case False
      then have "nat ((if end < 0 then max 0 (n + end) else min end (n - 1)) - a + 1) = nat m" using n(1) by (auto simp: m_def b_def)
      then show ?thesis by simp
    qed
    finally show ?thesis .
  qed
  have f: "sds_fits s (nat m)" using sds_ok_fits [OF ok] m(4) by (simp add: n_def)
  have "holds (take (nat m) (drop (nat a) (sds_val s))) (do {
      s \<leftarrow> (if a \<noteq> 0 \<and> m \<noteq> 0 then do { bs \<leftarrow> mem_read (nat a) (nat m) (sds_buf s); sds_write 0 bs s } else Some s);
      s \<leftarrow> sds_write (nat m) [0] s; Some (sdssetlen s (nat m)) })"
  proof (cases "a \<noteq> 0 \<and> m \<noteq> 0")
    case True
    have "nat a + nat m \<le> sds_len s" using m True by (simp add: n_def flip: nat_add_distrib)
    then have rd: "mem_read (nat a) (nat m) (sds_buf s) = Some (take (nat m) (drop (nat a) (sds_val s)))"
      and l: "length (take (nat m) (drop (nat a) (sds_val s))) = nat m"
      using sds_ok_read [OF ok] sds_len_val [OF ok] by simp_all
    show ?thesis using True rd sds_write_finish(2) [OF f, of 0 "take (nat m) (drop (nat a) (sds_val s))"] l by simp
  next
    case False
    have "take (nat m) (drop (nat a) (sds_val s)) = take (nat m) (sds_buf s)"
      using False m(4) by (auto simp: sds_val_def n_def min_def)
    then show ?thesis using sds_finish(2) [OF f] False by auto
  qed
  then show ?thesis using False r
    unfolding sdsrange_def sdslen_def n_def [symmetric] Let_def a_def [symmetric] b_def [symmetric] m_def [symmetric] by (simp add: n_def)
qed

lemma sds_map_holds:
  assumes ok: "sds_ok s"
  shows "holds (map f (sds_val s)) (do { bs \<leftarrow> mem_read 0 (sdslen s) (sds_buf s); sds_write 0 (map f bs) s })"
  using ok by (auto simp: sdslen_def sds_ok_def sds_fits_def sds_val_def mem_read_def sds_write_Some holds_def nth_append)

lemma sdsnewlen_holds:
  "(\<And>n. n \<le> usable n) \<Longrightarrow> length v + 18 < 2 ^ 64 \<Longrightarrow> holds v (sdsnewlen usable junk (Octets v) (length v))"
  using sdsnewlen_gen_holds [of usable "length v" "Octets v" junk] by (simp add: sdsnewlen_def)

section \<open>Strings as a buffer that grows\<close>

text \<open>What the users of dynamic strings rely on: a new string holds its octets and an append adds to
them, as long as the sizes stay below a limit.\<close>

locale growing_buffer =
  fixes ok :: "'s \<Rightarrow> bool" and val :: "'s \<Rightarrow> mem" and create :: "mem \<Rightarrow> 's option" and append :: "'s \<Rightarrow> mem \<Rightarrow> 's option"
    and limit :: nat
  assumes create_val: "length v < limit \<Longrightarrow> \<exists>s. create v = Some s \<and> ok s \<and> val s = v"
    and append_val: "ok s \<Longrightarrow> length (val s) + length t < limit \<Longrightarrow> \<exists>s'. append s t = Some s' \<and> ok s' \<and> val s' = val s @ t"
begin

primrec append_all :: "'s \<Rightarrow> mem list \<Rightarrow> 's option" where
  "append_all s [] = Some s"
| "append_all s (t # ts) = append s t \<bind> (\<lambda>s. append_all s ts)"

lemma append_all_val:
  "ok s \<Longrightarrow> length (val s) + length (concat ts) < limit \<Longrightarrow> \<exists>s'. append_all s ts = Some s' \<and> ok s' \<and> val s' = val s @ concat ts"
proof (induction ts arbitrary: s)
  case (Cons t ts)
  then obtain s' where "append s t = Some s'" "ok s'" "val s' = val s @ t" using append_val [of s t] by auto
  then show ?case using Cons.IH [of s'] Cons.prems(2) by simp
qed simp

lemma append_all_append: "append_all s (ts @ us) = append_all s ts \<bind> (\<lambda>s. append_all s us)"
  by (induction ts arbitrary: s) (simp_all add: Option.bind_assoc)

end

text \<open>The allocator of \<open>zmalloc.c\<close> where the C library does not tell the size of a block.\<close>

definition zmalloc_usable :: "nat \<Rightarrow> nat" where
  "zmalloc_usable n = n"

locale allocator =
  fixes usable :: "nat \<Rightarrow> nat" and junk :: byte
  assumes usable_ge: "n \<le> usable n"

sublocale allocator \<subseteq> strings: growing_buffer sds_ok sds_val "\<lambda>v. sdsnewlen usable junk (Octets v) (length v)"
  "sdscatlen usable junk" "2 ^ 64 - SDS_MAX_PREALLOC - 18"
proof
  fix v :: mem assume "length v < 2 ^ 64 - SDS_MAX_PREALLOC - 18"
  then have "holds v (sdsnewlen usable junk (Octets v) (length v))" by (intro sdsnewlen_holds usable_ge) simp
  then show "\<exists>s. sdsnewlen usable junk (Octets v) (length v) = Some s \<and> sds_ok s \<and> sds_val s = v" by (simp add: holds_def)
next
  fix s and t :: mem assume ok: "sds_ok s" and l: "length (sds_val s) + length t < 2 ^ 64 - SDS_MAX_PREALLOC - 18"
  have "holds (sds_val s @ t) (sdscatlen usable junk s t)"
    using l sds_len_val [OF ok] by (intro sdscatlen_holds usable_ge ok) simp
  then show "\<exists>s'. sdscatlen usable junk s t = Some s' \<and> sds_ok s' \<and> sds_val s' = sds_val s @ t" by (simp add: holds_def)
qed

interpretation zmalloc: allocator zmalloc_usable 0
  by unfold_locales (simp add: zmalloc_usable_def)

section \<open>Users of the buffer\<close>

definition joined :: "mem list \<Rightarrow> mem \<Rightarrow> mem" where
  "joined argv sep = concat (map (\<lambda>a. a @ sep) (butlast argv)) @ (if argv = [] then [] else last argv)"

context allocator
begin

lemma repr_loop_append_all: "repr_loop usable junk s p = strings.append_all s (map repr_char p)"
  by (induction p arbitrary: s) simp_all

lemma sdscatrepr_val:
  assumes "sds_ok s" "sds_len s + 4 * length p + 2 < 2 ^ 64 - SDS_MAX_PREALLOC - 18"
  shows "\<exists>s'. sdscatrepr usable junk s p = Some s' \<and> sds_ok s' \<and>
    sds_val s' = sds_val s @ [34] @ concat (map repr_char p) @ [34]"
proof -
  let ?ts = "[34] # map repr_char p @ [[34]]"
  have "length (repr_char c) \<le> 4" for c by (simp add: repr_char_def)
  then have "length (concat (map repr_char p)) \<le> 4 * length p"
    by (induction p) (auto intro: add_mono)
  then have "length (sds_val s) + length (concat ?ts) < 2 ^ 64 - SDS_MAX_PREALLOC - 18"
    using assms(2) sds_len_val [OF assms(1)] by simp
  from strings.append_all_val [OF assms(1) this] show ?thesis
    by (simp add: sdscatrepr_def repr_loop_append_all strings.append_all_append Option.bind_assoc)
qed

lemma join_loop_append_all:
  "\<exists>ts. (\<forall>s. join_loop usable junk s argv sep = strings.append_all s ts) \<and> concat ts = concat (map (\<lambda>a. a @ cstring sep) (butlast (map cstring argv))) @
     (if argv = [] then [] else cstring (last argv))"
proof (induction argv rule: induct_list012)
  case 1
  show ?case by (intro exI [of _ "[]"]) simp
next
  case (2 a)
  show ?case by (intro exI [of _ "[cstring a]"]) (simp add: sdscat_def)
next
  case (3 a b as)
  from 3(2) obtain ts where "\<forall>s. join_loop usable junk s (b # as) sep = strings.append_all s ts"
    "concat ts = concat (map (\<lambda>a. a @ cstring sep) (butlast (map cstring (b # as)))) @ cstring (last (b # as))" by auto
  then show ?case by (intro exI [of _ "cstring a # cstring sep # ts"]) (simp add: sdscat_def)
qed

lemma sdsjoin_val:
  assumes "length (joined (map cstring argv) (cstring sep)) < 2 ^ 64 - SDS_MAX_PREALLOC - 18"
  shows "\<exists>s. sdsjoin usable junk argv sep = Some s \<and> sds_ok s \<and> sds_val s = joined (map cstring argv) (cstring sep)"
proof -
  obtain s where s: "sdsempty usable junk = Some s" "sds_ok s" "sds_val s = []"
    using strings.create_val [of "[]"] by (auto simp: sdsempty_def SDS_MAX_PREALLOC_def)
  obtain ts where "\<forall>s. join_loop usable junk s argv sep = strings.append_all s ts" "concat ts = joined (map cstring argv) (cstring sep)"
  proof -
    have "joined (map cstring argv) (cstring sep) = concat (map (\<lambda>a. a @ cstring sep) (butlast (map cstring argv))) @
        (if argv = [] then [] else cstring (last argv))"
      by (cases "argv = []") (simp_all add: joined_def last_map)
    then show ?thesis using that join_loop_append_all [of argv sep] by metis
  qed
  then show ?thesis using strings.append_all_val [OF s(2), of ts] s assms by (simp add: sdsjoin_def)
qed

end

lemma allocatorI: "(\<And>n. n \<le> usable n) \<Longrightarrow> allocator usable"
  by unfold_locales

section \<open>Numbers and separators\<close>

lemma swap_loop_rev:
  "w \<noteq> [] \<Longrightarrow> swap_loop (length a) (length a + length w - 1) (a @ w @ c) = Some (a @ rev w @ c)"
proof (induction "length w" arbitrary: a w c rule: less_induct)
  case less
  show ?case
  proof (cases "length w = 1")
    case True
    then show ?thesis by (subst swap_loop.simps) (auto simp: length_Suc_conv)
  next
    case False
    then obtain x mid y where w: "w = x # mid @ [y]" using less.prems
      by (cases w; cases "tl w" rule: rev_cases) auto
    have e: "swap_loop (length a) (length a + length w - 1) (a @ w @ c) =
        swap_loop (length (a @ [y])) (length (a @ [y]) + length mid - 1) ((a @ [y]) @ mid @ x # c)"
      by (subst swap_loop.simps) (simp add: w mem_get_def mem_put_def nth_append list_update_append)
    show ?thesis
    proof (cases "mid = []")
      case True
      then show ?thesis unfolding e by (subst swap_loop.simps) (simp add: w)
    next
      case False
      then show ?thesis unfolding e using less.hyps [of mid "a @ [y]" "x # c"] by (simp add: w)
    qed
  qed
qed

lemma rev_digits_dec: "rev (rev_digits v) = dec_nat v"
proof (induction v rule: rev_digits.induct)
  case (1 v)
  then show ?case by (subst rev_digits.simps, subst dec_nat.simps) (auto simp: dec_nat_small)
qed

lemma sdsll2str_dec: "in_int64 v \<Longrightarrow> sdsll2str v = Some (dec_int v)"
proof -
  assume v: "in_int64 v"
  let ?m = "rev_digits (nat \<bar>v\<bar>) @ (if v < 0 then [ch CHR ''-''] else [])"
  have r: "rev ?m = dec_int v" using rev_digits_dec [of "nat \<bar>v\<bar>"] by (simp add: dec_int_def)
  then have "?m \<noteq> []" "length ?m \<le> 20" using length_dec_int_le [OF v] length_rev [of ?m] by (auto simp: rev_digits.simps)
  then show ?thesis using swap_loop_rev [of ?m "[]" "[]"] r by (simp add: sdsll2str_def SDS_LLSTR_SIZE_def Let_def)
qed

lemma memcmp_prefix: "length b \<le> length a \<Longrightarrow> memcmp a b (length b) = 0 \<longleftrightarrow> take (length b) a = b"
  using memcmp_lexord [of a b] by (simp add: min.absorb2)

lemma separator_at:
  assumes "sep \<noteq> []" "j + length sep \<le> length s"
  shows "(length sep = 1 \<and> s ! j = sep ! 0) \<or> memcmp (drop j s) sep (length sep) = 0 \<longleftrightarrow> take (length sep) (drop j s) = sep"
proof -
  have "memcmp (drop j s) sep (length sep) = 0 \<longleftrightarrow> take (length sep) (drop j s) = sep"
    using assms by (intro memcmp_prefix) simp
  moreover have "take (length sep) (drop j s) = sep" if "length sep = 1" "s ! j = sep ! 0"
    using that assms by (auto simp: length_Suc_conv take_Suc_conv_app_nth)
  ultimately show ?thesis by blast
qed

lemma splitlen_loop_join:
  assumes "sep \<noteq> []" "start \<le> j" "j \<le> length s" "s = concat (map (\<lambda>t. t @ sep) tokens) @ drop start s"
  shows "joined (splitlen_loop s sep start j tokens) sep = s"
  using assms
proof (induction s sep start j tokens rule: splitlen_loop.induct)
  case (1 s sep start j tokens)
  show ?case
  proof (cases "int j < int (length s) - (int (length sep) - 1)")
    case False
    then show ?thesis using 1(3-6) by (subst splitlen_loop.simps) (simp add: joined_def)
  next
    case True
    then have l: "j + length sep \<le> length s" by simp
    show ?thesis
    proof (cases "take (length sep) (drop j s) = sep")
      case eq: True
      have c: "(length sep = 1 \<and> s ! j = sep ! 0) \<or> memcmp (drop j s) sep (length sep) = 0" using separator_at [OF 1(3) l] eq by simp
      have "drop start s = take (j - start) (drop start s) @ drop j s"
        using 1(4) by (metis append_take_drop_id drop_drop le_add_diff_inverse2)
      also have "drop j s = sep @ drop (j + length sep) s" using eq by (metis add.commute append_take_drop_id drop_drop)
      finally have "s = concat (map (\<lambda>t. t @ sep) (tokens @ [take (j - start) (drop start s)])) @ drop (j + length sep) s"
        using 1(6) by simp
      from 1(1) [OF _ c 1(3) _ _ this] show ?thesis using True 1(3) l c by (subst splitlen_loop.simps) simp
    next
      case neq: False
      then have c: "\<not> ((length sep = 1 \<and> s ! j = sep ! 0) \<or> memcmp (drop j s) sep (length sep) = 0)" using separator_at [OF 1(3) l] by simp
      have "j + 1 \<le> length s" using True 1(3) l by (cases sep) auto
      from 1(2) [OF _ c 1(3) _ this 1(6)] show ?thesis using True 1(3,4) c by (subst splitlen_loop.simps) auto
    qed
  qed
qed

lemma sdssplitlen_joined: "sep \<noteq> [] \<Longrightarrow> \<exists>ts. sdssplitlen s sep = Some ts \<and> joined ts sep = s"
  using splitlen_loop_join [of sep 0 0 s "[]"] by (auto simp: sdssplitlen_def Suc_le_eq joined_def)

section \<open>Printed arguments are parsed back\<close>

lemma hex_char_digit: "n < 16 \<Longrightarrow> is_hex_digit (hex_char n) \<and> hex_digit_to_int (hex_char n) = n"
proof -
  assume "n < 16"
  then have "n \<in> set [0..<16]" by simp
  moreover have "\<forall>n \<in> set [0..<16]. is_hex_digit (hex_char n) \<and> hex_digit_to_int (hex_char n) = n" by code_simp
  ultimately show ?thesis by blast
qed

lemma hex_octet: "of_nat (unat c div 16 * 16 + unat c mod 16) = (c :: byte)"
  by simp

lemma hex_escape_x: "c \<noteq> 120 \<Longrightarrow> \<not> hex_escape (c # p)"
  by (auto simp: hex_escape_def split: list.splits)

lemma split_token_escaped:
  "c \<noteq> 120 \<Longrightarrow> split_token InQuotes (92 # c # p) current = split_token InQuotes p (current @ [unescape c])"
  by (simp add: hex_escape_x)

lemma split_token_plain:
  "c \<noteq> 92 \<Longrightarrow> c \<noteq> 34 \<Longrightarrow> split_token InQuotes (c # p) current = split_token InQuotes p (current @ [c])"
  by simp

lemma repr_char_cases:
  "(repr_char c = [c] \<and> c \<noteq> 92 \<and> c \<noteq> 34) \<or> (\<exists>d. repr_char c = [92, d] \<and> d \<noteq> 120 \<and> unescape d = c) \<or>
   repr_char c = [92, 120, hex_char (unat c div 16), hex_char (unat c mod 16)]"
  by (simp add: repr_char_def unescape_def)

lemma split_token_repr_char:
  "split_token InQuotes (repr_char c @ p) current = split_token InQuotes p (current @ [c])"
proof (cases "repr_char c = [92, 120, hex_char (unat c div 16), hex_char (unat c mod 16)]")
  case False
  then consider "repr_char c = [c]" "c \<noteq> 92" "c \<noteq> 34" | d where "repr_char c = [92, d]" "d \<noteq> 120" "unescape d = c"
    using repr_char_cases [of c] by blast
  then show ?thesis
  proof cases
    case 1
    show ?thesis unfolding 1(1) append.simps by (rule split_token_plain [OF 1(2,3)])
  next
    case (2 d)
    show ?thesis unfolding 2(1) append.simps by (rule split_token_escaped [OF 2(2), unfolded 2(3)])
  qed
next
  case True
  have "unat c div 16 < 16" "unat c mod 16 < 16" using unat_byte_less [of c] by simp_all
  then have "is_hex_digit (hex_char (unat c div 16))" "is_hex_digit (hex_char (unat c mod 16))"
    "hex_digit_to_int (hex_char (unat c div 16)) = unat c div 16" "hex_digit_to_int (hex_char (unat c mod 16)) = unat c mod 16"
    using hex_char_digit by simp_all
  then show ?thesis using True hex_octet [of c] by (simp add: hex_escape_def)
qed

lemma split_token_repr:
  "split_token InQuotes (concat (map repr_char v) @ 34 # p) current = (if token_end p then Some (current @ v, p) else None)"
  by (induction v arbitrary: current) (simp_all add: split_token_repr_char)

definition repr :: "mem \<Rightarrow> mem" where
  "repr v = [34] @ concat (map repr_char v) @ [34]"

lemma hex_char_nonzero: "n < 16 \<Longrightarrow> hex_char n \<noteq> 0"
  using hex_char_digit [of n] by (auto simp: is_hex_digit_def)

lemma repr_char_nonzero: "0 \<notin> set (repr_char c)"
  using hex_char_nonzero [of "unat c div 16"] hex_char_nonzero [of "unat c mod 16"] unat_byte_less [of c]
  by (auto simp: repr_char_def isprint_def)

lemma joined_Cons: "joined (a # b # as) sep = a @ sep @ joined (b # as) sep"
  by (simp add: joined_def)

lemma splitargs_loop_quoted:
  "token_end p \<Longrightarrow> splitargs_loop (repr v @ p) vector = splitargs_loop p (vector @ [v])"
  by (subst splitargs_loop.simps) (simp add: repr_def is_space_def split_token_repr)

lemma splitargs_loop_space: "splitargs_loop (32 # p) vector = splitargs_loop p vector"
  by (subst (1 2) splitargs_loop.simps) (simp add: is_space_def)

lemma splitargs_loop_repr:
  "splitargs_loop (joined (map repr args) [32]) vector = Some (vector @ args)"
proof (induction args arbitrary: vector rule: induct_list012)
  case 1
  show ?case by (subst splitargs_loop.simps) (simp add: joined_def)
next
  case (2 v)
  have "splitargs_loop [] (vector @ [v]) = Some (vector @ [v])" by (subst splitargs_loop.simps) simp
  then show ?case using splitargs_loop_quoted [of "[]" v vector] by (simp add: joined_def token_end_def)
next
  case (3 v w args)
  then show ?case using splitargs_loop_quoted [of "32 # joined (map repr (w # args)) [32]" v vector]
    by (simp add: joined_Cons token_end_def is_space_def splitargs_loop_space)
qed

lemma joined_set: "set (joined as sep) \<subseteq> set sep \<union> (\<Union>a \<in> set as. set a)"
  by (auto simp: joined_def dest: in_set_butlastD)

lemma sdssplitargs_repr: "sdssplitargs (joined (map repr args) [32]) = Some args"
proof -
  have "0 \<notin> set (joined (map repr args) [32])"
    using joined_set [of "map repr args" "[32]"] repr_char_nonzero by (fastforce simp: repr_def)
  then have "cstring (joined (map repr args) [32]) = joined (map repr args) [32]"
    by (auto simp: cstring_def takeWhile_eq_all_conv)
  then show ?thesis using splitargs_loop_repr [of args "[]"] by (simp add: sdssplitargs_def)
qed

section \<open>Properties\<close>

lemma sdsdup_holds:
  assumes "\<And>n. n \<le> usable n" "sds_ok s" "sds_len s + 18 < 2 ^ 64"
  shows "holds (sds_val s) (sdsdup usable junk s)"
  using sdsnewlen_gen_holds [of usable "sds_len s" "Octets (sds_buf s)" junk] assms
  by (simp add: sdsdup_def sdsnewlen_def sdslen_def sds_val_def sds_ok_def sds_fits_def)

text \<open>
  C8: with an allocator that returns at least what it is asked for, and sizes for which \<open>size_t\<close>
  does not wrap, every operation on a well-formed dynamic string stays inside its buffer, passes its
  assertions, keeps the string well formed - a length that fits the header, the allocated size inside
  the block, the terminating zero - and computes the octets that the corresponding list operation gives.
\<close>

theorem sds_refines_octets:
  assumes "\<forall>n. n \<le> usable n" "sds_ok s" "sds_len s + length t + SDS_MAX_PREALLOC + 18 < 2 ^ 64"
  shows "holds t (sdsnewlen usable junk (Octets t) (length t)) \<and>
    holds (sds_val s) (sdsdup usable junk s) \<and>
    holds (sds_val s @ t) (sdscatlen usable junk s t) \<and>
    holds t (sdscpylen usable junk s t) \<and>
    holds (sds_val s @ replicate (length t - sds_len s) 0) (sdsgrowzero usable junk s (length t)) \<and>
    holds (sds_val s) (sdsRemoveFreeSpace usable junk s) \<and>
    holds [] (sdsclear s) \<and>
    holds (range_of start end (sds_val s)) (sdsrange s start end) \<and>
    holds (rev (dropWhile (in_cset cset) (rev (dropWhile (in_cset cset) (sds_val s))))) (sdstrim s cset) \<and>
    holds (map tolower (sds_val s)) (sdstolower s) \<and>
    holds (map toupper (sds_val s)) (sdstoupper s) \<and>
    holds (map (map_char from to) (sds_val s)) (sdsmapchars s from to)"
  using assms sdsnewlen_holds [of usable t junk] sdsdup_holds [of usable s junk] sdscatlen_holds [of usable s t junk]
    sdscpylen_holds [of usable s t junk] sdsgrowzero_holds [of usable s "length t" junk] sdsRemoveFreeSpace_holds [of usable s junk]
    sdsclear_holds [of s] sdsrange_holds [of s start "end"] sdstrim_holds [of s cset] sds_map_holds [of s]
  by (simp add: sdstolower_def sdstoupper_def sdsmapchars_def)

theorem sds_refines_octets_witness:
  "holds (str ''abc'') (sdscatlen zmalloc_usable 0 \<lparr>sds_flags = SDS_TYPE_8, sds_len = 2, sds_alloc = 5, sds_buf = [97, 98, 0, 0, 0, 0]\<rparr> (str ''c''))"
  using sds_refines_octets [of zmalloc_usable "\<lparr>sds_flags = SDS_TYPE_8, sds_len = 2, sds_alloc = 5, sds_buf = [97, 98, 0, 0, 0, 0]\<rparr>" "str ''c''" 0]
  by (simp add: zmalloc_usable_def sds_ok_def sds_fits_def sds_val_def SDS_MAX_PREALLOC_def)

text \<open>
  C36: the check against overflow in \<open>sdsMakeRoomFor\<close> compares the size of the new block with the
  old length, not with the length asked for. Asking an empty string for \<open>2 ^ 64 - 100\<close> octets
  passes it and returns a string with less than a megabyte of room, which the caller then overruns.
\<close>

theorem sdsMakeRoomFor_overflow:
  "\<exists>s s'. sdsempty zmalloc_usable junk = Some s \<and> sdsMakeRoomFor zmalloc_usable junk s (2 ^ 64 - 100) = Some s' \<and>
     sdsavail s' < 2 ^ 20 \<and> sdscatlen zmalloc_usable junk s (replicate (2 ^ 64 - 100) x) = None"
proof -
  let ?s = "\<lparr>sds_flags = SDS_TYPE_8, sds_len = 0, sds_alloc = 0, sds_buf = [0]\<rparr>"
  have e: "sdsempty zmalloc_usable junk = Some ?s"
    by (simp add: sdsempty_def sdsnewlen_def sdsnewlen_gen_def sdsReqType_def u64_def zmalloc_usable_def mem_read_def sds_write_def mem_write_def)
  obtain b where b: "mem_write 0 [0] (replicate 1048477 junk) = Some b" "length b = 1048477"
    by (simp add: mem_write_def)
  let ?s' = "\<lparr>sds_flags = SDS_TYPE_32, sds_len = 0, sds_alloc = 1048476, sds_buf = b\<rparr>"
  have r: "sdsMakeRoomFor zmalloc_usable junk ?s (2 ^ 64 - 100) = Some ?s'"
    using b(1) by (simp add: sdsMakeRoomFor_def sdsavail_def sdslen_def u64_def SDS_MAX_PREALLOC_def sdsReqType_def zmalloc_usable_def
        mem_read_def sds_write_def sdssetlen_def sdssetalloc_def hdr_field_def)
  have c: "sdscatlen zmalloc_usable junk ?s t = None" if l: "length t = 2 ^ 64 - 100" for t
    unfolding sdscatlen_def l r using l b(2) by (simp add: sdslen_def sds_write_def mem_write_def)
  have a: "sdsavail ?s' < 2 ^ 20" by (simp add: sdsavail_def)
  show ?thesis by (intro exI conjI) (rule e, rule r, rule a, rule c, rule length_replicate)
qed

text \<open>
  C18: \<open>sdscatrepr\<close> appends the quoted form of any octets, and \<open>sdssplitargs\<close> reads a line of such
  forms, separated by spaces, back as exactly the printed arguments; the pieces \<open>sdssplitlen\<close> cuts a
  string into give the string again when they are joined with the separator.
\<close>

theorem sds_print_parse:
  assumes "\<forall>n. n \<le> usable n" "sds_ok s" "sds_len s + 4 * length p + SDS_MAX_PREALLOC + 20 < 2 ^ 64" "sep \<noteq> []"
  shows "holds (sds_val s @ repr p) (sdscatrepr usable junk s p) \<and>
    sdssplitargs (joined (map repr args) [32]) = Some args \<and>
    (\<exists>ts. sdssplitlen line sep = Some ts \<and> joined ts sep = line)"
proof -
  have "sds_len s + 4 * length p + 2 < 2 ^ 64 - SDS_MAX_PREALLOC - 18" using assms(3) by simp
  from allocator.sdscatrepr_val [OF allocatorI assms(2) this, of usable junk] assms(1)
  have "holds (sds_val s @ repr p) (sdscatrepr usable junk s p)" by (simp add: holds_def repr_def)
  then show ?thesis using sdssplitargs_repr [of args] sdssplitlen_joined [OF assms(4), of line] by blast
qed

theorem sds_print_parse_witness:
  "sdssplitargs (joined (map repr [str ''a b'', [0, 255], []]) [32]) = Some [str ''a b'', [0, 255], []]"
  using sds_print_parse [of zmalloc_usable "\<lparr>sds_flags = SDS_TYPE_8, sds_len = 0, sds_alloc = 0, sds_buf = [0]\<rparr>" "[]" "[44]" 0
      "[str ''a b'', [0, 255], []]" "[]"]
  by (simp add: zmalloc_usable_def sds_ok_def sds_fits_def SDS_MAX_PREALLOC_def del: list.map)

end
