(* ===== verification/Reply.thy ===== *)
theory Reply
  imports Sds
begin

text \<open>
  The output side of a client in \<open>networking.c\<close>: the static buffer, the list of reply blocks with
  the placeholders of deferred lengths, the functions that compose RESP replies from them, the limits
  on the size of the output, and the loop that writes to the socket.

  Of a buffer only the octets in use are kept: \<open>c_buf\<close> is the first \<open>bufpos\<close> octets of \<open>c->buf\<close>, and
  \<open>blk_data\<close> the first \<open>used\<close> octets of a block of size \<open>blk_size\<close>. A copy that would leave its block
  and a failing assertion give \<open>None\<close>. The sizes of blocks come from the allocator, \<open>usable\<close>.
\<close>

section \<open>Clients\<close>

datatype client_flag = CLIENT_SLAVE | CLIENT_MASTER | CLIENT_MONITOR | CLIENT_MULTI | CLIENT_BLOCKED | CLIENT_DIRTY_CAS
  | CLIENT_CLOSE_AFTER_REPLY | CLIENT_LUA | CLIENT_ASKING | CLIENT_CLOSE_ASAP | CLIENT_DIRTY_EXEC | CLIENT_MASTER_FORCE_REPLY
  | CLIENT_PUBSUB | CLIENT_PENDING_WRITE | CLIENT_REPLY_OFF | CLIENT_REPLY_SKIP_NEXT | CLIENT_REPLY_SKIP | CLIENT_MODULE
  | CLIENT_PENDING_READ | CLIENT_PENDING_COMMAND | CLIENT_TRACKING_CACHING | CLIENT_PROTOCOL_ERROR | CLIENT_DENY_BLOCKING
  | CLIENT_REPL_RDBONLY

datatype slave_state = REPL_STATE_NONE | SLAVE_STATE_WAIT_BGSAVE_START | SLAVE_STATE_WAIT_BGSAVE_END
  | SLAVE_STATE_SEND_BULK | SLAVE_STATE_ONLINE

datatype client_type = CLIENT_TYPE_NORMAL | CLIENT_TYPE_SLAVE | CLIENT_TYPE_PUBSUB | CLIENT_TYPE_MASTER

record reply_block =
  blk_size :: nat
  blk_data :: mem

text \<open>A reply node without a block is the placeholder of a deferred length.\<close>

record client =
  c_flags :: "client_flag set"
  c_conn :: bool
  c_resp :: nat
  c_buf :: mem
  c_reply :: "reply_block option list"
  c_reply_bytes :: nat
  c_sentlen :: nat
  c_soft_time :: int
  c_replstate :: slave_state
  c_put_online_on_ack :: bool

text \<open>The configuration: the allocator, the limits (hard, soft, seconds) of the output buffers and the clock.\<close>

record netconf =
  usable_size :: "nat \<Rightarrow> nat"
  obuf_limits :: "client_type \<Rightarrow> nat \<times> nat \<times> int"
  unixtime :: int

definition PROTO_REPLY_CHUNK_BYTES :: nat where "PROTO_REPLY_CHUNK_BYTES = 16 * 1024"
definition OBJ_SHARED_BULKHDR_LEN :: int where "OBJ_SHARED_BULKHDR_LEN = 32"
definition NET_MAX_WRITES_PER_EVENT :: nat where "NET_MAX_WRITES_PER_EVENT = 1024 * 64"

abbreviation has :: "client \<Rightarrow> client_flag \<Rightarrow> bool" where
  "has c f \<equiv> f \<in> c_flags c"

definition set_flag :: "client_flag \<Rightarrow> client \<Rightarrow> client" where
  "set_flag f c = c\<lparr>c_flags := insert f (c_flags c)\<rparr>"

definition clear_flag :: "client_flag \<Rightarrow> client \<Rightarrow> client" where
  "clear_flag f c = c\<lparr>c_flags := c_flags c - {f}\<rparr>"

section \<open>Limits\<close>

definition getClientType :: "client \<Rightarrow> client_type" where
  "getClientType c =
     (if has c CLIENT_MASTER then CLIENT_TYPE_MASTER
      else if has c CLIENT_SLAVE \<and> \<not> has c CLIENT_MONITOR then CLIENT_TYPE_SLAVE
      else if has c CLIENT_PUBSUB then CLIENT_TYPE_PUBSUB
      else CLIENT_TYPE_NORMAL)"

text \<open>\<open>sizeof (listNode) + sizeof (clientReplyBlock)\<close>\<close>

definition getClientOutputBufferMemoryUsage :: "client \<Rightarrow> nat" where
  "getClientOutputBufferMemoryUsage c = c_reply_bytes c + (24 + 16) * length (c_reply c)"

definition checkClientOutputBufferLimits :: "netconf \<Rightarrow> client \<Rightarrow> client \<times> bool" where
  "checkClientOutputBufferLimits conf c =
     (let used_mem = getClientOutputBufferMemoryUsage c;
          cls = (if getClientType c = CLIENT_TYPE_MASTER then CLIENT_TYPE_NORMAL else getClientType c);
          (hard_limit, soft_limit, seconds) = obuf_limits conf cls;
          hard = (hard_limit \<noteq> 0 \<and> used_mem \<ge> hard_limit);
          soft = (soft_limit \<noteq> 0 \<and> used_mem \<ge> soft_limit) in
      if soft then
        (if c_soft_time c = 0 then (c\<lparr>c_soft_time := unixtime conf\<rparr>, hard)
         else (c, hard \<or> \<not> unixtime conf - c_soft_time c \<le> seconds))
      else (c\<lparr>c_soft_time := 0\<rparr>, hard))"

definition freeClientAsync :: "client \<Rightarrow> client" where
  "freeClientAsync c =
     (if has c CLIENT_CLOSE_ASAP \<or> has c CLIENT_LUA then c else set_flag CLIENT_CLOSE_ASAP c)"

definition asyncCloseClientOnOutputBufferLimitReached :: "netconf \<Rightarrow> client \<Rightarrow> client option" where
  "asyncCloseClientOnOutputBufferLimitReached conf c =
     (if \<not> c_conn c then Some c
      else if \<not> c_reply_bytes c < 2 ^ 64 - 1 - 1024 * 64 then None
      else if c_reply_bytes c = 0 \<or> has c CLIENT_CLOSE_ASAP then Some c
      else let (c, reached) = checkClientOutputBufferLimits conf c in
        Some (if reached then freeClientAsync c else c))"

section \<open>The output buffers\<close>

definition clientHasPendingReplies :: "client \<Rightarrow> bool" where
  "clientHasPendingReplies c \<longleftrightarrow> length (c_buf c) \<noteq> 0 \<or> length (c_reply c) \<noteq> 0"

definition clientInstallWriteHandler :: "client \<Rightarrow> client" where
  "clientInstallWriteHandler c =
     (if \<not> has c CLIENT_PENDING_WRITE \<and>
         (c_replstate c = REPL_STATE_NONE \<or> (c_replstate c = SLAVE_STATE_ONLINE \<and> \<not> c_put_online_on_ack c))
      then set_flag CLIENT_PENDING_WRITE c else c)"

text \<open>The flag is \<open>C_OK\<close>.\<close>

definition prepareClientToWrite :: "client \<Rightarrow> client \<times> bool" where
  "prepareClientToWrite c =
     (if has c CLIENT_LUA \<or> has c CLIENT_MODULE then (c, True)
      else if has c CLIENT_CLOSE_ASAP then (c, False)
      else if has c CLIENT_REPLY_OFF \<or> has c CLIENT_REPLY_SKIP then (c, False)
      else if has c CLIENT_MASTER \<and> \<not> has c CLIENT_MASTER_FORCE_REPLY then (c, False)
      else if \<not> c_conn c then (c, False)
      else (if \<not> clientHasPendingReplies c \<and> \<not> has c CLIENT_PENDING_READ then clientInstallWriteHandler c else c, True))"

definition addReplyToBuffer :: "client \<Rightarrow> mem \<Rightarrow> client \<times> bool" where
  "addReplyToBuffer c s =
     (let available = PROTO_REPLY_CHUNK_BYTES - length (c_buf c) in
      if has c CLIENT_CLOSE_AFTER_REPLY then (c, True)
      else if length (c_reply c) > 0 then (c, False)
      else if length s > available then (c, False)
      else (c\<lparr>c_buf := c_buf c @ s\<rparr>, True))"

text \<open>A copy behind the octets of a block, and a new block for at least \<open>n\<close> octets.\<close>

definition blk_append :: "reply_block \<Rightarrow> mem \<Rightarrow> reply_block option" where
  "blk_append b s = (if length (blk_data b) + length s \<le> blk_size b then Some (b\<lparr>blk_data := blk_data b @ s\<rparr>) else None)"

definition new_block :: "netconf \<Rightarrow> nat \<Rightarrow> mem \<Rightarrow> reply_block option" where
  "new_block conf n s = blk_append \<lparr>blk_size = usable_size conf (n + 16) - 16, blk_data = []\<rparr> s"

text \<open>The part that fits into the tail is copied there, the rest is left.\<close>

definition append_to_tail :: "client \<Rightarrow> mem \<Rightarrow> (client \<times> mem) option" where
  "append_to_tail c s =
     (if c_reply c = [] then Some (c, s)
      else (case last (c_reply c) of
        None \<Rightarrow> Some (c, s)
      | Some tail \<Rightarrow> do {
          let copy = min (length s) (blk_size tail - length (blk_data tail));
          tail \<leftarrow> blk_append tail (take copy s);
          Some (c\<lparr>c_reply := butlast (c_reply c) @ [Some tail]\<rparr>, drop copy s)
        }))"

definition append_node :: "netconf \<Rightarrow> client \<Rightarrow> mem \<Rightarrow> client option" where
  "append_node conf c s =
     (if s \<noteq> [] then do {
        tail \<leftarrow> new_block conf (max PROTO_REPLY_CHUNK_BYTES (length s)) s;
        Some (c\<lparr>c_reply := c_reply c @ [Some tail], c_reply_bytes := c_reply_bytes c + blk_size tail\<rparr>)
      } else Some c)"

definition addReplyProtoToList :: "netconf \<Rightarrow> client \<Rightarrow> mem \<Rightarrow> client option" where
  "addReplyProtoToList conf c s =
     (if has c CLIENT_CLOSE_AFTER_REPLY then Some c
      else do {
        (c, s) \<leftarrow> append_to_tail c s;
        c \<leftarrow> append_node conf c s;
        asyncCloseClientOnOutputBufferLimitReached conf c
      })"

definition addReplyProto :: "netconf \<Rightarrow> client \<Rightarrow> mem \<Rightarrow> client option" where
  "addReplyProto conf c s =
     (let (c, ok) = prepareClientToWrite c in
      if \<not> ok then Some c
      else let (c', ok) = addReplyToBuffer c s in
      if ok then Some c' else addReplyProtoToList conf c s)"

definition addReply :: "netconf \<Rightarrow> client \<Rightarrow> sobj \<Rightarrow> client option" where
  "addReply conf c obj =
     (let (c, ok) = prepareClientToWrite c in
      if \<not> ok then Some c
      else do {
        s \<leftarrow> (case enc obj of Raw s _ \<Rightarrow> Some s | Embstr s \<Rightarrow> Some s | EncInt v \<Rightarrow> ll_buf 32 v);
        let (c', ok) = addReplyToBuffer c s;
        if ok then Some c' else addReplyProtoToList conf c s
      })"

definition addReplySds :: "netconf \<Rightarrow> client \<Rightarrow> mem \<Rightarrow> client option" where
  "addReplySds conf c s =
     (let (c, ok) = prepareClientToWrite c in
      if \<not> ok then Some c
      else let (c', ok) = addReplyToBuffer c s in
      if ok then Some c' else addReplyProtoToList conf c s)"

section \<open>Replies\<close>

definition crlf :: mem where "crlf = [13, 10]"

definition shared_obj :: "mem \<Rightarrow> sobj" where
  "shared_obj s = createRawStringObject s"

definition shared_mbulkhdr :: "int \<Rightarrow> sobj" where
  "shared_mbulkhdr j = shared_obj (str ''*'' @ dec_int j @ crlf)"

definition shared_bulkhdr :: "int \<Rightarrow> sobj" where
  "shared_bulkhdr j = shared_obj (str ''$'' @ dec_int j @ crlf)"

definition addReplyErrorLength :: "netconf \<Rightarrow> client \<Rightarrow> mem \<Rightarrow> client option" where
  "addReplyErrorLength conf c s = do {
     c \<leftarrow> (if s = [] \<or> hd s \<noteq> ch CHR ''-'' then addReplyProto conf c (str ''-ERR '') else Some c);
     c \<leftarrow> addReplyProto conf c s;
     addReplyProto conf c crlf
   }"

definition addReplyStatusLength :: "netconf \<Rightarrow> client \<Rightarrow> mem \<Rightarrow> client option" where
  "addReplyStatusLength conf c s = do {
     c \<leftarrow> addReplyProto conf c (str ''+'');
     c \<leftarrow> addReplyProto conf c s;
     addReplyProto conf c crlf
   }"

definition addReplyLongLongWithPrefix :: "netconf \<Rightarrow> client \<Rightarrow> int \<Rightarrow> byte \<Rightarrow> client option" where
  "addReplyLongLongWithPrefix conf c ll prefix =
     (if prefix = ch CHR ''*'' \<and> ll < OBJ_SHARED_BULKHDR_LEN \<and> ll \<ge> 0 then addReply conf c (shared_mbulkhdr ll)
      else if prefix = ch CHR ''$'' \<and> ll < OBJ_SHARED_BULKHDR_LEN \<and> ll \<ge> 0 then addReply conf c (shared_bulkhdr ll)
      else do {
        b \<leftarrow> ll_buf 127 ll;
        addReplyProto conf c ([prefix] @ b @ crlf)
      })"

definition addReplyLongLong :: "netconf \<Rightarrow> client \<Rightarrow> int \<Rightarrow> client option" where
  "addReplyLongLong conf c ll =
     (if ll = 0 then addReply conf c (shared_obj (str '':0'' @ crlf))
      else if ll = 1 then addReply conf c (shared_obj (str '':1'' @ crlf))
      else addReplyLongLongWithPrefix conf c ll (ch CHR '':''))"

definition addReplyAggregateLen :: "netconf \<Rightarrow> client \<Rightarrow> int \<Rightarrow> byte \<Rightarrow> client option" where
  "addReplyAggregateLen conf c n prefix =
     (if \<not> n \<ge> 0 then None else addReplyLongLongWithPrefix conf c n prefix)"

definition addReplyArrayLen :: "netconf \<Rightarrow> client \<Rightarrow> int \<Rightarrow> client option" where
  "addReplyArrayLen conf c n = addReplyAggregateLen conf c n (ch CHR ''*'')"

definition addReplyMapLen :: "netconf \<Rightarrow> client \<Rightarrow> int \<Rightarrow> client option" where
  "addReplyMapLen conf c n =
     addReplyAggregateLen conf c (if c_resp c = 2 then n * 2 else n) (if c_resp c = 2 then ch CHR ''*'' else ch CHR ''%'')"

definition addReplySetLen :: "netconf \<Rightarrow> client \<Rightarrow> int \<Rightarrow> client option" where
  "addReplySetLen conf c n = addReplyAggregateLen conf c n (if c_resp c = 2 then ch CHR ''*'' else ch CHR ''~'')"

definition addReplyAttributeLen :: "netconf \<Rightarrow> client \<Rightarrow> int \<Rightarrow> client option" where
  "addReplyAttributeLen conf c n =
     addReplyAggregateLen conf c (if c_resp c = 2 then n * 2 else n) (if c_resp c = 2 then ch CHR ''*'' else ch CHR ''|'')"

definition addReplyPushLen :: "netconf \<Rightarrow> client \<Rightarrow> int \<Rightarrow> client option" where
  "addReplyPushLen conf c n = addReplyAggregateLen conf c n (if c_resp c = 2 then ch CHR ''*'' else ch CHR ''>'')"

definition addReplyNull :: "netconf \<Rightarrow> client \<Rightarrow> client option" where
  "addReplyNull conf c = addReplyProto conf c ((if c_resp c = 2 then str ''$-1'' else str ''_'') @ crlf)"

definition addReplyBool :: "netconf \<Rightarrow> client \<Rightarrow> bool \<Rightarrow> client option" where
  "addReplyBool conf c b =
     (if c_resp c = 2 then addReply conf c (shared_obj ((if b then str '':1'' else str '':0'') @ crlf))
      else addReplyProto conf c ((if b then str ''#t'' else str ''#f'') @ crlf))"

definition addReplyNullArray :: "netconf \<Rightarrow> client \<Rightarrow> client option" where
  "addReplyNullArray conf c = addReplyProto conf c ((if c_resp c = 2 then str ''*-1'' else str ''_'') @ crlf)"

definition addReplyBulkLen :: "netconf \<Rightarrow> client \<Rightarrow> sobj \<Rightarrow> client option" where
  "addReplyBulkLen conf c obj = addReplyLongLongWithPrefix conf c (int (stringObjectLen obj)) (ch CHR ''$'')"

definition addReplyBulk :: "netconf \<Rightarrow> client \<Rightarrow> sobj \<Rightarrow> client option" where
  "addReplyBulk conf c obj = do {
     c \<leftarrow> addReplyBulkLen conf c obj;
     c \<leftarrow> addReply conf c obj;
     addReply conf c (shared_obj crlf)
   }"

definition addReplyBulkCBuffer :: "netconf \<Rightarrow> client \<Rightarrow> mem \<Rightarrow> client option" where
  "addReplyBulkCBuffer conf c p = do {
     c \<leftarrow> addReplyLongLongWithPrefix conf c (int (length p)) (ch CHR ''$'');
     c \<leftarrow> addReplyProto conf c p;
     addReply conf c (shared_obj crlf)
   }"

definition addReplyBulkSds :: "netconf \<Rightarrow> client \<Rightarrow> mem \<Rightarrow> client option" where
  "addReplyBulkSds conf c s = do {
     c \<leftarrow> addReplyLongLongWithPrefix conf c (int (length s)) (ch CHR ''$'');
     c \<leftarrow> addReplySds conf c s;
     addReply conf c (shared_obj crlf)
   }"

definition addReplyBulkLongLong :: "netconf \<Rightarrow> client \<Rightarrow> int \<Rightarrow> client option" where
  "addReplyBulkLongLong conf c ll = do { b \<leftarrow> ll_buf 64 ll; addReplyBulkCBuffer conf c b }"

section \<open>Deferred lengths\<close>

definition trimReplyUnusedTailSpace :: "netconf \<Rightarrow> client \<Rightarrow> client option" where
  "trimReplyUnusedTailSpace conf c =
     (if c_reply c = [] then Some c
      else (case last (c_reply c) of
        None \<Rightarrow> Some c
      | Some tail \<Rightarrow>
          if blk_size tail - length (blk_data tail) > blk_size tail div 4 \<and> length (blk_data tail) < PROTO_REPLY_CHUNK_BYTES then do {
            tail' \<leftarrow> new_block conf (length (blk_data tail)) (blk_data tail);
            Some (c\<lparr>c_reply_bytes := c_reply_bytes c + blk_size tail' - blk_size tail,
                    c_reply := butlast (c_reply c) @ [Some tail']\<rparr>)
          } else Some c))"

text \<open>The node is its position in the list.\<close>

definition addReplyDeferredLen :: "netconf \<Rightarrow> client \<Rightarrow> (client \<times> nat option) option" where
  "addReplyDeferredLen conf c =
     (let (c, ok) = prepareClientToWrite c in
      if \<not> ok then Some (c, None)
      else do {
        c \<leftarrow> trimReplyUnusedTailSpace conf c;
        Some (c\<lparr>c_reply := c_reply c @ [None]\<rparr>, Some (length (c_reply c)))
      })"

definition setDeferredReply :: "netconf \<Rightarrow> client \<Rightarrow> nat option \<Rightarrow> mem \<Rightarrow> client option" where
  "setDeferredReply conf c node s = (case node of
     None \<Rightarrow> Some c
   | Some i \<Rightarrow> do {
       ln \<leftarrow> nth_opt (c_reply c) i;
       if ln \<noteq> None then None
       else do {
         c \<leftarrow> (case nth_opt (c_reply c) (i + 1) of
             Some (Some nxt) \<Rightarrow>
               if blk_size nxt - length (blk_data nxt) \<ge> length s \<and> length (blk_data nxt) < PROTO_REPLY_CHUNK_BYTES * 4 then do {
                 nxt \<leftarrow> blk_append (nxt\<lparr>blk_data := s\<rparr>) (blk_data nxt);
                 Some (c\<lparr>c_reply := take i (c_reply c) @ Some nxt # drop (i + 2) (c_reply c)\<rparr>)
               } else do {
                 b \<leftarrow> new_block conf (length s) s;
                 Some (c\<lparr>c_reply := (c_reply c)[i := Some b], c_reply_bytes := c_reply_bytes c + blk_size b\<rparr>)
               }
           | _ \<Rightarrow> do {
               b \<leftarrow> new_block conf (length s) s;
               Some (c\<lparr>c_reply := (c_reply c)[i := Some b], c_reply_bytes := c_reply_bytes c + blk_size b\<rparr>)
             });
         asyncCloseClientOnOutputBufferLimitReached conf c
       }
     })"

definition setDeferredAggregateLen :: "netconf \<Rightarrow> client \<Rightarrow> nat option \<Rightarrow> int \<Rightarrow> byte \<Rightarrow> client option" where
  "setDeferredAggregateLen conf c node n prefix =
     (if \<not> n \<ge> 0 then None
      else if node = None then Some c
      else setDeferredReply conf c node ([prefix] @ dec_int n @ crlf))"

definition setDeferredArrayLen :: "netconf \<Rightarrow> client \<Rightarrow> nat option \<Rightarrow> int \<Rightarrow> client option" where
  "setDeferredArrayLen conf c node n = setDeferredAggregateLen conf c node n (ch CHR ''*'')"

definition setDeferredMapLen :: "netconf \<Rightarrow> client \<Rightarrow> nat option \<Rightarrow> int \<Rightarrow> client option" where
  "setDeferredMapLen conf c node n =
     setDeferredAggregateLen conf c node (if c_resp c = 2 then n * 2 else n) (if c_resp c = 2 then ch CHR ''*'' else ch CHR ''%'')"

definition setDeferredSetLen :: "netconf \<Rightarrow> client \<Rightarrow> nat option \<Rightarrow> int \<Rightarrow> client option" where
  "setDeferredSetLen conf c node n =
     setDeferredAggregateLen conf c node n (if c_resp c = 2 then ch CHR ''*'' else ch CHR ''~'')"

definition setDeferredAttributeLen :: "netconf \<Rightarrow> client \<Rightarrow> nat option \<Rightarrow> int \<Rightarrow> client option" where
  "setDeferredAttributeLen conf c node n =
     setDeferredAggregateLen conf c node (if c_resp c = 2 then n * 2 else n) (if c_resp c = 2 then ch CHR ''*'' else ch CHR ''|'')"

definition setDeferredPushLen :: "netconf \<Rightarrow> client \<Rightarrow> nat option \<Rightarrow> int \<Rightarrow> client option" where
  "setDeferredPushLen conf c node n =
     setDeferredAggregateLen conf c node n (if c_resp c = 2 then ch CHR ''*'' else ch CHR ''>'')"

section \<open>Writing to the socket\<close>

text \<open>
  What the socket does is the list of the results of \<open>connWrite\<close>; when it is empty the socket accepts
  nothing more and the result is \<open>- 1\<close>. \<open>below\<close> tells whether the memory in use is below the limit.
  The loop returns the client, the octets that went out, the last result, or \<open>None\<close> where the source
  would read a placeholder or fail its assertion.
\<close>

definition write_buf :: "nat \<Rightarrow> client \<Rightarrow> client \<times> mem" where
  "write_buf n c =
     (let bs = take n (drop (c_sentlen c) (c_buf c));
          c = c\<lparr>c_sentlen := c_sentlen c + length bs\<rparr> in
      (if c_sentlen c = length (c_buf c) then c\<lparr>c_buf := [], c_sentlen := 0\<rparr> else c, bs))"

definition write_block :: "nat \<Rightarrow> reply_block \<Rightarrow> client \<Rightarrow> (client \<times> mem) option" where
  "write_block n b c =
     (let bs = take n (drop (c_sentlen c) (blk_data b));
          c = c\<lparr>c_sentlen := c_sentlen c + length bs\<rparr> in
      if c_sentlen c = length (blk_data b) then
        (let c = c\<lparr>c_reply_bytes := c_reply_bytes c - blk_size b, c_reply := tl (c_reply c), c_sentlen := 0\<rparr> in
         if c_reply c = [] \<and> c_reply_bytes c \<noteq> 0 then None else Some (c, bs))
      else Some (c, bs))"

lemma write_buf_reply: "write_buf n c = (c', bs) \<Longrightarrow> c_reply c' = c_reply c"
  by (auto simp: write_buf_def Let_def)

lemma write_block_reply: "write_block n b c = Some (c', bs) \<Longrightarrow> length (c_reply c') \<le> length (c_reply c)"
  by (auto simp: write_block_def Let_def split: if_splits)

function write_loop :: "bool \<Rightarrow> int list \<Rightarrow> client \<Rightarrow> mem \<Rightarrow> int \<Rightarrow> (client \<times> mem \<times> int) option" where
  "write_loop below ns c out last_n =
     (if \<not> clientHasPendingReplies c then Some (c, out, last_n)
      else if length (c_buf c) > 0 then
        (case ns of
           [] \<Rightarrow> Some (c, out, - 1)
         | n # ns \<Rightarrow>
             if n \<le> 0 then Some (c, out, n)
             else (case write_buf (nat n) c of (c, bs) \<Rightarrow>
               if length (out @ bs) > NET_MAX_WRITES_PER_EVENT \<and> below \<and> \<not> has c CLIENT_SLAVE then Some (c, out @ bs, n)
               else write_loop below ns c (out @ bs) n))
      else (case hd (c_reply c) of
          None \<Rightarrow> None
        | Some b \<Rightarrow>
            if length (blk_data b) = 0 then
              write_loop below ns (c\<lparr>c_reply_bytes := c_reply_bytes c - blk_size b, c_reply := tl (c_reply c)\<rparr>) out last_n
            else (case ns of
              [] \<Rightarrow> Some (c, out, - 1)
            | n # ns \<Rightarrow>
                if n \<le> 0 then Some (c, out, n)
                else (case write_block (nat n) b c of
                  None \<Rightarrow> None
                | Some (c, bs) \<Rightarrow>
                    if length (out @ bs) > NET_MAX_WRITES_PER_EVENT \<and> below \<and> \<not> has c CLIENT_SLAVE then Some (c, out @ bs, n)
                    else write_loop below ns c (out @ bs) n))))"
  by pat_completeness auto
termination
  by (relation "measure (\<lambda>(below, ns, c, out, last_n). length ns + length (c_reply c))")
    (auto simp: clientHasPendingReplies_def dest!: write_buf_reply [OF sym] write_block_reply)

declare write_loop.simps [simp del]

text \<open>The flag is \<open>C_OK\<close>. \<open>connected\<close> is the state of the connection after a failed write.\<close>

definition writeToClient :: "bool \<Rightarrow> bool \<Rightarrow> int list \<Rightarrow> client \<Rightarrow> (client \<times> mem \<times> bool) option" where
  "writeToClient below connected ns c = do {
     (c, out, nwritten) \<leftarrow> write_loop below ns c [] 0;
     if nwritten = - 1 \<and> \<not> connected then Some (freeClientAsync c, out, False)
     else if \<not> clientHasPendingReplies c then
       (let c = c\<lparr>c_sentlen := 0\<rparr> in
        if has c CLIENT_CLOSE_AFTER_REPLY then Some (freeClientAsync c, out, False) else Some (c, out, True))
     else Some (c, out, True)
   }"

section \<open>What is pending\<close>

text \<open>The octets that wait to be sent; a hole is a length that is still to be filled in.\<close>

definition seg :: "reply_block option \<Rightarrow> byte option list" where
  "seg n = (case n of None \<Rightarrow> [None] | Some b \<Rightarrow> map Some (blk_data b))"

definition queued :: "client \<Rightarrow> byte option list" where
  "queued c = map Some (c_buf c) @ concat (map seg (c_reply c))"

definition pend :: "client \<Rightarrow> byte option list" where
  "pend c = drop (c_sentlen c) (queued c)"

definition blk_ok :: "reply_block option \<Rightarrow> bool" where
  "blk_ok n \<longleftrightarrow> (case n of None \<Rightarrow> True | Some b \<Rightarrow> length (blk_data b) \<le> blk_size b)"

definition blocks_size :: "reply_block option list \<Rightarrow> nat" where
  "blocks_size ns = sum_list (map (\<lambda>n. case n of None \<Rightarrow> 0 | Some b \<Rightarrow> blk_size b) ns)"

text \<open>What has been sent of the first buffer that is not empty.\<close>

definition first_len :: "client \<Rightarrow> nat" where
  "first_len c = (if c_buf c \<noteq> [] then length (c_buf c) else (case c_reply c of Some b # _ \<Rightarrow> length (blk_data b) | _ \<Rightarrow> 0))"

definition sent_ok :: "client \<Rightarrow> bool" where
  "sent_ok c \<longleftrightarrow> c_sentlen c = 0 \<or> c_sentlen c < first_len c"

definition out_ok :: "client \<Rightarrow> bool" where
  "out_ok c \<longleftrightarrow> length (c_buf c) \<le> PROTO_REPLY_CHUNK_BYTES \<and> list_all blk_ok (c_reply c) \<and>
     c_reply_bytes c = blocks_size (c_reply c) \<and> sent_ok c"

lemma blocks_size_simps [simp]:
  "blocks_size [] = 0" "blocks_size (n # ns) = (case n of None \<Rightarrow> 0 | Some b \<Rightarrow> blk_size b) + blocks_size ns"
  "blocks_size (ns @ ms) = blocks_size ns + blocks_size ms"
  by (simp_all add: blocks_size_def)

lemma seg_simps [simp]: "seg None = [None]" "seg (Some b) = map Some (blk_data b)"
  by (simp_all add: seg_def)

lemma blk_ok_simps [simp]: "blk_ok None" "blk_ok (Some b) \<longleftrightarrow> length (blk_data b) \<le> blk_size b"
  by (simp_all add: blk_ok_def)

text \<open>A client with a connection that replies are meant for; the output limits may schedule it to be closed.\<close>

definition normal :: "client \<Rightarrow> bool" where
  "normal c \<longleftrightarrow> c_conn c \<and> (has c CLIENT_MASTER \<longrightarrow> has c CLIENT_MASTER_FORCE_REPLY) \<and>
     \<not> has c CLIENT_LUA \<and> \<not> has c CLIENT_MODULE \<and> \<not> has c CLIENT_CLOSE_AFTER_REPLY \<and> \<not> has c CLIENT_REPLY_OFF \<and> \<not> has c CLIENT_REPLY_SKIP"

abbreviation closing :: "client \<Rightarrow> bool" where
  "closing c \<equiv> has c CLIENT_CLOSE_ASAP"

definition byte_limit :: nat where "byte_limit = 2 ^ 64 - 1 - 1024 * 64"

text \<open>The same output, and possibly scheduled to be closed or to be written.\<close>

definition same_output :: "client \<Rightarrow> client \<Rightarrow> bool" where
  "same_output c c' \<longleftrightarrow> c_buf c' = c_buf c \<and> c_reply c' = c_reply c \<and> c_reply_bytes c' = c_reply_bytes c \<and> c_sentlen c' = c_sentlen c \<and>
     c_conn c' = c_conn c \<and> c_resp c' = c_resp c \<and> c_replstate c' = c_replstate c \<and>
     c_flags c \<subseteq> c_flags c' \<and> c_flags c' \<subseteq> insert CLIENT_CLOSE_ASAP (insert CLIENT_PENDING_WRITE (c_flags c))"

lemma same_output_ok:
  assumes "same_output c c'"
  shows "out_ok c' = out_ok c" "pend c' = pend c" "normal c' = normal c" "closing c \<Longrightarrow> closing c'"
proof -
  show "out_ok c' = out_ok c" "pend c' = pend c"
    using assms by (simp_all add: same_output_def out_ok_def sent_ok_def first_len_def pend_def queued_def)
  show "normal c' = normal c" "closing c \<Longrightarrow> closing c'"
    using assms by (auto simp: same_output_def normal_def)
qed

lemma same_output_refl [simp]: "same_output c c"
  by (auto simp: same_output_def)

lemma same_output_trans: "same_output a b \<Longrightarrow> same_output b c \<Longrightarrow> same_output a c"
  unfolding same_output_def by auto

lemma freeClientAsync_same: "same_output c (freeClientAsync c)"
  by (auto simp: freeClientAsync_def set_flag_def same_output_def)

lemma check_same: "same_output c (fst (checkClientOutputBufferLimits conf c))"
proof -
  have "fst (checkClientOutputBufferLimits conf c) \<in> {c, c\<lparr>c_soft_time := unixtime conf\<rparr>, c\<lparr>c_soft_time := 0\<rparr>}"
    unfolding checkClientOutputBufferLimits_def Let_def by (simp split: prod.split)
  then show ?thesis by (auto simp: same_output_def)
qed

lemma asyncClose_same:
  assumes "c_reply_bytes c < byte_limit"
  shows "\<exists>c'. asyncCloseClientOnOutputBufferLimitReached conf c = Some c' \<and> same_output c c'"
proof -
  obtain c1 reached where k: "checkClientOutputBufferLimits conf c = (c1, reached)" by fastforce
  then have "same_output c (if reached then freeClientAsync c1 else c1)"
    using check_same [of c conf] freeClientAsync_same [of c1] same_output_trans [of c c1] by simp
  then show ?thesis using assms k
    unfolding asyncCloseClientOnOutputBufferLimitReached_def byte_limit_def [symmetric] by simp
qed

lemma prepare_same:
  assumes "normal c"
  shows "same_output c (fst (prepareClientToWrite c))" "snd (prepareClientToWrite c) \<longleftrightarrow> \<not> closing c"
    "\<not> closing c \<Longrightarrow> \<not> closing (fst (prepareClientToWrite c))"
  using assms by (auto simp: prepareClientToWrite_def normal_def clientInstallWriteHandler_def set_flag_def same_output_def)

text \<open>
  A function that adds the octets \<open>s\<close> to the output. When the client is to be closed the rest of them
  is dropped. \<open>k\<close> bounds the growth of the reply list.
\<close>

definition adds :: "client \<Rightarrow> mem \<Rightarrow> nat \<Rightarrow> client option \<Rightarrow> bool" where
  "adds c s k r \<longleftrightarrow> (normal c \<longrightarrow> out_ok c \<longrightarrow> c_reply_bytes c + k < byte_limit \<longrightarrow>
     (\<exists>c' p q. r = Some c' \<and> s = p @ q \<and> normal c' \<and> out_ok c' \<and> pend c' = pend c @ map Some p \<and>
        c_reply_bytes c' \<le> c_reply_bytes c + k \<and> c_resp c' = c_resp c \<and>
        (\<not> closing c' \<longrightarrow> q = []) \<and> (closing c \<longrightarrow> p = [] \<and> closing c')))"

lemma adds_bind:
  assumes "adds c s k r" "\<And>c'. c_resp c' = c_resp c \<Longrightarrow> adds c' t m (f c')"
  shows "adds c (s @ t) (k + m) (r \<bind> f)"
  unfolding adds_def
proof (intro impI)
  assume n: "normal c" "out_ok c" "c_reply_bytes c + (k + m) < byte_limit"
  then have "c_reply_bytes c + k < byte_limit" by simp
  with n(1,2) obtain c' p q where c': "r = Some c'" "s = p @ q" "normal c'" "out_ok c'" "pend c' = pend c @ map Some p"
      "c_reply_bytes c' \<le> c_reply_bytes c + k" "c_resp c' = c_resp c" "\<not> closing c' \<longrightarrow> q = []" "closing c \<longrightarrow> p = [] \<and> closing c'"
    using assms(1) unfolding adds_def by blast
  moreover have "c_reply_bytes c' + m < byte_limit" using c'(6) n(3) by simp
  ultimately obtain c'' p2 q2 where c'': "f c' = Some c''" "t = p2 @ q2" "normal c''" "out_ok c''" "pend c'' = pend c' @ map Some p2"
      "c_reply_bytes c'' \<le> c_reply_bytes c' + m" "c_resp c'' = c_resp c'" "\<not> closing c'' \<longrightarrow> q2 = []" "closing c' \<longrightarrow> p2 = [] \<and> closing c''"
    using assms(2) [OF c'(7)] unfolding adds_def by blast
  have e: "r \<bind> f = Some c''" "c_reply_bytes c'' \<le> c_reply_bytes c + (k + m)" "c_resp c'' = c_resp c" using c' c'' by simp_all
  show "\<exists>c' p q. r \<bind> f = Some c' \<and> s @ t = p @ q \<and> normal c' \<and> out_ok c' \<and> pend c' = pend c @ map Some p \<and>
        c_reply_bytes c' \<le> c_reply_bytes c + (k + m) \<and> c_resp c' = c_resp c \<and> (\<not> closing c' \<longrightarrow> q = []) \<and> (closing c \<longrightarrow> p = [] \<and> closing c')"
  proof (cases "q = []")
    case True
    then show ?thesis using e c'(2,5,9) c''(2-5,8,9) by (intro exI [of _ c''] exI [of _ "p @ p2"] exI [of _ q2]) simp
  next
    case False
    then have "closing c'" using c'(8) by blast
    then show ?thesis using e c'(2,5,9) c''(2-5,8,9) by (intro exI [of _ c''] exI [of _ p] exI [of _ "q @ t"]) simp
  qed
qed

section \<open>Every function adds what it should\<close>

definition conf_ok :: "netconf \<Rightarrow> bool" where
  "conf_ok conf \<longleftrightarrow> (\<forall>n. n \<le> usable_size conf n)"

text \<open>The largest block that \<open>n\<close> octets may need.\<close>

definition cost :: "netconf \<Rightarrow> nat \<Rightarrow> nat" where
  "cost conf n = Max ((\<lambda>k. usable_size conf (max PROTO_REPLY_CHUNK_BYTES k + 16)) ` {..n})"

lemma cost_ge: "k \<le> n \<Longrightarrow> usable_size conf (max PROTO_REPLY_CHUNK_BYTES k + 16) \<le> cost conf n"
  unfolding cost_def by (rule Max_ge) auto

lemma first_len_le: "first_len c \<le> length (queued c)"
  by (auto simp: first_len_def queued_def split: list.split option.split)

lemma sentlen_le: "sent_ok c \<Longrightarrow> c_sentlen c \<le> length (queued c)"
  using first_len_le [of c] by (auto simp: sent_ok_def)

lemma out_grow:
  assumes "out_ok c" "queued c' = queued c @ map Some t" "first_len c \<le> first_len c'" "c_sentlen c' = c_sentlen c"
    "length (c_buf c') \<le> PROTO_REPLY_CHUNK_BYTES" "list_all blk_ok (c_reply c')" "c_reply_bytes c' = blocks_size (c_reply c')"
  shows "out_ok c'" "pend c' = pend c @ map Some t"
  using assms sentlen_le [of c] by (auto simp: out_ok_def sent_ok_def pend_def)

lemma new_block_ok:
  assumes "conf_ok conf" "length s \<le> n"
  shows "\<exists>b. new_block conf n s = Some b \<and> blk_data b = s \<and> length s \<le> blk_size b \<and> blk_size b \<le> usable_size conf (n + 16)"
proof -
  have "n + 16 \<le> usable_size conf (n + 16)" using assms(1) by (simp add: conf_ok_def)
  then show ?thesis using assms(2) by (simp add: new_block_def blk_append_def)
qed

lemma first_len_snoc:
  "c_buf c' = c_buf c \<Longrightarrow> c_reply c' = butlast (c_reply c) @ [Some b] \<Longrightarrow> c_reply c \<noteq> [] \<Longrightarrow> last (c_reply c) = Some b0 \<Longrightarrow>
     length (blk_data b0) \<le> length (blk_data b) \<Longrightarrow> first_len c \<le> first_len c'"
  "c_buf c' = c_buf c \<Longrightarrow> c_reply c' = c_reply c @ ns \<Longrightarrow> first_len c \<le> first_len c'"
  by (auto simp: first_len_def neq_Nil_conv split: list.split option.split if_splits)

definition like :: "client \<Rightarrow> client \<Rightarrow> bool" where
  "like c c' \<longleftrightarrow> c_flags c' = c_flags c \<and> c_conn c' = c_conn c \<and> c_resp c' = c_resp c"

lemma append_to_tail_ok:
  assumes ok: "out_ok c"
  shows "\<exists>c' n. append_to_tail c s = Some (c', drop n s) \<and> out_ok c' \<and> pend c' = pend c @ map Some (take n s) \<and>
    like c c' \<and> c_reply_bytes c' = c_reply_bytes c"
proof (cases "c_reply c = [] \<or> last (c_reply c) = None")
  case True
  then have "append_to_tail c s = Some (c, drop 0 s)" by (auto simp: append_to_tail_def)
  then show ?thesis using ok by (intro exI [of _ c] exI [of _ 0]) (simp add: like_def)
next
  case False
  then obtain tail where t: "c_reply c \<noteq> []" "last (c_reply c) = Some tail" by auto
  then have r: "c_reply c = butlast (c_reply c) @ [Some tail]" by (metis append_butlast_last_id)
  then have "list_all blk_ok (butlast (c_reply c) @ [Some tail])" using ok by (simp add: out_ok_def)
  then have b: "length (blk_data tail) \<le> blk_size tail" "list_all blk_ok (butlast (c_reply c))" by simp_all
  define n where "n = min (length s) (blk_size tail - length (blk_data tail))"
  let ?t = "tail\<lparr>blk_data := blk_data tail @ take n s\<rparr>"
  let ?c = "c\<lparr>c_reply := butlast (c_reply c) @ [Some ?t]\<rparr>"
  have n: "length (blk_data tail) + length (take n s) \<le> blk_size tail" using b(1) by (simp add: n_def)
  then have "append_to_tail c s = Some (?c, drop n s)" using t by (simp add: append_to_tail_def blk_append_def Let_def n_def)
  moreover have z: "blocks_size (c_reply c) = blocks_size (butlast (c_reply c)) + blk_size tail" by (subst r) simp
  moreover have q: "queued ?c = queued c @ map Some (take n s)" unfolding queued_def by (subst (2) r) simp
  moreover have f: "first_len c \<le> first_len ?c" using first_len_snoc(1) [of ?c c ?t tail] t by simp
  moreover have "out_ok ?c" "pend ?c = pend c @ map Some (take n s)"
    by (rule out_grow [OF ok q f]; use ok b(2) n z in \<open>simp add: out_ok_def\<close>)+
  ultimately show ?thesis by (intro exI [of _ ?c] exI [of _ n]) (simp add: like_def)
qed

lemma append_node_ok:
  assumes conf: "conf_ok conf" and ok: "out_ok c"
  shows "\<exists>c'. append_node conf c s = Some c' \<and> out_ok c' \<and> pend c' = pend c @ map Some s \<and> like c c' \<and>
    c_reply_bytes c' \<le> c_reply_bytes c + cost conf (length s)"
proof (cases "s = []")
  case True
  then show ?thesis using ok by (simp add: append_node_def like_def)
next
  case False
  obtain b where b: "new_block conf (max PROTO_REPLY_CHUNK_BYTES (length s)) s = Some b" "blk_data b = s" "length s \<le> blk_size b"
      "blk_size b \<le> usable_size conf (max PROTO_REPLY_CHUNK_BYTES (length s) + 16)"
    using new_block_ok [OF conf, of s "max PROTO_REPLY_CHUNK_BYTES (length s)"] by auto
  let ?c = "c\<lparr>c_reply := c_reply c @ [Some b], c_reply_bytes := c_reply_bytes c + blk_size b\<rparr>"
  have q: "queued ?c = queued c @ map Some s" by (simp add: queued_def b)
  have f: "first_len c \<le> first_len ?c" by (rule first_len_snoc(2)) simp_all
  have "out_ok ?c" "pend ?c = pend c @ map Some s"
    by (rule out_grow [OF ok q f]; use ok b in \<open>simp add: out_ok_def\<close>)+
  then show ?thesis using False b(1,4) cost_ge [of "length s" "length s" conf] by (simp add: append_node_def like_def)
qed

lemma cost_mono: "k \<le> n \<Longrightarrow> cost conf k \<le> cost conf n"
  unfolding cost_def by (rule Max_mono) auto

lemma addReplyProtoToList_ok:
  assumes conf: "conf_ok conf" and c: "normal c" "out_ok c" "c_reply_bytes c + cost conf (length s) < byte_limit"
  shows "\<exists>c'. addReplyProtoToList conf c s = Some c' \<and> normal c' \<and> out_ok c' \<and> pend c' = pend c @ map Some s \<and>
    c_reply_bytes c' \<le> c_reply_bytes c + cost conf (length s) \<and> c_resp c' = c_resp c"
proof -
  obtain c1 n where c1: "append_to_tail c s = Some (c1, drop n s)" "out_ok c1" "pend c1 = pend c @ map Some (take n s)"
      "like c c1" "c_reply_bytes c1 = c_reply_bytes c" using append_to_tail_ok [OF c(2), of s] by blast
  obtain c2 where c2: "append_node conf c1 (drop n s) = Some c2" "out_ok c2" "pend c2 = pend c1 @ map Some (drop n s)" "like c1 c2"
      "c_reply_bytes c2 \<le> c_reply_bytes c1 + cost conf (length (drop n s))" using append_node_ok [OF conf c1(2)] by blast
  have b: "c_reply_bytes c2 \<le> c_reply_bytes c + cost conf (length s)"
    using c1(5) c2(5) cost_mono [of "length (drop n s)" "length s" conf] by simp
  obtain c3 where c3: "asyncCloseClientOnOutputBufferLimitReached conf c2 = Some c3" "same_output c2 c3"
    using asyncClose_same [of c2 conf] b c(3) by auto
  have "normal c2" using c(1) c1(4) c2(4) by (simp add: normal_def like_def)
  moreover have "pend c2 = pend c @ map Some s" using c1(3) c2(3) by (simp flip: map_append)
  moreover have "addReplyProtoToList conf c s = Some c3"
    using c(1) c1(1) c2(1) c3(1) by (simp add: addReplyProtoToList_def normal_def)
  ultimately show ?thesis using same_output_ok [OF c3(2)] c2(2) b c3(2) c1(4) c2(4) by (auto simp: same_output_def like_def)
qed

text \<open>\<open>_addReplyToBuffer\<close> and, when it cannot, \<open>_addReplyProtoToList\<close>.\<close>

lemma output_adds:
  assumes conf: "conf_ok conf"
  shows "adds c s (cost conf (length s)) (let (c, ok) = prepareClientToWrite c in
      if \<not> ok then Some c
      else let (c', ok) = addReplyToBuffer c s in
      if ok then Some c' else addReplyProtoToList conf c s)"
  unfolding adds_def
proof (intro impI)
  assume c: "normal c" "out_ok c" "c_reply_bytes c + cost conf (length s) < byte_limit"
  obtain c1 ok where p: "prepareClientToWrite c = (c1, ok)" by fastforce
  have s1: "same_output c c1" "ok \<longleftrightarrow> \<not> closing c" "\<not> closing c \<Longrightarrow> \<not> closing c1" using prepare_same [OF c(1)] p by simp_all
  note c1 = same_output_ok [OF s1(1)]
  have f: "c_reply_bytes c1 = c_reply_bytes c" "c_resp c1 = c_resp c" using s1(1) by (simp_all add: same_output_def)
  show "\<exists>c' p q. (let (c, ok) = prepareClientToWrite c in if \<not> ok then Some c
        else let (c', ok) = addReplyToBuffer c s in if ok then Some c' else addReplyProtoToList conf c s) = Some c' \<and>
      s = p @ q \<and> normal c' \<and> out_ok c' \<and> pend c' = pend c @ map Some p \<and> c_reply_bytes c' \<le> c_reply_bytes c + cost conf (length s) \<and>
      c_resp c' = c_resp c \<and> (\<not> closing c' \<longrightarrow> q = []) \<and> (closing c \<longrightarrow> p = [] \<and> closing c')"
  proof (cases ok)
    case False
    then show ?thesis using p s1 c1 c f by (intro exI [of _ c1] exI [of _ "[]"] exI [of _ s]) simp
  next
    case True
    have "\<exists>c'. (let (c', ok) = addReplyToBuffer c1 s in if ok then Some c' else addReplyProtoToList conf c1 s) = Some c' \<and>
        normal c' \<and> out_ok c' \<and> pend c' = pend c1 @ map Some s \<and> c_reply_bytes c' \<le> c_reply_bytes c1 + cost conf (length s) \<and> c_resp c' = c_resp c1"
    proof (cases "snd (addReplyToBuffer c1 s)")
      case False
      then have "addReplyToBuffer c1 s = (c1, False)" by (auto simp: addReplyToBuffer_def Let_def split: if_splits)
      then show ?thesis using addReplyProtoToList_ok [OF conf, of c1 s] c c1 f by simp
    next
      case True
      let ?c = "c1\<lparr>c_buf := c_buf c1 @ s\<rparr>"
      have n: "\<not> has c1 CLIENT_CLOSE_AFTER_REPLY" using c1(3) c(1) by (simp add: normal_def)
      then have b: "addReplyToBuffer c1 s = (?c, True)" "c_reply c1 = []" "length s \<le> PROTO_REPLY_CHUNK_BYTES - length (c_buf c1)"
        using True by (auto simp: addReplyToBuffer_def Let_def split: if_splits)
      have o: "out_ok c1" using c1(1) c(2) by simp
      have q: "queued ?c = queued c1 @ map Some s" using b(2) by (simp add: queued_def)
      have l: "first_len c1 \<le> first_len ?c" using b(2) by (simp add: first_len_def)
      have "out_ok ?c" "pend ?c = pend c1 @ map Some s"
        by (rule out_grow [OF o q l]; use o b in \<open>auto simp: out_ok_def\<close>)+
      then show ?thesis using b(1) c c1(3) by (simp add: normal_def)
    qed
    then show ?thesis using True p s1(2) c1(2) f by (auto intro!: exI [of _ s] exI [of _ "[]"])
  qed
qed

lemma addReplyProto_adds: "conf_ok conf \<Longrightarrow> adds c s (cost conf (length s)) (addReplyProto conf c s)"
  using output_adds [of conf c s] by (simp add: addReplyProto_def)

lemma addReplySds_adds: "conf_ok conf \<Longrightarrow> adds c s (cost conf (length s)) (addReplySds conf c s)"
  using output_adds [of conf c s] by (simp add: addReplySds_def)

lemma addReply_adds:
  assumes "conf_ok conf" "obj_ok obj"
  shows "adds c (obj_bytes obj) (cost conf (length (obj_bytes obj))) (addReply conf c obj)"
proof -
  have e: "(case enc obj of Raw s _ \<Rightarrow> Some s | Embstr s \<Rightarrow> Some s | EncInt v \<Rightarrow> ll_buf 32 v) = Some (obj_bytes obj)"
    using assms(2) by (auto simp: obj_bytes_def obj_ok_def ll_buf_dec split: encoding_str.splits)
  show ?thesis unfolding addReply_def e Option.bind.simps by (rule output_adds [OF assms(1)])
qed

section \<open>The protocol of the replies\<close>

definition resp_len :: "byte \<Rightarrow> nat \<Rightarrow> mem" where
  "resp_len prefix n = [prefix] @ dec_nat n @ crlf"

definition resp_bulk :: "mem \<Rightarrow> mem" where
  "resp_bulk s = resp_len (ch CHR ''$'') (length s) @ s @ crlf"

lemma shared_obj_ok [simp]: "obj_ok (shared_obj s)" "obj_bytes (shared_obj s) = s"
  by (simp_all add: shared_obj_def createRawStringObject_def obj_ok_def obj_bytes_def)

lemma addReplyLongLongWithPrefix_adds:
  assumes "conf_ok conf" "in_int64 ll"
  shows "adds c ([prefix] @ dec_int ll @ crlf) (cost conf (length ([prefix] @ dec_int ll @ crlf))) (addReplyLongLongWithPrefix conf c ll prefix)"
  using addReply_adds [OF assms(1), of "shared_mbulkhdr ll" c] addReply_adds [OF assms(1), of "shared_bulkhdr ll" c]
    addReplyProto_adds [OF assms(1), of c "[prefix] @ dec_int ll @ crlf"] assms(2)
  by (simp add: addReplyLongLongWithPrefix_def shared_mbulkhdr_def shared_bulkhdr_def ll_buf_dec)

lemma dec_int_nat: "dec_int (int n) = dec_nat n"
  by (simp add: dec_int_def)

lemma resp_len_adds:
  assumes "conf_ok conf" "n < 2 ^ 63"
  shows "adds c (resp_len prefix n) (cost conf (length (resp_len prefix n))) (addReplyLongLongWithPrefix conf c (int n) prefix)"
  using addReplyLongLongWithPrefix_adds [of conf "int n" c prefix] assms by (simp add: resp_len_def dec_int_nat in_int64_def)

definition bulk_cost :: "netconf \<Rightarrow> mem \<Rightarrow> nat" where
  "bulk_cost conf s = cost conf (length (resp_len (ch CHR ''$'') (length s))) + (cost conf (length s) + cost conf (length crlf))"

lemma bulk_adds:
  assumes "conf_ok conf" "length s < 2 ^ 63" "\<And>c. adds c s (cost conf (length s)) (f c)"
  shows "adds c (resp_bulk s) (bulk_cost conf s)
    (addReplyLongLongWithPrefix conf c (int (length s)) (ch CHR ''$'') \<bind> (\<lambda>c. f c \<bind> (\<lambda>c. addReply conf c (shared_obj crlf))))"
  unfolding resp_bulk_def bulk_cost_def
  by (intro adds_bind resp_len_adds assms) (use addReply_adds [OF assms(1), of "shared_obj crlf"] in simp)

lemma addReplyBulk_adds:
  assumes "conf_ok conf" "obj_ok obj" "length (obj_bytes obj) < 2 ^ 63"
  shows "adds c (resp_bulk (obj_bytes obj)) (bulk_cost conf (obj_bytes obj)) (addReplyBulk conf c obj)"
  using bulk_adds [OF assms(1,3) addReply_adds [OF assms(1,2)]] stringObjectLen_ok [OF assms(2)]
  by (simp add: addReplyBulk_def addReplyBulkLen_def)

lemma addReplyBulkCBuffer_adds:
  assumes "conf_ok conf" "length p < 2 ^ 63"
  shows "adds c (resp_bulk p) (bulk_cost conf p) (addReplyBulkCBuffer conf c p)"
  using bulk_adds [OF assms addReplyProto_adds [OF assms(1)]] by (simp add: addReplyBulkCBuffer_def)

lemma addReplyArrayLen_adds:
  assumes "conf_ok conf" "n < 2 ^ 63"
  shows "adds c (resp_len (ch CHR ''*'') n) (cost conf (length (resp_len (ch CHR ''*'') n))) (addReplyArrayLen conf c (int n))"
  using resp_len_adds [OF assms] by (simp add: addReplyArrayLen_def addReplyAggregateLen_def)

section \<open>Deferred lengths fill their holes\<close>

text \<open>What is queued before and behind the node at a position.\<close>

definition before :: "client \<Rightarrow> nat \<Rightarrow> byte option list" where
  "before c i = drop (c_sentlen c) (map Some (c_buf c) @ concat (map seg (take i (c_reply c))))"

definition behind :: "client \<Rightarrow> nat \<Rightarrow> byte option list" where
  "behind c i = concat (map seg (drop (i + 1) (c_reply c)))"

lemma hole_split:
  assumes ok: "out_ok c" and i: "i < length (c_reply c)" "c_reply c ! i = None"
  shows "c_reply c = take i (c_reply c) @ None # drop (i + 1) (c_reply c)"
    "c_sentlen c \<le> length (map Some (c_buf c) @ concat (map seg (take i (c_reply c))))"
    "c_sentlen c = 0 \<or> c_buf c \<noteq> [] \<or> (\<exists>b as. take i (c_reply c) = Some b # as \<and> c_sentlen c < length (blk_data b))"
proof -
  show r: "c_reply c = take i (c_reply c) @ None # drop (i + 1) (c_reply c)" using i id_take_nth_drop [OF i(1)] by simp
  show k: "c_sentlen c = 0 \<or> c_buf c \<noteq> [] \<or> (\<exists>b as. take i (c_reply c) = Some b # as \<and> c_sentlen c < length (blk_data b))"
  proof (cases "take i (c_reply c)")
    case Nil
    have "c_reply c = None # drop (i + 1) (c_reply c)" using r [unfolded Nil] by simp
    then show ?thesis using ok by (auto simp: out_ok_def sent_ok_def first_len_def split: list.splits option.splits)
  next
    case (Cons n as)
    have "c_reply c = n # as @ None # drop (i + 1) (c_reply c)" using r [unfolded Cons] by simp
    then show ?thesis using ok Cons by (cases n) (auto simp: out_ok_def sent_ok_def first_len_def split: list.splits option.splits)
  qed
  show "c_sentlen c \<le> length (map Some (c_buf c) @ concat (map seg (take i (c_reply c))))"
    using k ok by (auto simp: out_ok_def sent_ok_def first_len_def)
qed

lemma hole_pend:
  assumes ok: "out_ok c" and i: "i < length (c_reply c)" "c_reply c ! i = None"
  shows "pend c = before c i @ None # behind c i"
proof -
  note h = hole_split [OF ok i]
  have "concat (map seg (c_reply c)) = concat (map seg (take i (c_reply c))) @ None # concat (map seg (drop (i + 1) (c_reply c)))"
    using arg_cong [OF h(1), of "\<lambda>r. concat (map seg r)"] by simp
  then show ?thesis using h(2) by (simp add: pend_def queued_def before_def behind_def)
qed

lemma holes_pend: "out_ok c \<Longrightarrow> None \<in> set (pend c) \<longleftrightarrow> None \<in> set (c_reply c)"
proof
  assume "None \<in> set (pend c)"
  then have "None \<in> set (queued c)" unfolding pend_def by (rule in_set_dropD)
  then show "None \<in> set (c_reply c)" by (auto simp: queued_def seg_def split: option.splits)
next
  assume "out_ok c" "None \<in> set (c_reply c)"
  then obtain i where "i < length (c_reply c)" "c_reply c ! i = None" by (auto simp: in_set_conv_nth)
  then show "None \<in> set (pend c)" using hole_pend [OF \<open>out_ok c\<close>] by simp
qed

lemma fill_hole:
  assumes ok: "out_ok c" and i: "i < length (c_reply c)" "c_reply c ! i = None"
    and c': "c_buf c' = c_buf c" "c_sentlen c' = c_sentlen c" "c_reply c' = take i (c_reply c) @ Some b # ns"
      "concat (map seg (Some b # ns)) = map Some s @ behind c i"
      "list_all blk_ok (Some b # ns)" "c_reply_bytes c' = blocks_size (c_reply c')"
  shows "out_ok c'" "pend c = before c i @ None # behind c i" "pend c' = before c i @ map Some s @ behind c i"
proof -
  note h = hole_split [OF ok i]
  have "list_all blk_ok (take i (c_reply c))" using ok by (simp add: out_ok_def list_all_iff) (metis in_set_takeD)
  moreover have "sent_ok c'" using h(3) c'(1-3) ok by (auto simp: sent_ok_def first_len_def out_ok_def)
  ultimately show "out_ok c'" using ok c' by (simp add: out_ok_def)
  show "pend c = before c i @ None # behind c i" by (rule hole_pend [OF ok i])
  show "pend c' = before c i @ map Some s @ behind c i"
    using h(2) c' unfolding pend_def queued_def before_def by simp
qed

lemma setDeferredReply_ok:
  assumes conf: "conf_ok conf" and ok: "out_ok c" and i: "i < length (c_reply c)" "c_reply c ! i = None"
    and lim: "c_reply_bytes c + usable_size conf (length s + 16) < byte_limit"
  shows "\<exists>c'. setDeferredReply conf c (Some i) s = Some c' \<and> out_ok c' \<and>
    pend c = before c i @ None # behind c i \<and> pend c' = before c i @ map Some s @ behind c i"
proof -
  let ?A = "take i (c_reply c)" and ?B = "drop (i + 1) (c_reply c)"
  note r = hole_split(1) [OF ok i]
  have B: "list_all blk_ok ?B" using ok by (simp add: out_ok_def list_all_iff) (metis in_set_dropD)
  have z: "c_reply_bytes c = blocks_size ?A + blocks_size ?B"
    using ok arg_cong [OF r, of blocks_size] by (simp add: out_ok_def)
  obtain b where b: "new_block conf (length s) s = Some b" "blk_data b = s" "length s \<le> blk_size b" "blk_size b \<le> usable_size conf (length s + 16)"
    using new_block_ok [OF conf, of s "length s"] by auto
  let ?new = "c\<lparr>c_reply := (c_reply c)[i := Some b], c_reply_bytes := c_reply_bytes c + blk_size b\<rparr>"
  have upd: "(c_reply c)[i := Some b] = ?A @ Some b # ?B" using i(1) by (simp add: upd_conv_take_nth_drop)
  have new: "out_ok ?new" "pend c = before c i @ None # behind c i" "pend ?new = before c i @ map Some s @ behind c i"
    by (rule fill_hole [OF ok i, where b = b and ns = ?B and c' = ?new]; use upd b B z in \<open>simp add: behind_def\<close>)+
  let ?fill = "case nth_opt (c_reply c) (i + 1) of
             Some (Some nxt) \<Rightarrow>
               if blk_size nxt - length (blk_data nxt) \<ge> length s \<and> length (blk_data nxt) < PROTO_REPLY_CHUNK_BYTES * 4 then do {
                 nxt \<leftarrow> blk_append (nxt\<lparr>blk_data := s\<rparr>) (blk_data nxt);
                 Some (c\<lparr>c_reply := take i (c_reply c) @ Some nxt # drop (i + 2) (c_reply c)\<rparr>)
               } else do {
                 b \<leftarrow> new_block conf (length s) s;
                 Some (c\<lparr>c_reply := (c_reply c)[i := Some b], c_reply_bytes := c_reply_bytes c + blk_size b\<rparr>)
               }
           | _ \<Rightarrow> do {
               b \<leftarrow> new_block conf (length s) s;
               Some (c\<lparr>c_reply := (c_reply c)[i := Some b], c_reply_bytes := c_reply_bytes c + blk_size b\<rparr>)
             }"
  have "\<exists>c'. ?fill = Some c' \<and> out_ok c' \<and> pend c' = before c i @ map Some s @ behind c i \<and> c_reply_bytes c' < byte_limit"
  proof (cases "\<exists>nxt. nth_opt (c_reply c) (i + 1) = Some (Some nxt) \<and> blk_size nxt - length (blk_data nxt) \<ge> length s \<and>
      length (blk_data nxt) < PROTO_REPLY_CHUNK_BYTES * 4")
    case False
    then have "?fill = Some ?new" using b(1) by (auto split: option.split)
    then show ?thesis using new b(4) lim by auto
  next
    case True
    then obtain nxt where n: "nth_opt (c_reply c) (i + 1) = Some (Some nxt)" "blk_size nxt - length (blk_data nxt) \<ge> length s"
      "length (blk_data nxt) < PROTO_REPLY_CHUNK_BYTES * 4" by blast
    then have d: "?B = Some nxt # drop (i + 2) (c_reply c)" by (auto simp: nth_opt_eq_Some Cons_nth_drop_Suc [symmetric])
    then have s: "length (blk_data nxt) \<le> blk_size nxt" "list_all blk_ok (drop (i + 2) (c_reply c))" using B by simp_all
    let ?n = "nxt\<lparr>blk_data := s @ blk_data nxt\<rparr>"
    let ?c = "c\<lparr>c_reply := ?A @ Some ?n # drop (i + 2) (c_reply c)\<rparr>"
    have "?fill = Some ?c" using n s(1) by (simp add: blk_append_def)
    moreover have "out_ok ?c" "pend ?c = before c i @ map Some s @ behind c i"
      by (rule fill_hole [OF ok i, where b = ?n and ns = "drop (i + 2) (c_reply c)" and c' = ?c]; use d s n z in \<open>simp add: behind_def\<close>)+
    ultimately show ?thesis using lim by auto
  qed
  then obtain c1 where c1: "?fill = Some c1" "out_ok c1" "pend c1 = before c i @ map Some s @ behind c i" "c_reply_bytes c1 < byte_limit" by blast
  obtain c2 where c2: "asyncCloseClientOnOutputBufferLimitReached conf c1 = Some c2" "same_output c1 c2" using asyncClose_same [OF c1(4)] by blast
  have "setDeferredReply conf c (Some i) s = Some c2"
    unfolding setDeferredReply_def option.case nth_opt_Some [OF i(1)] i(2) Option.bind.simps c1(1) by (simp add: c2(1))
  then show ?thesis using same_output_ok [OF c2(2)] c1 new(2) by auto
qed

section \<open>Writing sends a prefix\<close>

definition progress :: "client \<Rightarrow> client \<Rightarrow> mem \<Rightarrow> bool" where
  "progress c c' bs \<longleftrightarrow> out_ok c' \<and> None \<notin> set (c_reply c') \<and> pend c = map Some bs @ pend c' \<and> like c c' \<and> c_reply_bytes c' \<le> c_reply_bytes c"

lemma progress_refl: "out_ok c \<Longrightarrow> None \<notin> set (c_reply c) \<Longrightarrow> progress c c []"
  by (simp add: progress_def like_def)

lemma progress_trans: "progress a b s \<Longrightarrow> progress b c t \<Longrightarrow> progress a c (s @ t)"
  by (simp add: progress_def like_def)

lemma take_drop_split: "take m (drop k xs) @ drop (k + m) xs = drop k xs"
  by (metis append_take_drop_id drop_drop add.commute)

lemma write_buf_progress:
  assumes ok: "out_ok c" "None \<notin> set (c_reply c)" and b: "c_buf c \<noteq> []" and w: "write_buf n c = (c', bs)"
  shows "progress c c' bs"
proof -
  have l: "c_sentlen c < length (c_buf c)" using ok(1) b by (auto simp: out_ok_def sent_ok_def first_len_def)
  define m where "m = length (take n (drop (c_sentlen c) (c_buf c)))"
  have bs: "bs = take m (drop (c_sentlen c) (c_buf c))" using w by (auto simp: write_buf_def Let_def m_def min_def split: if_splits)
  have m: "m \<le> length (c_buf c) - c_sentlen c" by (simp add: m_def)
  have p: "pend c = map Some bs @ map Some (drop (c_sentlen c + m) (c_buf c)) @ concat (map seg (c_reply c))"
    using l by (simp add: pend_def queued_def bs drop_map flip: map_append append_assoc) (simp add: take_drop_split)
  show ?thesis
  proof (cases "c_sentlen c + m = length (c_buf c)")
    case True
    then have "c' = c\<lparr>c_sentlen := 0, c_buf := []\<rparr>" using w by (auto simp: write_buf_def Let_def m_def)
    then show ?thesis using ok p True
      by (auto simp: progress_def like_def out_ok_def sent_ok_def pend_def queued_def)
  next
    case False
    then have c': "c' = c\<lparr>c_sentlen := c_sentlen c + m\<rparr>" using w by (auto simp: write_buf_def Let_def m_def)
    then show ?thesis using ok p False m l b
      by (auto simp: progress_def like_def out_ok_def sent_ok_def first_len_def pend_def queued_def drop_map)
  qed
qed

lemma write_block_progress:
  assumes ok: "out_ok c" "None \<notin> set (c_reply c)" and b: "c_buf c = []" "c_reply c = Some b # ns" "blk_data b \<noteq> []"
  shows "\<exists>c' bs. write_block n b c = Some (c', bs) \<and> progress c c' bs"
proof -
  have l: "c_sentlen c < length (blk_data b)" using ok(1) b by (auto simp: out_ok_def sent_ok_def first_len_def)
  define bs where "bs = take n (drop (c_sentlen c) (blk_data b))"
  define m where "m = length bs"
  have bm: "bs = take m (drop (c_sentlen c) (blk_data b))" by (auto simp: bs_def m_def min_def)
  have m: "m \<le> length (blk_data b) - c_sentlen c" by (simp add: bs_def m_def)
  have p: "pend c = map Some bs @ map Some (drop (c_sentlen c + m) (blk_data b)) @ concat (map seg ns)"
    using l b by (simp add: pend_def queued_def bm drop_map flip: map_append append_assoc) (simp add: take_drop_split)
  have z: "c_reply_bytes c = blk_size b + blocks_size ns" using ok(1) b by (simp add: out_ok_def)
  show ?thesis
  proof (cases "c_sentlen c + m = length (blk_data b)")
    case True
    let ?c = "c\<lparr>c_sentlen := 0, c_reply_bytes := c_reply_bytes c - blk_size b, c_reply := ns\<rparr>"
    have "write_block n b c = Some (?c, bs)" using True b z by (auto simp: write_block_def Let_def m_def bs_def)
    moreover have "progress c ?c bs" using ok p True z b
      by (auto simp: progress_def like_def out_ok_def sent_ok_def pend_def queued_def)
    ultimately show ?thesis by blast
  next
    case False
    let ?c = "c\<lparr>c_sentlen := c_sentlen c + m\<rparr>"
    have "write_block n b c = Some (?c, bs)" using False by (auto simp: write_block_def Let_def m_def bs_def)
    moreover have "progress c ?c bs" using ok p False m l b
      by (auto simp: progress_def like_def out_ok_def sent_ok_def first_len_def pend_def queued_def drop_map)
    ultimately show ?thesis by blast
  qed
qed

lemma drop_empty_block:
  assumes ok: "out_ok c" "None \<notin> set (c_reply c)" and b: "c_buf c = []" "c_reply c = Some b # ns" "blk_data b = []"
  shows "progress c (c\<lparr>c_reply_bytes := c_reply_bytes c - blk_size b, c_reply := ns\<rparr>) []"
  using assms by (auto simp: progress_def like_def out_ok_def sent_ok_def first_len_def pend_def queued_def)

lemma write_loop_progress:
  assumes "out_ok c" "None \<notin> set (c_reply c)"
  shows "\<exists>c' bs n. write_loop below ns c out l = Some (c', out @ bs, n) \<and> progress c c' bs"
  using assms
proof (induction below ns c out l rule: write_loop.induct)
  case (1 below ns c out l)
  note refl = progress_refl [OF 1(4,5)]
  show ?case
  proof (cases "clientHasPendingReplies c")
    case False
    then show ?thesis using refl by (subst write_loop.simps) auto
  next
    case pending: True
    show ?thesis
    proof (cases "c_buf c = []")
      case False
      show ?thesis
      proof (cases ns)
        case Nil
        then show ?thesis using refl pending False by (subst write_loop.simps) auto
      next
        case (Cons n ns')
        obtain c' bs where w: "write_buf (nat n) c = (c', bs)" by fastforce
        have p: "progress c c' bs" using write_buf_progress [OF 1(4,5) False w] .
        show ?thesis
        proof (cases "n \<le> 0 \<or> length (out @ bs) > NET_MAX_WRITES_PER_EVENT \<and> below \<and> \<not> has c' CLIENT_SLAVE")
          case True
          then show ?thesis using refl p pending False Cons w by (subst write_loop.simps) auto
        next
          case go: False
          have "\<exists>c'' bs' m. write_loop below ns' c' (out @ bs) n = Some (c'', (out @ bs) @ bs', m) \<and> progress c' c'' bs'"
            using 1(1) [of n ns' c' bs] pending False Cons go w p by (auto simp: progress_def)
          then show ?thesis using progress_trans [OF p] pending False Cons w go by (subst write_loop.simps) fastforce
        qed
      qed
    next
      case True
      then obtain b rest where r: "c_reply c = Some b # rest"
        using pending 1(5) by (cases "c_reply c"; cases "hd (c_reply c)") (auto simp: clientHasPendingReplies_def)
      show ?thesis
      proof (cases "blk_data b = []")
        case empty: True
        let ?c = "c\<lparr>c_reply_bytes := c_reply_bytes c - blk_size b, c_reply := rest\<rparr>"
        have p: "progress c ?c []" by (rule drop_empty_block [OF 1(4,5) True r empty])
        then have "\<exists>c'' bs' m. write_loop below ns ?c out l = Some (c'', out @ bs', m) \<and> progress ?c c'' bs'"
          using 1(2) [of b] pending True r empty by (auto simp: progress_def)
        then show ?thesis using progress_trans [OF p] pending True r empty by (subst write_loop.simps) fastforce
      next
        case data: False
        show ?thesis
        proof (cases ns)
          case Nil
          then show ?thesis using refl pending True r data by (subst write_loop.simps) auto
        next
          case (Cons n ns')
          obtain c' bs where w: "write_block (nat n) b c = Some (c', bs)" and p: "progress c c' bs"
            using write_block_progress [OF 1(4,5) True r data] by blast
          show ?thesis
          proof (cases "n \<le> 0 \<or> length (out @ bs) > NET_MAX_WRITES_PER_EVENT \<and> below \<and> \<not> has c' CLIENT_SLAVE")
            case stop: True
            then show ?thesis using refl p pending True r data Cons w by (subst write_loop.simps) auto
          next
            case go: False
            have "\<exists>c'' bs' m. write_loop below ns' c' (out @ bs) n = Some (c'', (out @ bs) @ bs', m) \<and> progress c' c'' bs'"
              using 1(3) [of b n ns' "(c', bs)" c' bs] pending True r data Cons go w p by (auto simp: progress_def)
            then show ?thesis using progress_trans [OF p] pending True r data Cons w go by (subst write_loop.simps) fastforce
          qed
        qed
      qed
    qed
  qed
qed

section \<open>Sequences of replies and writes\<close>

text \<open>A way to reply with a value: its octets are added.\<close>

locale replier =
  fixes reply :: "client \<Rightarrow> 'a \<Rightarrow> client option" and enc :: "'a \<Rightarrow> mem" and k :: "'a \<Rightarrow> nat" and valid :: "'a \<Rightarrow> bool"
  assumes reply_adds: "valid x \<Longrightarrow> adds c (enc x) (k x) (reply c x)"
begin

primrec reply_all :: "client \<Rightarrow> 'a list \<Rightarrow> client option" where
  "reply_all c [] = Some c"
| "reply_all c (x # xs) = reply c x \<bind> (\<lambda>c. reply_all c xs)"

lemma adds_nothing: "adds c [] 0 (Some c)"
  by (simp add: adds_def)

lemma reply_all_adds: "list_all valid xs \<Longrightarrow> adds c (concat (map enc xs)) (sum_list (map k xs)) (reply_all c xs)"
proof (induction xs arbitrary: c)
  case Nil
  then show ?case by (simp add: adds_nothing)
next
  case (Cons x xs)
  then show ?case using adds_bind [OF reply_adds [of x c], of "concat (map enc xs)" "sum_list (map k xs)" "\<lambda>c. reply_all c xs"] by simp
qed

end

definition bulk_valid :: "sobj \<Rightarrow> bool" where
  "bulk_valid obj \<longleftrightarrow> obj_ok obj \<and> length (obj_bytes obj) < 2 ^ 63"

locale reply_conf =
  fixes conf :: netconf
  assumes conf_ok: "conf_ok conf"

sublocale reply_conf \<subseteq> raw: replier "addReplyProto conf" id "\<lambda>s. cost conf (length s)" "\<lambda>_. True"
  by unfold_locales (simp add: addReplyProto_adds conf_ok)

sublocale reply_conf \<subseteq> bulk: replier "addReplyBulk conf" "\<lambda>obj. resp_bulk (obj_bytes obj)" "\<lambda>obj. bulk_cost conf (obj_bytes obj)" bulk_valid
  by unfold_locales (simp add: addReplyBulk_adds conf_ok bulk_valid_def)

text \<open>\<open>clientBufferLimitsDefaults\<close>\<close>

definition clientBufferLimitsDefaults :: "client_type \<Rightarrow> nat \<times> nat \<times> int" where
  "clientBufferLimitsDefaults t = (case t of
     CLIENT_TYPE_SLAVE \<Rightarrow> (1024 * 1024 * 256, 1024 * 1024 * 64, 60)
   | CLIENT_TYPE_PUBSUB \<Rightarrow> (1024 * 1024 * 32, 1024 * 1024 * 8, 60)
   | _ \<Rightarrow> (0, 0, 0))"

definition default_conf :: netconf where
  "default_conf = \<lparr>usable_size = zmalloc_usable, obuf_limits = clientBufferLimitsDefaults, unixtime = 0\<rparr>"

interpretation default_reply: reply_conf default_conf
  by unfold_locales (simp add: conf_ok_def default_conf_def zmalloc_usable_def)

datatype out_event = Proto mem | Bulk sobj | Flush bool bool "int list"

fun run_event :: "netconf \<Rightarrow> client \<times> mem \<Rightarrow> out_event \<Rightarrow> (client \<times> mem) option" where
  "run_event conf (c, sent) (Proto s) = map_option (\<lambda>c. (c, sent)) (addReplyProto conf c s)"
| "run_event conf (c, sent) (Bulk obj) = map_option (\<lambda>c. (c, sent)) (addReplyBulk conf c obj)"
| "run_event conf (c, sent) (Flush below connected ns) = map_option (\<lambda>(c, out, _). (c, sent @ out)) (writeToClient below connected ns c)"

primrec run_events :: "netconf \<Rightarrow> client \<times> mem \<Rightarrow> out_event list \<Rightarrow> (client \<times> mem) option" where
  "run_events conf st [] = Some st"
| "run_events conf st (e # es) = run_event conf st e \<bind> (\<lambda>st. run_events conf st es)"

primrec payload :: "out_event \<Rightarrow> mem" where
  "payload (Proto s) = s"
| "payload (Bulk obj) = resp_bulk (obj_bytes obj)"
| "payload (Flush _ _ _) = []"

primrec event_cost :: "netconf \<Rightarrow> out_event \<Rightarrow> nat" where
  "event_cost conf (Proto s) = cost conf (length s)"
| "event_cost conf (Bulk obj) = bulk_cost conf (obj_bytes obj)"
| "event_cost conf (Flush _ _ _) = 0"

primrec event_valid :: "out_event \<Rightarrow> bool" where
  "event_valid (Proto s) = True"
| "event_valid (Bulk obj) = bulk_valid obj"
| "event_valid (Flush _ _ _) = True"

text \<open>All that was ever added is what was sent, what is pending and what was dropped when the client was to be closed.\<close>

definition accounted :: "mem \<Rightarrow> client \<times> mem \<Rightarrow> bool" where
  "accounted all st = (case st of (c, sent) \<Rightarrow> normal c \<and> out_ok c \<and> None \<notin> set (c_reply c) \<and>
     (\<exists>rest. map Some all = map Some sent @ pend c @ map Some rest \<and> (\<not> closing c \<longrightarrow> rest = [])))"

lemma adds_accounted:
  assumes a: "adds c s k r" and acc: "accounted all (c, sent)" and lim: "c_reply_bytes c + k < byte_limit"
  shows "\<exists>c'. r = Some c' \<and> accounted (all @ s) (c', sent) \<and> c_reply_bytes c' \<le> c_reply_bytes c + k"
proof -
  have c: "normal c" "out_ok c" "None \<notin> set (c_reply c)" using acc by (simp_all add: accounted_def)
  obtain rest where rest: "map Some all = map Some sent @ pend c @ map Some rest" "\<not> closing c \<longrightarrow> rest = []"
    using acc by (auto simp: accounted_def)
  obtain c' p q where c': "r = Some c'" "s = p @ q" "normal c'" "out_ok c'" "pend c' = pend c @ map Some p"
      "c_reply_bytes c' \<le> c_reply_bytes c + k" "\<not> closing c' \<longrightarrow> q = []" "closing c \<longrightarrow> p = [] \<and> closing c'"
    using a c(1,2) lim unfolding adds_def by blast
  have h: "None \<notin> set (c_reply c')" using holes_pend [OF c'(4)] holes_pend [OF c(2)] c(3) c'(5) by auto
  have "\<exists>r'. map Some (all @ s) = map Some sent @ pend c' @ map Some r' \<and> (\<not> closing c' \<longrightarrow> r' = [])"
  proof (cases "closing c")
    case True
    then show ?thesis using c'(2,5,8) rest by (intro exI [of _ "rest @ q"]) simp
  next
    case False
    then show ?thesis using c'(2,5,7) rest by (intro exI [of _ q]) simp
  qed
  then show ?thesis using c'(1,3,4,6) h by (auto simp: accounted_def)
qed

lemma write_accounted:
  assumes acc: "accounted all (c, sent)"
  shows "\<exists>c' out ok. writeToClient below connected ns c = Some (c', out, ok) \<and> accounted all (c', sent @ out) \<and> c_reply_bytes c' \<le> c_reply_bytes c"
proof -
  have c: "normal c" "out_ok c" "None \<notin> set (c_reply c)" using acc by (simp_all add: accounted_def)
  obtain rest where rest: "map Some all = map Some sent @ pend c @ map Some rest" "\<not> closing c \<longrightarrow> rest = []"
    using acc by (auto simp: accounted_def)
  obtain c1 bs n where w: "write_loop below ns c [] 0 = Some (c1, bs, n)" and p: "progress c c1 bs"
    using write_loop_progress [OF c(2,3), of below ns "[]" 0] by auto
  have z: "c_sentlen c1 = 0" if "\<not> clientHasPendingReplies c1"
    using p that by (auto simp: progress_def out_ok_def sent_ok_def first_len_def clientHasPendingReplies_def)
  have n1: "\<not> has c1 CLIENT_CLOSE_AFTER_REPLY" using c(1) p by (auto simp: progress_def like_def normal_def)
  obtain c2 ok where e: "writeToClient below connected ns c = Some (c2, bs, ok)" "c2 = c1 \<or> c2 = freeClientAsync c1"
  proof -
    have "c1\<lparr>c_sentlen := 0\<rparr> = c1" if "\<not> clientHasPendingReplies c1" using z [OF that] by (cases c1) simp
    then have "\<exists>c2 ok. writeToClient below connected ns c = Some (c2, bs, ok) \<and> (c2 = c1 \<or> c2 = freeClientAsync c1)"
      using w n1 by (cases "n = - 1 \<and> \<not> connected"; cases "clientHasPendingReplies c1") (auto simp: writeToClient_def Let_def)
    then show ?thesis using that by blast
  qed
  have s: "same_output c1 c2" using e(2) freeClientAsync_same by auto
  have "normal c1" using c(1) p by (simp add: progress_def like_def normal_def)
  then have "accounted all (c2, sent @ bs)" using same_output_ok [OF s] p s rest
    by (auto simp: accounted_def progress_def like_def same_output_def)
  moreover have "c_reply_bytes c2 \<le> c_reply_bytes c" using s p by (simp add: same_output_def progress_def)
  ultimately show ?thesis using e(1) by blast
qed

lemma run_events_accounted:
  assumes conf: "conf_ok conf" and "accounted all (c, sent)" "list_all event_valid es"
    and "c_reply_bytes c + sum_list (map (event_cost conf) es) < byte_limit"
  shows "\<exists>st. run_events conf (c, sent) es = Some st \<and> accounted (all @ concat (map payload es)) st"
  using assms(2-)
proof (induction es arbitrary: all c sent)
  case (Cons e es)
  have "\<exists>c' sent'. run_event conf (c, sent) e = Some (c', sent') \<and> accounted (all @ payload e) (c', sent') \<and>
      c_reply_bytes c' \<le> c_reply_bytes c + event_cost conf e"
  proof (cases e)
    case (Proto s)
    then show ?thesis using adds_accounted [OF addReplyProto_adds [OF conf] Cons.prems(1), of s] Cons.prems(3) by fastforce
  next
    case (Bulk obj)
    then have "adds c (resp_bulk (obj_bytes obj)) (bulk_cost conf (obj_bytes obj)) (addReplyBulk conf c obj)"
      using addReplyBulk_adds [OF conf] Cons.prems(2) by (simp add: bulk_valid_def)
    from adds_accounted [OF this Cons.prems(1)] show ?thesis using Bulk Cons.prems(3) by fastforce
  next
    case (Flush below connected ns)
    then show ?thesis using write_accounted [OF Cons.prems(1), of below connected ns] by fastforce
  qed
  then obtain c' sent' where s: "run_event conf (c, sent) e = Some (c', sent')" "accounted (all @ payload e) (c', sent')"
    "c_reply_bytes c' \<le> c_reply_bytes c + event_cost conf e" by blast
  then show ?case using Cons.IH [OF s(2)] Cons.prems by simp
qed simp

section \<open>Properties\<close>


definition sample_client :: client where
  "sample_client = \<lparr>c_flags = {}, c_conn = True, c_resp = 2, c_buf = [], c_reply = [], c_reply_bytes = 0, c_sentlen = 0, c_soft_time = 0,
     c_replstate = REPL_STATE_NONE, c_put_online_on_ack = False\<rparr>"


text \<open>
  C17: a deferred length, filled in after the rest of its reply was queued, appears exactly where its
  placeholder was, whether it gets a block of its own or is put in front of the following block.
\<close>

theorem deferred_length_exact:
  assumes "conf_ok conf" "out_ok c" "i < length (c_reply c)" "c_reply c ! i = None"
    "c_reply_bytes c + usable_size conf (length s + 16) < byte_limit"
  shows "\<exists>c'. setDeferredReply conf c (Some i) s = Some c' \<and> out_ok c' \<and>
    pend c = before c i @ None # behind c i \<and> pend c' = before c i @ map Some s @ behind c i"
  by (rule setDeferredReply_ok [OF assms])

theorem deferred_length_exact_witness:
  "\<exists>c'. setDeferredReply default_conf (sample_client\<lparr>c_reply := [None]\<rparr>) (Some 0) (str ''*0'' @ crlf) = Some c' \<and> pend c' = map Some (str ''*0'' @ crlf)"
  using deferred_length_exact [of default_conf "sample_client\<lparr>c_reply := [None]\<rparr>" 0 "str ''*0'' @ crlf"]
  by (auto simp: conf_ok_def sample_client_def out_ok_def sent_ok_def before_def behind_def default_conf_def
      zmalloc_usable_def byte_limit_def crlf_def)

end
