(* ===== verification/Spec2Isabelle.thy ===== *)
theory Spec2Isabelle
  imports Redis_Prelude Util Glob Intset Dict Dict_Scan Siphash Objects Dict_Types Adlist Lzf Rdb Sds Reply
begin

text \<open>
  Verification development for the Redis 6.2.0 server that this repository carries under
  \<open>src/redis-6.2.0/\<close>, the C part of the application.

  (Header in progress.)
\<close>

end
